(* ===== verification/OMS_Prelude.thy ===== *)
theory OMS_Prelude
  imports Main "HOL-Library.AList" "HOL-Library.Multiset" "HOL-Library.Monad_Syntax"
begin

text \<open>
  Shared vocabulary of the development: Go's 64-bit signed integers with their wrap-around
  written out, Go maps as association lists with distinct keys, the standard library's
  binary search, slice insertion and removal, and generic facts on lists and maps that the
  component theories use.
\<close>

section \<open>Fact collections\<close>

named_theorems go_int \<open>facts that evaluate or bound 64-bit arithmetic\<close>
named_theorems go_map \<open>lookups after map updates\<close>

section \<open>64-bit signed integers\<close>

text \<open>
  An \<open>int64\<close> value is an \<open>int\<close> in \<open>[-2^63, 2^63)\<close>. Go's arithmetic on it never fails, it
  wraps; \<open>i64\<close> is the reduction into the range that every operation ends with.
\<close>

definition i64 :: "int \<Rightarrow> int" where
  "i64 x = (x + 2 ^ 63) mod 2 ^ 64 - 2 ^ 63"

definition is_i64 :: "int \<Rightarrow> bool" where
  "is_i64 x \<longleftrightarrow> - (2 ^ 63) \<le> x \<and> x < 2 ^ 63"

definition max_i64 :: int where
  "max_i64 = 2 ^ 63 - 1"

definition add64 :: "int \<Rightarrow> int \<Rightarrow> int" where
  "add64 a b = i64 (a + b)"

definition sub64 :: "int \<Rightarrow> int \<Rightarrow> int" where
  "sub64 a b = i64 (a - b)"

definition mul64 :: "int \<Rightarrow> int \<Rightarrow> int" where
  "mul64 a b = i64 (a * b)"

text \<open>Go's integer division truncates towards zero (the divisor is tested before every use).\<close>

definition quot64 :: "int \<Rightarrow> int \<Rightarrow> int" where
  "quot64 a b = i64 (sgn a * sgn b * (\<bar>a\<bar> div \<bar>b\<bar>))"

lemma i64_id [simp, go_int]: "is_i64 x \<Longrightarrow> i64 x = x"
  by (simp add: i64_def is_i64_def)

lemma is_i64_i64 [simp, go_int]: "is_i64 (i64 x)"
proof -
  have "0 \<le> (x + 2 ^ 63) mod 2 ^ 64 \<and> (x + 2 ^ 63) mod 2 ^ 64 < (2::int) ^ 64"
    by simp
  then show ?thesis by (simp add: i64_def is_i64_def)
qed

lemma i64_cong_mod: "i64 x mod 2 ^ 64 = x mod 2 ^ 64"
  by (simp add: i64_def mod_diff_left_eq)

lemma i64_eq_iff: "i64 x = i64 y \<longleftrightarrow> x mod 2 ^ 64 = y mod 2 ^ 64"
proof
  assume "i64 x = i64 y"
  then show "x mod 2 ^ 64 = y mod 2 ^ 64" by (metis i64_cong_mod)
next
  assume "x mod 2 ^ 64 = y mod 2 ^ 64"
  then have "(x + 2 ^ 63) mod 2 ^ 64 = (y + 2 ^ 63) mod 2 ^ 64"
    by (metis mod_add_left_eq)
  then show "i64 x = i64 y" by (simp add: i64_def)
qed

lemma i64_add_left [simp]: "i64 (i64 a + b) = i64 (a + b)"
  unfolding i64_eq_iff by (metis i64_cong_mod mod_add_left_eq)

lemma i64_add_right [simp]: "i64 (a + i64 b) = i64 (a + b)"
  unfolding i64_eq_iff by (metis i64_cong_mod mod_add_right_eq)

lemma i64_diff_left [simp]: "i64 (i64 a - b) = i64 (a - b)"
  unfolding i64_eq_iff by (metis i64_cong_mod mod_diff_left_eq)

lemma i64_diff_right [simp]: "i64 (a - i64 b) = i64 (a - b)"
  unfolding i64_eq_iff by (metis i64_cong_mod mod_diff_right_eq)

lemma is_i64_0 [simp]: "is_i64 0" and is_i64_1 [simp]: "is_i64 1"
  by (simp_all add: is_i64_def)

lemma i64_0 [simp]: "i64 0 = 0" and i64_1 [simp]: "i64 1 = 1"
  by (simp_all add: i64_def)

lemma is_i64_between:
  "is_i64 lo \<Longrightarrow> is_i64 hi \<Longrightarrow> lo \<le> x \<Longrightarrow> x \<le> hi \<Longrightarrow> is_i64 x"
  by (simp add: is_i64_def)

lemma is_i64_nonneg_le: "0 \<le> x \<Longrightarrow> x \<le> y \<Longrightarrow> is_i64 y \<Longrightarrow> is_i64 x"
  by (simp add: is_i64_def)

lemma is_i64_ops [simp, go_int]:
  "is_i64 (add64 a b)" "is_i64 (sub64 a b)" "is_i64 (mul64 a b)" "is_i64 (quot64 a b)"
  by (simp_all add: add64_def sub64_def mul64_def quot64_def)

lemma sub64_pos [simp, go_int]:
  "0 \<le> b \<Longrightarrow> b \<le> a \<Longrightarrow> is_i64 a \<Longrightarrow> sub64 a b = a - b"
  by (simp add: sub64_def is_i64_def)

lemma sub64_self [simp]: "sub64 a a = 0"
  by (simp add: sub64_def)

lemma add64_0 [simp]: "is_i64 a \<Longrightarrow> add64 a 0 = a"
  by (simp add: add64_def)

lemma add64_exact: "is_i64 (a + b) \<Longrightarrow> add64 a b = a + b"
  by (simp add: add64_def)

lemma sub64_exact: "is_i64 (a - b) \<Longrightarrow> sub64 a b = a - b"
  by (simp add: sub64_def)

section \<open>Go maps\<close>

text \<open>
  A Go map is an association list whose keys are distinct: \<open>map_of m k\<close> is the comma-ok
  lookup, \<open>gput\<close> an assignment, \<open>gdel\<close> the built-in \<open>delete\<close>, \<open>length m\<close> the built-in
  \<open>len\<close>. Iteration visits the entries in the order of the list; the language promises no
  order, so no statement may depend on it.
\<close>

type_synonym ('k, 'v) gomap = "('k \<times> 'v) list"

abbreviation gput :: "'k \<Rightarrow> 'v \<Rightarrow> ('k, 'v) gomap \<Rightarrow> ('k, 'v) gomap" where
  "gput \<equiv> AList.update"

abbreviation gdel :: "'k \<Rightarrow> ('k, 'v) gomap \<Rightarrow> ('k, 'v) gomap" where
  "gdel \<equiv> AList.delete"

abbreviation gwf :: "('k, 'v) gomap \<Rightarrow> bool" where
  "gwf m \<equiv> distinct (map fst m)"

text \<open>A lookup that ignores the comma-ok result yields the zero value of the element type.\<close>

definition gget0 :: "('k, int) gomap \<Rightarrow> 'k \<Rightarrow> int" where
  "gget0 m k = (case map_of m k of None \<Rightarrow> 0 | Some v \<Rightarrow> v)"

lemma map_of_gput [simp, go_map]: "map_of (gput k v m) = (map_of m)(k \<mapsto> v)"
  by (rule update_conv')

lemma map_of_gdel [simp, go_map]: "map_of (gdel k m) = (map_of m)(k := None)"
  by (rule delete_conv')

lemma gwf_gput [simp]: "gwf m \<Longrightarrow> gwf (gput k v m)"
  by (rule distinct_update)

lemma gwf_gdel [simp]: "gwf m \<Longrightarrow> gwf (gdel k m)"
  by (rule distinct_delete)

lemma length_gomap: "gwf m \<Longrightarrow> length m = card (dom (map_of m))"
  by (metis distinct_card dom_map_of_conv_image_fst length_map set_map)

lemma gget0_gput [simp, go_map]: "gget0 (gput k v m) k' = (if k = k' then v else gget0 m k')"
  by (simp add: gget0_def)

lemma gget0_gdel [simp, go_map]: "gget0 (gdel k m) k' = (if k = k' then 0 else gget0 m k')"
  by (simp add: gget0_def)

lemma gget0_Nil [simp]: "gget0 [] k = 0"
  by (simp add: gget0_def)

text \<open>The entries of a map, as sets.\<close>

lemma map_of_set: "gwf m \<Longrightarrow> map_of m k = Some v \<longleftrightarrow> (k, v) \<in> set m"
  by (rule map_of_eq_Some_iff)

lemma set_gdel [go_map]: "set (gdel k m) = {x \<in> set m. fst x \<noteq> k}"
  by (auto simp: AList.delete_eq)

lemma set_gput [go_map]: "gwf m \<Longrightarrow> set (gput k v m) = insert (k, v) {x \<in> set m. fst x \<noteq> k}"
  by (induction m) (auto simp: image_iff)

lemma set_gput_new: "map_of m k = None \<Longrightarrow> set (gput k v m) = insert (k, v) (set m)"
  by (induction m) (auto split: if_splits)

lemma gput_gput [simp]: "gput k v (gput k w m) = gput k v m"
  by (induction m) auto

lemma gput_same: "map_of m k = Some v \<Longrightarrow> gput k v m = m"
  by (induction m) (auto split: if_splits)

lemma gwf_unique: "gwf m \<Longrightarrow> (k, v) \<in> set m \<Longrightarrow> (k, w) \<in> set m \<Longrightarrow> v = w"
  by (meson eq_key_imp_eq_value)

text \<open>Sums over the entries of a map.\<close>

definition msum :: "('k \<Rightarrow> 'v \<Rightarrow> int) \<Rightarrow> ('k, 'v) gomap \<Rightarrow> int" where
  "msum f m = sum_list (map (\<lambda>(k, v). f k v) m)"

lemma msum_Nil [simp]: "msum f [] = 0"
  by (simp add: msum_def)

lemma msum_Cons [simp]: "msum f ((k, v) # m) = f k v + msum f m"
  by (simp add: msum_def)

lemma msum_gput [go_map]:
  "msum f (gput k v m) = msum f m - (case map_of m k of None \<Rightarrow> 0 | Some w \<Rightarrow> f k w) + f k v"
  by (induction m) (auto split: option.splits)

lemma gdel_absent: "map_of m k = None \<Longrightarrow> gdel k m = m"
  by (simp add: AList.delete_eq map_of_eq_None_iff filter_id_conv) force

lemma msum_gdel [go_map]:
  "gwf m \<Longrightarrow> msum f (gdel k m) = msum f m - (case map_of m k of None \<Rightarrow> 0 | Some w \<Rightarrow> f k w)"
proof (induction m)
  case (Cons a m)
  obtain k' v' where a: "a = (k', v')" by (cases a)
  show ?case
  proof (cases "k' = k")
    case True
    then have "map_of m k = None" using Cons.prems a by (simp add: map_of_eq_None_iff)
    with True a show ?thesis by (simp add: AList.delete_eq gdel_absent [unfolded AList.delete_eq])
  next
    case False
    with Cons a show ?thesis by (simp add: AList.delete_eq)
  qed
qed (simp add: AList.delete_eq)

lemma msum_nonneg: "(\<And>k v. (k, v) \<in> set m \<Longrightarrow> 0 \<le> f k v) \<Longrightarrow> 0 \<le> msum f m"
  unfolding msum_def by (rule sum_list_nonneg) auto

lemma msum_member_le:
  assumes "(k, v) \<in> set m" "\<And>k v. (k, v) \<in> set m \<Longrightarrow> 0 \<le> f k v"
  shows "f k v \<le> msum f m"
  unfolding msum_def using assms by (intro member_le_sum_list) force+

lemma msum_cong: "(\<And>k v. (k, v) \<in> set m \<Longrightarrow> f k v = g k v) \<Longrightarrow> msum f m = msum g m"
  unfolding msum_def by (rule arg_cong [where f = sum_list]) auto

section \<open>Slices\<close>

text \<open>
  \<open>append(s, 0); copy(s[i+1:], s[i:]); s[i] = x\<close> opens a gap at \<open>i\<close> and fills it;
  \<open>append(s[:i], s[i+1:]...)\<close> closes it. Slicing \<open>s[i+1:]\<close> panics past the end, which is
  \<open>None\<close> here.
\<close>

definition slice_insert :: "nat \<Rightarrow> 'a \<Rightarrow> 'a list \<Rightarrow> 'a list" where
  "slice_insert i x xs = take i xs @ x # drop i xs"

definition slice_remove :: "nat \<Rightarrow> 'a list \<Rightarrow> 'a list option" where
  "slice_remove i xs = (if i < length xs then Some (take i xs @ drop (Suc i) xs) else None)"

section \<open>Binary search\<close>

text \<open>
  \<open>sort.Search n f\<close> of the standard library: the smallest \<open>i\<close> in \<open>[0, n)\<close> with \<open>f i\<close>, or
  \<open>n\<close>, for a predicate that is false up to some index and true from there on.
\<close>

function search_loop :: "(nat \<Rightarrow> bool) \<Rightarrow> nat \<Rightarrow> nat \<Rightarrow> nat" where
  "search_loop f i j =
     (if i < j then
        let h = (i + j) div 2
        in if \<not> f h then search_loop f (h + 1) j else search_loop f i h
      else i)"
  by pat_completeness auto
termination
  by (relation "measure (\<lambda>(f, i, j). j - i)") auto

declare search_loop.simps [simp del]

definition sort_Search :: "nat \<Rightarrow> (nat \<Rightarrow> bool) \<Rightarrow> nat" where
  "sort_Search n f = search_loop f 0 n"

lemma search_loop_threshold:
  assumes "i \<le> k" "k \<le> j"
    and "\<And>x. i \<le> x \<Longrightarrow> x < k \<Longrightarrow> \<not> f x" "\<And>x. k \<le> x \<Longrightarrow> x < j \<Longrightarrow> f x"
  shows "search_loop f i j = k"
  using assms
proof (induction f i j rule: search_loop.induct)
  case (1 f i j)
  show ?case
  proof (cases "i < j")
    case False
    with "1.prems" show ?thesis by (simp add: search_loop.simps [of f i j])
  next
    case True
    let ?h = "(i + j) div 2"
    have h: "i \<le> ?h" "?h < j" using True by auto
    show ?thesis
    proof (cases "f ?h")
      case False
      with "1.prems" h have "?h < k" by (meson not_le_imp_less)
      with "1.prems" False True "1.IH"(1) [OF True refl] show ?thesis
        by (simp add: search_loop.simps [of f i j] Let_def)
    next
      case t: True
      with "1.prems" h have "k \<le> ?h" by (meson not_le_imp_less)
      with "1.prems" t True h "1.IH"(2) [OF True refl] show ?thesis
        by (simp add: search_loop.simps [of f i j] Let_def)
    qed
  qed
qed

text \<open>
  On a list split into a part where the predicate fails and a part where it holds, the
  search finds the boundary.
\<close>

lemma sort_Search_append:
  assumes "\<And>x. x \<in> set xs \<Longrightarrow> \<not> P x" "\<And>y. y \<in> set ys \<Longrightarrow> P y"
  shows "sort_Search (length (xs @ ys)) (\<lambda>j. P ((xs @ ys) ! j)) = length xs"
  unfolding sort_Search_def
  by (rule search_loop_threshold) (use assms in \<open>auto simp: nth_append\<close>)

lemma sort_Search_sorted_wrt:
  assumes "sorted_wrt r xs" and "\<And>x y. r x y \<Longrightarrow> P x \<Longrightarrow> P y"
  shows "sort_Search (length xs) (\<lambda>j. P (xs ! j)) = length (takeWhile (\<lambda>x. \<not> P x) xs)"
proof -
  let ?a = "takeWhile (\<lambda>x. \<not> P x) xs" and ?b = "dropWhile (\<lambda>x. \<not> P x) xs"
  have xs: "xs = ?a @ ?b" by simp
  have b: "P y" if y: "y \<in> set ?b" for y
  proof (cases ?b)
    case Nil
    with y show ?thesis by simp
  next
    case (Cons z zs)
    then have "P z" by (metis hd_dropWhile list.discI list.sel(1))
    moreover have "sorted_wrt r (z # zs)"
      using assms(1) xs Cons by (metis sorted_wrt_append)
    ultimately show ?thesis using y Cons assms(2) by auto
  qed
  have "sort_Search (length (?a @ ?b)) (\<lambda>j. P ((?a @ ?b) ! j)) = length ?a"
    by (rule sort_Search_append) (auto dest: set_takeWhileD b)
  then show ?thesis by simp
qed

lemma slice_insert_sorted:
  "sort_Search (length xs) (\<lambda>j. P (xs ! j)) = length (takeWhile (\<lambda>x. \<not> P x) xs) \<Longrightarrow>
   slice_insert (sort_Search (length xs) (\<lambda>j. P (xs ! j))) y xs =
     takeWhile (\<lambda>x. \<not> P x) xs @ y # dropWhile (\<lambda>x. \<not> P x) xs"
  by (simp add: slice_insert_def takeWhile_eq_take [symmetric] dropWhile_eq_drop [symmetric])

end
