(* ===== verification/OMS_Types.thy ===== *)
theory OMS_Types
  imports OMS_Prelude
begin

text \<open>
  The data of \<open>internal/oms/types.go\<close>: sides, order types, orders, trades. Prices,
  quantities and identifiers are 64-bit integers; a time stamp is a reading of the clock in
  nanoseconds since the Unix epoch, which matching never inspects.
\<close>

type_synonym Price = int
type_synonym SeqID = int
type_synonym Time = int

datatype OrderSide = UnknownSide | Sell | Buy

datatype OrderType = UnknownType | Limit | Market

record Order =
  o_SeqID :: SeqID
  o_Symbol :: string
  o_Placer :: string
  o_Type :: OrderType
  o_Price :: Price
  o_Quantity :: int
  o_Side :: OrderSide
  o_TimeStamp :: Time

record Trade =
  t_SeqID :: SeqID
  t_Symbol :: string
  t_Price :: Price
  t_MakerSeqID :: SeqID
  t_TakerSeqID :: SeqID
  t_MakerAccID :: string
  t_TakerAccID :: string
  t_Quantity :: int
  t_TakerSide :: OrderSide
  t_TimeStamp :: Time

definition Buyer :: "Trade \<Rightarrow> string" where
  "Buyer t = (if t_TakerSide t = Buy then t_TakerAccID t else t_MakerAccID t)"

definition Seller :: "Trade \<Rightarrow> string" where
  "Seller t = (if t_TakerSide t = Buy then t_MakerAccID t else t_TakerAccID t)"

text \<open>
  The zero value \<open>Order{}\<close>, which a failed comma-ok read hands back. The zero \<open>time.Time\<close> is the
  first of January of year 1, far before the Unix epoch.
\<close>

definition zero_Time :: Time where
  "zero_Time = - 62135596800 * 10 ^ 9"

definition zero_Order :: Order where
  "zero_Order = \<lparr>o_SeqID = 0, o_Symbol = [], o_Placer = [], o_Type = UnknownType, o_Price = 0,
     o_Quantity = 0, o_Side = UnknownSide, o_TimeStamp = zero_Time\<rparr>"

text \<open>The opposite side of the book, which an incoming order is matched against.\<close>

definition opposite :: "OrderSide \<Rightarrow> OrderSide" where
  "opposite s = (case s of Buy \<Rightarrow> Sell | Sell \<Rightarrow> Buy | UnknownSide \<Rightarrow> UnknownSide)"

lemma opposite_simps [simp]: "opposite Buy = Sell" "opposite Sell = Buy" "opposite UnknownSide = UnknownSide"
  by (simp_all add: opposite_def)

section \<open>Errors\<close>

text \<open>
  The error values of package \<open>oms\<close>. Sentinels keep their names; an error the source builds
  on the spot with \<open>errors.New\<close> or \<open>fmt.Errorf\<close> is named after its message. Formatted
  details that only reach a log line are dropped.
\<close>

datatype ContextErr = Canceled | DeadlineExceeded

datatype Err =
    ErrUnknownSideOrType
  | ErrOrderNotFound
  | ErrNotOrderOwner SeqID
  | ErrUnknownAccount
  | ErrQuantityNotPositive
  | ErrDuplicateReservation
  | ErrInsufficientShares
  | ErrInsufficientFunds
  | ErrNegativeOperand
  | ErrNotionalOverflow
  | ErrLiveReservations nat
  | ErrCorruptWAL
  | ErrWALVersion
  | ErrWALDecode
  | ErrWALEncode
  | ErrWALPayloadTooLarge
  | ErrWALOffset
  | ErrIO
  | ErrSequencerClosed
  | ErrContext ContextErr
  | ErrInvalidSymbol
  | ErrTooManySymbols
  | ErrSegmentName

end
