(* ===== verification/OMS_Book.thy ===== *)
theory OMS_Book
  imports OMS_Types
begin

text \<open>
  The limit order book of \<open>internal/oms/book.go\<close>: price levels with their FIFO queues, the
  two price ladders, the back-reference index, matching, resting and cancelling.

  Queue elements have an identity: \<open>list.PushBack\<close> and \<open>list.PushFront\<close> allocate a new
  \<open>*list.Element\<close>, which the index keeps for \<open>Cancel\<close>. The model gives every element a
  number from an allocation counter of the book (\<open>nextElem\<close>), so that a reference denotes
  one element and not one order identifier. A \<open>*priceLevel\<close> is denoted by the price it is
  stored under: \<open>levels\<close> is the store of level objects. A panic of the source (a nil level, a
  slice out of range) is \<open>None\<close>; \<open>time.Now()\<close> is the parameter \<open>now\<close>, the clock reading
  taken when the trade with the given number prints.
\<close>

section \<open>Price levels\<close>

record priceLevel =
  pl_price :: Price
  pl_side :: OrderSide
  pl_orders :: "(nat \<times> Order) list"

record OrderRef =
  ref_level :: Price
  ref_element :: nat

definition new_level :: "OrderSide \<Rightarrow> Price \<Rightarrow> priceLevel" where
  "new_level s p = \<lparr>pl_price = p, pl_side = s, pl_orders = []\<rparr>"

text \<open>\<open>push\<close> and \<open>pushFront\<close> take the identity of the element they allocate.\<close>

definition push :: "nat \<Rightarrow> Order \<Rightarrow> priceLevel \<Rightarrow> priceLevel" where
  "push e x l = l\<lparr>pl_orders := pl_orders l @ [(e, x)]\<rparr>"

definition pushFront :: "nat \<Rightarrow> Order \<Rightarrow> priceLevel \<Rightarrow> priceLevel" where
  "pushFront e x l = l\<lparr>pl_orders := (e, x) # pl_orders l\<rparr>"

definition level_front :: "priceLevel \<Rightarrow> Order \<times> bool" where
  "level_front l = (case pl_orders l of [] \<Rightarrow> (zero_Order, False) | (e, x) # _ \<Rightarrow> (x, True))"

definition popFront :: "priceLevel \<Rightarrow> Order \<times> bool \<times> priceLevel" where
  "popFront l = (case pl_orders l of
     [] \<Rightarrow> (zero_Order, False, l)
   | (e, x) # rest \<Rightarrow> (x, True, l\<lparr>pl_orders := rest\<rparr>))"

text \<open>\<open>l.orders.Remove(e)\<close>.\<close>

definition remove_element :: "nat \<Rightarrow> priceLevel \<Rightarrow> priceLevel" where
  "remove_element e l = l\<lparr>pl_orders := filter (\<lambda>(e', _). e' \<noteq> e) (pl_orders l)\<rparr>"

definition levelQuantity :: "priceLevel \<Rightarrow> int" where
  "levelQuantity l = fold (\<lambda>(_, x) total. add64 total (o_Quantity x)) (pl_orders l) 0"

section \<open>The book\<close>

record Book =
  bids :: "Price list"
  asks :: "Price list"
  index :: "(SeqID, OrderRef) gomap"
  levels :: "(Price, priceLevel) gomap"
  nextTradeID :: SeqID
  maxOrderID :: SeqID
  nextElem :: nat

definition NewBook :: Book where
  "NewBook = \<lparr>bids = [], asks = [], index = [], levels = [], nextTradeID = 0, maxOrderID = 0,
     nextElem = 0\<rparr>"

definition ladder_index :: "Book \<Rightarrow> OrderSide \<Rightarrow> Price \<Rightarrow> nat" where
  "ladder_index b s p =
     (if s = Buy then sort_Search (length (bids b)) (\<lambda>j. bids b ! j \<le> p)
      else sort_Search (length (asks b)) (\<lambda>j. asks b ! j \<ge> p))"

definition getOrCreateLevel :: "Book \<Rightarrow> OrderSide \<Rightarrow> Price \<Rightarrow> Book \<times> priceLevel" where
  "getOrCreateLevel b s p = (case map_of (levels b) p of
     Some lvl \<Rightarrow> (b, lvl)
   | None \<Rightarrow>
       let i = ladder_index b s p;
           lvl = new_level s p;
           b1 = (if s = Buy then b\<lparr>bids := slice_insert i p (bids b)\<rparr>
                 else b\<lparr>asks := slice_insert i p (asks b)\<rparr>)
       in (b1\<lparr>levels := gput p lvl (levels b1)\<rparr>, lvl))"

text \<open>The boolean result of \<open>removeLevel\<close> is ignored by every caller.\<close>

definition removeLevel :: "Book \<Rightarrow> OrderSide \<Rightarrow> Price \<Rightarrow> (Book \<times> bool) option" where
  "removeLevel b s p = (case map_of (levels b) p of
     None \<Rightarrow> Some (b, False)
   | Some _ \<Rightarrow>
       let i = ladder_index b s p
       in if s = Buy then
            do { l \<leftarrow> slice_remove i (bids b);
                 Some (b\<lparr>bids := l, levels := gdel p (levels b)\<rparr>, True) }
          else
            do { l \<leftarrow> slice_remove i (asks b);
                 Some (b\<lparr>asks := l, levels := gdel p (levels b)\<rparr>, True) })"

definition BestBid :: "Book \<Rightarrow> Price option" where
  "BestBid b = (case bids b of [] \<Rightarrow> None | p # _ \<Rightarrow> Some p)"

definition BestAsk :: "Book \<Rightarrow> Price option" where
  "BestAsk b = (case asks b of [] \<Rightarrow> None | p # _ \<Rightarrow> Some p)"

definition MaxOrderID :: "Book \<Rightarrow> SeqID" where
  "MaxOrderID b = maxOrderID b"

definition RestingCount :: "Book \<Rightarrow> nat" where
  "RestingCount b = length (index b)"

text \<open>Dereferencing \<open>ref.element\<close>: the order the element holds.\<close>

definition deref :: "Book \<Rightarrow> OrderRef \<Rightarrow> Order option" where
  "deref b r = do { lvl \<leftarrow> map_of (levels b) (ref_level r); map_of (pl_orders lvl) (ref_element r) }"

definition RestingOrders :: "Book \<Rightarrow> Order list" where
  "RestingOrders b = List.map_filter (\<lambda>(_, r). deref b r) (index b)"

record depthLevel =
  d_Price :: Price
  d_Quantity :: int

text \<open>
  \<open>Snapshot\<close> before JSON encoding: the aggregated bid and ask rows. A ladder price without a
  level would be a nil dereference.
\<close>

fun depth :: "Book \<Rightarrow> Price list \<Rightarrow> depthLevel list option" where
  "depth b [] = Some []"
| "depth b (p # ps) = do {
     lvl \<leftarrow> map_of (levels b) p;
     ds \<leftarrow> depth b ps;
     Some (\<lparr>d_Price = p, d_Quantity = levelQuantity lvl\<rparr> # ds) }"

type_synonym BookState = "depthLevel list \<times> depthLevel list"

definition Snapshot :: "Book \<Rightarrow> BookState option" where
  "Snapshot b = do { bs \<leftarrow> depth b (bids b); as \<leftarrow> depth b (asks b); Some (bs, as) }"

section \<open>Matching\<close>

definition selfMatch :: "Order \<Rightarrow> Order \<Rightarrow> bool" where
  "selfMatch taker maker \<longleftrightarrow> o_Placer taker \<noteq> [] \<and> o_Placer taker = o_Placer maker"

record MatchResult =
  mr_Trades :: "Trade list"
  mr_SelfPrevented :: "SeqID list"
  mr_RestingQuantity :: int

definition zero_MatchResult :: MatchResult where
  "zero_MatchResult = \<lparr>mr_Trades = [], mr_SelfPrevented = [], mr_RestingQuantity = 0\<rparr>"

text \<open>Writing a level that was changed through its pointer back to the store.\<close>

definition put_level :: "Price \<Rightarrow> priceLevel \<Rightarrow> Book \<Rightarrow> Book" where
  "put_level p lvl b = b\<lparr>levels := gput p lvl (levels b)\<rparr>"

definition deindex :: "SeqID \<Rightarrow> Book \<Rightarrow> Book" where
  "deindex i b = b\<lparr>index := gdel i (index b)\<rparr>"

text \<open>\<open>if lvl.orders.Len() == 0 { b.removeLevel(side, price) }\<close>.\<close>

definition drop_if_empty :: "OrderSide \<Rightarrow> Price \<Rightarrow> priceLevel \<Rightarrow> Book \<Rightarrow> Book option" where
  "drop_if_empty s p lvl b =
     (if pl_orders lvl = [] then map_option fst (removeLevel b s p) else Some b)"

text \<open>The trade printed between a taker of the given side and the maker at the front.\<close>

definition mk_trade :: "(SeqID \<Rightarrow> Time) \<Rightarrow> SeqID \<Rightarrow> OrderSide \<Rightarrow> Order \<Rightarrow> Order \<Rightarrow> Price \<Rightarrow> int \<Rightarrow> Trade" where
  "mk_trade now tid s taker maker p fill = \<lparr>
     t_SeqID = tid, t_Symbol = o_Symbol taker, t_Price = p,
     t_MakerSeqID = o_SeqID maker, t_TakerSeqID = o_SeqID taker,
     t_MakerAccID = o_Placer maker, t_TakerAccID = o_Placer taker,
     t_Quantity = fill, t_TakerSide = s, t_TimeStamp = now tid\<rparr>"

text \<open>
  What one iteration does to the book once the front maker has been popped and de-indexed and
  the fill subtracted: an unfinished maker goes back to the front of its level under a new
  element and a new index entry.
\<close>

definition restore_maker :: "Price \<Rightarrow> Order \<Rightarrow> priceLevel \<Rightarrow> Book \<Rightarrow> Book \<times> priceLevel" where
  "restore_maker p maker lvl b =
     (if o_Quantity maker > 0 then
        let e = nextElem b; lvl' = pushFront e maker lvl
        in (b\<lparr>levels := gput p lvl' (levels b),
              index := gput (o_SeqID maker) \<lparr>ref_level = p, ref_element = e\<rparr> (index b),
              nextElem := Suc e\<rparr>, lvl')
      else (b, lvl))"

text \<open>
  Termination of the two loops, for any book whatever: an iteration takes an element out of
  the store, or puts a partly filled maker back and leaves the taker with nothing, or (for a
  level with an empty queue) removes the level.
\<close>

definition store_size :: "Book \<Rightarrow> nat" where
  "store_size b = sum_list (map (\<lambda>(_, l). Suc (length (pl_orders l))) (levels b))"

definition loop_measure :: "Book \<Rightarrow> Order \<Rightarrow> nat" where
  "loop_measure b taker = store_size b + (if o_Quantity taker > 0 then 1 else 0)"

lemma sum_gput:
  assumes "map_of m k = Some v"
  shows "sum_list (map (\<lambda>(_, l). f l) (gput k w m)) + f v = sum_list (map (\<lambda>(_, l). f l) m) + (f w :: nat)"
  using assms by (induction m) (auto split: if_splits)

lemma sum_gdel:
  assumes "map_of m k = Some v"
  shows "sum_list (map (\<lambda>(_, l). f l) (gdel k m)) + f v \<le> sum_list (map (\<lambda>(_, l). f l) m :: nat list)"
  using assms
proof (induction m)
  case (Cons kv m)
  have "sum_list (map (\<lambda>(_, l). f l) (gdel k m)) \<le> sum_list (map (\<lambda>(_, l). f l) m :: nat list)"
    by (induction m) (auto simp: AList.delete_eq)
  with Cons show ?case by (auto simp: AList.delete_eq split: if_splits)
qed simp

lemma store_size_put_level:
  "map_of (levels b) p = Some lvl \<Longrightarrow>
   store_size (put_level p l b) + length (pl_orders lvl) = store_size b + length (pl_orders l)"
  using sum_gput [of "levels b" p lvl "\<lambda>l. Suc (length (pl_orders l))" l]
  by (simp add: store_size_def put_level_def)

text \<open>
  One iteration below the price test, the same text in both loops: \<open>s\<close> is the taker's side,
  \<open>p\<close> the best opposite price. The result is the book, the taker with its remaining quantity,
  and what the iteration appends to the trades and to the self-prevented identifiers.
\<close>

definition match_front ::
  "(SeqID \<Rightarrow> Time) \<Rightarrow> OrderSide \<Rightarrow> Price \<Rightarrow> Book \<Rightarrow> Order
     \<Rightarrow> (Book \<times> Order \<times> Trade list \<times> SeqID list) option" where
  "match_front now s p b taker = do {
     lvl \<leftarrow> map_of (levels b) p;
     let (maker, _, lvl1) = popFront lvl;
     let b1 = deindex (o_SeqID maker) (put_level p lvl1 b);
     if selfMatch taker maker then do {
       b2 \<leftarrow> drop_if_empty (opposite s) p lvl1 b1;
       Some (b2, taker, [], [o_SeqID maker])
     } else do {
       let fill = min (o_Quantity taker) (o_Quantity maker);
       let tid = add64 (nextTradeID b1) 1;
       let b2 = b1\<lparr>nextTradeID := tid\<rparr>;
       let taker' = taker\<lparr>o_Quantity := sub64 (o_Quantity taker) fill\<rparr>;
       let maker' = maker\<lparr>o_Quantity := sub64 (o_Quantity maker) fill\<rparr>;
       let (b3, lvl2) = restore_maker p maker' lvl1 b2;
       b4 \<leftarrow> drop_if_empty (opposite s) p lvl2 b3;
       Some (b4, taker', [mk_trade now tid s taker maker p fill], [])
     } }"

lemma store_size_frame [simp]:
  "store_size (b\<lparr>nextTradeID := t\<rparr>) = store_size b" "store_size (b\<lparr>index := ix\<rparr>) = store_size b"
  by (simp_all add: store_size_def)

lemma removeLevel_size:
  assumes "removeLevel b s p = Some (b', r)" "map_of (levels b) p = Some lvl"
  shows "store_size b' < store_size b"
  using assms sum_gdel [of "levels b" p lvl "\<lambda>l. Suc (length (pl_orders l))"]
  by (auto simp: removeLevel_def store_size_def Let_def bind_eq_Some_conv split: if_splits)

lemma drop_if_empty_size:
  assumes "drop_if_empty s p lvl b = Some b'" "map_of (levels b) p = Some lvl"
  shows "store_size b' \<le> store_size b" "pl_orders lvl = [] \<Longrightarrow> store_size b' < store_size b"
  using assms
  by (auto simp: drop_if_empty_def intro: less_imp_le dest: removeLevel_size split: if_splits)

lemma popFront_cases:
  obtains "pl_orders lvl = []" "popFront lvl = (zero_Order, False, lvl)"
  | e x rest where "pl_orders lvl = (e, x) # rest" "popFront lvl = (x, True, lvl\<lparr>pl_orders := rest\<rparr>)"
  by (cases "pl_orders lvl") (auto simp: popFront_def)

lemma store_size_deindex [simp]: "store_size (deindex i b) = store_size b"
  by (simp add: deindex_def)

lemma levels_deindex [simp]: "levels (deindex i b) = levels b"
  by (simp add: deindex_def)

lemma levels_put_level [simp]: "levels (put_level p l b) = gput p l (levels b)"
  by (simp add: put_level_def)

lemma restore_maker_size:
  assumes "restore_maker p m lvl b = (b', lvl')" "map_of (levels b) p = Some lvl"
  shows "map_of (levels b') p = Some lvl'"
    and "store_size b' = store_size b + (if o_Quantity m > 0 then 1 else 0)"
  using assms sum_gput [of "levels b" p lvl "\<lambda>l. Suc (length (pl_orders l))" "pushFront (nextElem b) m lvl"]
  by (auto simp: restore_maker_def Let_def store_size_def pushFront_def split: if_splits)

text \<open>The measure of both loops goes down in every iteration.\<close>

lemma match_front_measure:
  assumes step: "match_front now s p b taker = Some (b', taker', ts, ids)"
    and q: "o_Quantity taker > 0"
  shows "loop_measure b' taker' < loop_measure b taker"
proof -
  from step obtain lvl where lvl: "map_of (levels b) p = Some lvl"
    by (auto simp: match_front_def bind_eq_Some_conv)
  obtain maker ok lvl1 where pop: "popFront lvl = (maker, ok, lvl1)"
    by (cases "popFront lvl")
  define b1 where "b1 = deindex (o_SeqID maker) (put_level p lvl1 b)"
  have lv1: "map_of (levels b1) p = Some lvl1"
    by (simp add: b1_def)
  have b1: "store_size b1 + length (pl_orders lvl) = store_size b + length (pl_orders lvl1)"
    using store_size_put_level [OF lvl, of lvl1] by (simp add: b1_def)
  show ?thesis
  proof (cases "selfMatch taker maker")
    case True
    with step lvl pop have "drop_if_empty (opposite s) p lvl1 b1 = Some b'" "taker' = taker"
      by (auto simp: match_front_def bind_eq_Some_conv b1_def Let_def)
    with drop_if_empty_size [OF _ lv1] have "store_size b' \<le> store_size b1"
      "pl_orders lvl1 = [] \<Longrightarrow> store_size b' < store_size b1" by auto
    with b1 \<open>taker' = taker\<close> show ?thesis
      by (cases rule: popFront_cases [of lvl]) (use pop in \<open>auto simp: loop_measure_def\<close>)
  next
    case False
    let ?fill = "min (o_Quantity taker) (o_Quantity maker)"
    let ?b2 = "b1\<lparr>nextTradeID := add64 (nextTradeID b1) 1\<rparr>"
    let ?m = "maker\<lparr>o_Quantity := sub64 (o_Quantity maker) ?fill\<rparr>"
    obtain b3 lvl2 where r: "restore_maker p ?m lvl1 ?b2 = (b3, lvl2)"
      by (cases "restore_maker p ?m lvl1 ?b2")
    from False step lvl pop r have d: "drop_if_empty (opposite s) p lvl2 b3 = Some b'"
      and t: "taker' = taker\<lparr>o_Quantity := sub64 (o_Quantity taker) ?fill\<rparr>"
      by (auto simp: match_front_def bind_eq_Some_conv b1_def [symmetric] Let_def)
    from lv1 have "map_of (levels ?b2) p = Some lvl1" by simp
    note r' = restore_maker_size [OF r this]
    note d' = drop_if_empty_size [OF d r'(1)]
    show ?thesis
    proof (cases "o_Quantity ?m > 0")
      case True
      then have "?fill = o_Quantity taker" by (auto simp: min_def split: if_splits)
      then have "o_Quantity taker' = 0" using t by simp
      with True d'(1) r'(2) b1 q show ?thesis
        by (cases rule: popFront_cases [of lvl])
          (use pop in \<open>auto simp: loop_measure_def zero_Order_def sub64_def\<close>)
    next
      case False
      then have "lvl2 = lvl1" using r by (auto simp: restore_maker_def)
      with False d' r'(2) b1 q show ?thesis
        by (cases rule: popFront_cases [of lvl]) (use pop in \<open>auto simp: loop_measure_def\<close>)
    qed
  qed
qed

text \<open>
  The two matching loops. \<open>trades\<close> and \<open>selfPrevented\<close> are the named results the source
  appends to; the fourth component of the result is the remainder of the taker.
\<close>

function matchAgainstAsks ::
  "(SeqID \<Rightarrow> Time) \<Rightarrow> Book \<Rightarrow> Order \<Rightarrow> Trade list \<Rightarrow> SeqID list
     \<Rightarrow> (Book \<times> Trade list \<times> SeqID list \<times> Order) option" where
  "matchAgainstAsks now b taker trades selfPrevented =
     (if o_Quantity taker > 0 then
        (case BestAsk b of
          None \<Rightarrow> Some (b, trades, selfPrevented, taker)
        | Some askingPrice \<Rightarrow>
            if o_Type taker = Limit \<and> askingPrice > o_Price taker
            then Some (b, trades, selfPrevented, taker)
            else (case match_front now Buy askingPrice b taker of
                   None \<Rightarrow> None
                 | Some (b', taker', ts, ids) \<Rightarrow>
                     matchAgainstAsks now b' taker' (trades @ ts) (selfPrevented @ ids)))
      else Some (b, trades, selfPrevented, taker))"
  by pat_completeness auto
termination
  by (relation "measure (\<lambda>(now, b, taker, trades, ids). loop_measure b taker)")
    (auto dest: match_front_measure)

function matchAgainstBids ::
  "(SeqID \<Rightarrow> Time) \<Rightarrow> Book \<Rightarrow> Order \<Rightarrow> Trade list \<Rightarrow> SeqID list
     \<Rightarrow> (Book \<times> Trade list \<times> SeqID list \<times> Order) option" where
  "matchAgainstBids now b taker trades selfPrevented =
     (if o_Quantity taker > 0 then
        (case BestBid b of
          None \<Rightarrow> Some (b, trades, selfPrevented, taker)
        | Some biddingPrice \<Rightarrow>
            if o_Type taker = Limit \<and> biddingPrice < o_Price taker
            then Some (b, trades, selfPrevented, taker)
            else (case match_front now Sell biddingPrice b taker of
                   None \<Rightarrow> None
                 | Some (b', taker', ts, ids) \<Rightarrow>
                     matchAgainstBids now b' taker' (trades @ ts) (selfPrevented @ ids)))
      else Some (b, trades, selfPrevented, taker))"
  by pat_completeness auto
termination
  by (relation "measure (\<lambda>(now, b, taker, trades, ids). loop_measure b taker)")
    (auto dest: match_front_measure)

declare matchAgainstAsks.simps [simp del] matchAgainstBids.simps [simp del]

section \<open>Submit and cancel\<close>

text \<open>Resting the remainder of a LIMIT order at the back of its level.\<close>

definition rest_order :: "Book \<Rightarrow> Order \<Rightarrow> Book" where
  "rest_order b x =
     (let (b1, lvl) = getOrCreateLevel b (o_Side x) (o_Price x); e = nextElem b1
      in b1\<lparr>levels := gput (o_Price x) (push e x lvl) (levels b1),
            index := gput (o_SeqID x) \<lparr>ref_level = o_Price x, ref_element = e\<rparr> (index b1),
            nextElem := Suc e\<rparr>)"

definition note_order_id :: "Book \<Rightarrow> Order \<Rightarrow> Book" where
  "note_order_id b x = (if o_SeqID x > maxOrderID b then b\<lparr>maxOrderID := o_SeqID x\<rparr> else b)"

definition SubmitOrder ::
  "(SeqID \<Rightarrow> Time) \<Rightarrow> Book \<Rightarrow> Order \<Rightarrow> (Book \<times> MatchResult \<times> Err option) option" where
  "SubmitOrder now b x =
     (if o_Side x = UnknownSide \<or> o_Type x = UnknownType
      then Some (b, zero_MatchResult, Some ErrUnknownSideOrType)
      else do {
        let b0 = note_order_id b x;
        (b1, trades, selfPrevented, x') \<leftarrow>
          (if o_Side x = Buy then matchAgainstAsks now b0 x [] []
           else matchAgainstBids now b0 x [] []);
        if o_Type x' = Limit \<and> o_Quantity x' > 0
        then Some (rest_order b1 x',
               \<lparr>mr_Trades = trades, mr_SelfPrevented = selfPrevented,
                mr_RestingQuantity = o_Quantity x'\<rparr>, None)
        else Some (b1,
               \<lparr>mr_Trades = trades, mr_SelfPrevented = selfPrevented,
                mr_RestingQuantity = 0\<rparr>, None)
      })"

definition Submit ::
  "(SeqID \<Rightarrow> Time) \<Rightarrow> Book \<Rightarrow> Order \<Rightarrow> (Book \<times> Trade list \<times> Err option) option" where
  "Submit now b x = map_option (\<lambda>(b', res, err). (b', mr_Trades res, err)) (SubmitOrder now b x)"

definition CancelOwned :: "Book \<Rightarrow> SeqID \<Rightarrow> string \<Rightarrow> (Book \<times> Err option) option" where
  "CancelOwned b orderID by = (case map_of (index b) orderID of
     None \<Rightarrow> Some (b, Some ErrOrderNotFound)
   | Some ref \<Rightarrow> do {
       x \<leftarrow> deref b ref;
       if by \<noteq> [] \<and> o_Placer x \<noteq> by then Some (b, Some (ErrNotOrderOwner orderID))
       else do {
         lvl \<leftarrow> map_of (levels b) (ref_level ref);
         let lvl' = remove_element (ref_element ref) lvl;
         let b1 = deindex orderID (put_level (ref_level ref) lvl' b);
         b2 \<leftarrow> drop_if_empty (pl_side lvl') (pl_price lvl') lvl' b1;
         Some (b2, None)
       } })"

definition Cancel :: "Book \<Rightarrow> SeqID \<Rightarrow> (Book \<times> Err option) option" where
  "Cancel b orderID = CancelOwned b orderID []"

end
