(* ===== verification/OMS_Book_Inv.thy ===== *)
theory OMS_Book_Inv
  imports OMS_Book
begin

text \<open>
  The representation invariant of the book and its preservation by every operation. The
  ladders are sorted and uncrossed; the store of levels holds exactly the ladder prices, each
  with a non-empty queue of LIMIT orders of its price and side; the index holds exactly the
  resting orders, each with a reference to its own element.
\<close>

section \<open>Both sides at once\<close>

definition ladder :: "Book \<Rightarrow> OrderSide \<Rightarrow> Price list" where
  "ladder b s = (if s = Buy then bids b else asks b)"

definition set_ladder :: "OrderSide \<Rightarrow> Price list \<Rightarrow> Book \<Rightarrow> Book" where
  "set_ladder s l b = (if s = Buy then b\<lparr>bids := l\<rparr> else b\<lparr>asks := l\<rparr>)"

text \<open>\<open>better s p q\<close>: on side \<open>s\<close>, price \<open>p\<close> has strict priority over \<open>q\<close>.\<close>

definition better :: "OrderSide \<Rightarrow> Price \<Rightarrow> Price \<Rightarrow> bool" where
  "better s p q \<longleftrightarrow> (if s = Buy then p > q else p < q)"

lemma better_irrefl [simp]: "\<not> better s p p"
  by (simp add: better_def)

lemma better_trans: "better s p q \<Longrightarrow> better s q r \<Longrightarrow> better s p r"
  by (auto simp: better_def split: if_splits)

lemma better_linear: "better s p q \<or> p = q \<or> better s q p"
  by (auto simp: better_def)

lemma better_asym: "better s p q \<Longrightarrow> \<not> better s q p"
  by (auto simp: better_def split: if_splits)

lemma ladder_set_ladder [simp]:
  "ladder (set_ladder s l b) s = l"
  "s' \<noteq> s \<Longrightarrow> s \<in> {Buy, Sell} \<Longrightarrow> s' \<in> {Buy, Sell} \<Longrightarrow> ladder (set_ladder s l b) s' = ladder b s'"
  by (auto simp: ladder_def set_ladder_def)

lemma set_ladder_frame [simp]:
  "levels (set_ladder s l b) = levels b" "index (set_ladder s l b) = index b"
  "nextElem (set_ladder s l b) = nextElem b" "maxOrderID (set_ladder s l b) = maxOrderID b"
  "nextTradeID (set_ladder s l b) = nextTradeID b"
  by (simp_all add: set_ladder_def)

lemma ladder_frame [simp]:
  "ladder (b\<lparr>levels := x\<rparr>) s = ladder b s" "ladder (b\<lparr>index := ix\<rparr>) s = ladder b s"
  "ladder (b\<lparr>nextTradeID := t\<rparr>) s = ladder b s" "ladder (b\<lparr>nextElem := e\<rparr>) s = ladder b s"
  "ladder (b\<lparr>maxOrderID := i\<rparr>) s = ladder b s"
  by (simp_all add: ladder_def)

lemma sorted_better_distinct: "sorted_wrt (better s) l \<Longrightarrow> distinct l"
  by (induction l) auto

section \<open>The invariant\<close>

definition wf_resting :: "OrderSide \<Rightarrow> SeqID \<Rightarrow> Price \<Rightarrow> Order \<Rightarrow> bool" where
  "wf_resting s mx p x \<longleftrightarrow> o_Type x = Limit \<and> o_Side x = s \<and> o_Price x = p \<and>
     0 < o_Quantity x \<and> is_i64 (o_Quantity x) \<and> o_SeqID x \<le> mx"

definition wf_level :: "OrderSide \<Rightarrow> nat \<Rightarrow> SeqID \<Rightarrow> Price \<Rightarrow> priceLevel \<Rightarrow> bool" where
  "wf_level s ne mx p lvl \<longleftrightarrow> pl_price lvl = p \<and> pl_side lvl = s \<and> pl_orders lvl \<noteq> [] \<and>
     distinct (map fst (pl_orders lvl)) \<and>
     (\<forall>(e, x) \<in> set (pl_orders lvl). e < ne \<and> wf_resting s mx p x)"

definition side_at :: "Book \<Rightarrow> Price \<Rightarrow> OrderSide" where
  "side_at b p = (if p \<in> set (bids b) then Buy else Sell)"

definition level_entries :: "Price \<Rightarrow> priceLevel \<Rightarrow> (SeqID \<times> OrderRef) list" where
  "level_entries p lvl =
     map (\<lambda>(e, x). (o_SeqID x, \<lparr>ref_level = p, ref_element = e\<rparr>)) (pl_orders lvl)"

definition index_entries :: "Book \<Rightarrow> (SeqID \<times> OrderRef) list" where
  "index_entries b = concat (map (\<lambda>(p, lvl). level_entries p lvl) (levels b))"

definition wf_ladders :: "Book \<Rightarrow> bool" where
  "wf_ladders b \<longleftrightarrow> sorted_wrt (better Buy) (bids b) \<and> sorted_wrt (better Sell) (asks b) \<and>
     (\<forall>x \<in> set (bids b). \<forall>y \<in> set (asks b). x < y)"

definition wf_levels :: "Book \<Rightarrow> bool" where
  "wf_levels b \<longleftrightarrow> gwf (levels b) \<and> fst ` set (levels b) = set (bids b) \<union> set (asks b) \<and>
     (\<forall>(p, lvl) \<in> set (levels b). wf_level (side_at b p) (nextElem b) (maxOrderID b) p lvl)"

definition wf_index :: "Book \<Rightarrow> bool" where
  "wf_index b \<longleftrightarrow> gwf (index b) \<and> set (index b) = set (index_entries b)"

definition wf_book :: "Book \<Rightarrow> bool" where
  "wf_book b \<longleftrightarrow> wf_ladders b \<and> wf_levels b \<and> wf_index b"

lemma wf_NewBook [simp]: "wf_book NewBook"
  by (simp add: wf_book_def wf_ladders_def wf_levels_def wf_index_def index_entries_def NewBook_def)

lemma side_at_ladder:
  assumes "wf_ladders b" "s \<in> {Buy, Sell}" "p \<in> set (ladder b s)"
  shows "side_at b p = s"
  using assms by (force simp: wf_ladders_def ladder_def side_at_def split: if_splits)

lemma ladder_union: "set (bids b) \<union> set (asks b) = set (ladder b Buy) \<union> set (ladder b Sell)"
  by (simp add: ladder_def)

lemma wf_ladder_sorted:
  "wf_ladders b \<Longrightarrow> s \<in> {Buy, Sell} \<Longrightarrow> sorted_wrt (better s) (ladder b s)"
  by (auto simp: wf_ladders_def ladder_def)

lemma in_index_entries:
  "(i, r) \<in> set (index_entries b) \<longleftrightarrow>
     (\<exists>p lvl e x. (p, lvl) \<in> set (levels b) \<and> (e, x) \<in> set (pl_orders lvl) \<and>
        i = o_SeqID x \<and> r = \<lparr>ref_level = p, ref_element = e\<rparr>)"
  by (force simp: index_entries_def level_entries_def)

lemma index_entriesI:
  "(p, lvl) \<in> set (levels b) \<Longrightarrow> (e, x) \<in> set (pl_orders lvl) \<Longrightarrow>
   (o_SeqID x, \<lparr>ref_level = p, ref_element = e\<rparr>) \<in> set (index_entries b)"
  by (auto simp: in_index_entries)

text \<open>An order identifier names one element of the book.\<close>

lemma wf_element_unique:
  assumes "wf_book b" "(p, lvl) \<in> set (levels b)" "(e, x) \<in> set (pl_orders lvl)"
    "(p', lvl') \<in> set (levels b)" "(e', x') \<in> set (pl_orders lvl')" "o_SeqID x = o_SeqID x'"
  shows "p = p' \<and> lvl = lvl' \<and> e = e' \<and> x = x'"
proof -
  let ?r = "\<lparr>ref_level = p, ref_element = e\<rparr>" and ?r' = "\<lparr>ref_level = p', ref_element = e'\<rparr>"
  have "(o_SeqID x, ?r) \<in> set (index b)" "(o_SeqID x, ?r') \<in> set (index b)"
    using assms index_entriesI [of p lvl b e x] index_entriesI [of p' lvl' b e' x']
    by (simp_all add: wf_book_def wf_index_def)
  moreover have g: "gwf (index b)" "gwf (levels b)"
    using assms(1) by (auto simp: wf_book_def wf_index_def wf_levels_def)
  ultimately have "?r = ?r'" by (metis gwf_unique)
  then have pe: "p = p'" "e = e'" by auto
  with assms g have l: "lvl = lvl'" by (blast intro: gwf_unique)
  have "distinct (map fst (pl_orders lvl))"
    using assms(1,2) by (auto simp: wf_book_def wf_levels_def wf_level_def)
  with assms(3,5) pe l have "x = x'" by (blast intro: gwf_unique)
  with pe l show ?thesis by simp
qed

lemma wf_level_at:
  assumes "wf_book b" "map_of (levels b) p = Some lvl"
  shows "wf_level (side_at b p) (nextElem b) (maxOrderID b) p lvl" "(p, lvl) \<in> set (levels b)"
    "p \<in> set (ladder b (side_at b p))"
  using assms map_of_SomeD [OF assms(2)]
  by (force simp: wf_book_def wf_levels_def ladder_def side_at_def)+

lemma wf_level_exists:
  assumes "wf_book b" "s \<in> {Buy, Sell}" "p \<in> set (ladder b s)"
  obtains lvl where "map_of (levels b) p = Some lvl"
proof -
  have "p \<in> fst ` set (levels b)"
    using assms by (auto simp: wf_book_def wf_levels_def ladder_def split: if_splits)
  then show ?thesis using that by (metis not_Some_eq map_of_eq_None_iff)
qed

section \<open>Ladders\<close>

lemma ladder_index_eq:
  assumes "sorted_wrt (better s) (ladder b s)" "s \<in> {Buy, Sell}"
  shows "ladder_index b s p = length (takeWhile (\<lambda>q. better s q p) (ladder b s))"
proof -
  have "sort_Search (length (bids b)) (\<lambda>j. bids b ! j \<le> p) =
      length (takeWhile (\<lambda>q. \<not> q \<le> p) (bids b))" if "s = Buy"
    by (rule sort_Search_sorted_wrt [where r = "better Buy"])
      (use assms that in \<open>auto simp: ladder_def better_def\<close>)
  moreover have "sort_Search (length (asks b)) (\<lambda>j. asks b ! j \<ge> p) =
      length (takeWhile (\<lambda>q. \<not> q \<ge> p) (asks b))" if "s = Sell"
    by (rule sort_Search_sorted_wrt [where r = "better Sell"])
      (use assms that in \<open>auto simp: ladder_def better_def\<close>)
  ultimately show ?thesis
    using assms(2) by (auto simp: ladder_index_def ladder_def better_def not_le)
qed

lemma sorted_better_split:
  assumes "sorted_wrt (better s) l" "p \<in> set l"
  obtains us vs where "l = us @ p # vs" "takeWhile (\<lambda>q. better s q p) l = us"
    "filter (\<lambda>q. q \<noteq> p) l = us @ vs"
proof -
  obtain us vs where l: "l = us @ p # vs" using assms(2) by (meson split_list)
  have us: "\<forall>q \<in> set us. better s q p" and d: "distinct l"
    using assms(1) l sorted_better_distinct [OF assms(1)] by (auto simp: sorted_wrt_append)
  then have "takeWhile (\<lambda>q. better s q p) l = us"
    using l by (simp add: takeWhile_append)
  moreover have "filter (\<lambda>q. q \<noteq> p) l = us @ vs"
  proof -
    have "filter (\<lambda>q. q \<noteq> p) us = us" "filter (\<lambda>q. q \<noteq> p) vs = vs"
      using d l by (auto intro!: filter_True)
    then show ?thesis using l by simp
  qed
  ultimately show ?thesis using that l by blast
qed

lemma removeLevel_eq:
  assumes "wf_ladders b" "s \<in> {Buy, Sell}" "p \<in> set (ladder b s)" "map_of (levels b) p = Some l"
  shows "removeLevel b s p =
    Some (set_ladder s (filter (\<lambda>q. q \<noteq> p) (ladder b s)) (b\<lparr>levels := gdel p (levels b)\<rparr>), True)"
proof -
  have sorted: "sorted_wrt (better s) (ladder b s)"
    using assms by (simp add: wf_ladder_sorted)
  then obtain us vs where l: "ladder b s = us @ p # vs" "takeWhile (\<lambda>q. better s q p) (ladder b s) = us"
    "filter (\<lambda>q. q \<noteq> p) (ladder b s) = us @ vs"
    using assms(3) by (rule sorted_better_split)
  have "slice_remove (ladder_index b s p) (ladder b s) = Some (us @ vs)"
    using l by (simp add: ladder_index_eq [OF sorted assms(2)] slice_remove_def)
  with assms(2,4) l(3) show ?thesis
    by (auto simp: removeLevel_def Let_def ladder_def set_ladder_def)
qed

text \<open>
  Giving level \<open>p\<close> the queue \<open>os\<close>: an empty queue takes the price off its ladder.
\<close>

definition set_queue :: "OrderSide \<Rightarrow> Price \<Rightarrow> priceLevel \<Rightarrow> (nat \<times> Order) list \<Rightarrow> Book \<Rightarrow> Book" where
  "set_queue s p lvl os b =
     (if os = [] then set_ladder s (filter (\<lambda>q. q \<noteq> p) (ladder b s)) (b\<lparr>levels := gdel p (levels b)\<rparr>)
      else b\<lparr>levels := gput p (lvl\<lparr>pl_orders := os\<rparr>) (levels b)\<rparr>)"

lemma set_queue_frame [simp]:
  "index (set_queue s p lvl os b) = index b" "nextElem (set_queue s p lvl os b) = nextElem b"
  "maxOrderID (set_queue s p lvl os b) = maxOrderID b"
  "nextTradeID (set_queue s p lvl os b) = nextTradeID b"
  by (simp_all add: set_queue_def)

lemma drop_if_empty_eq:
  assumes "wf_ladders b" "s \<in> {Buy, Sell}" "p \<in> set (ladder b s)"
  shows "drop_if_empty s p (lvl\<lparr>pl_orders := os\<rparr>)
      (deindex i (put_level p (lvl\<lparr>pl_orders := os\<rparr>) b)) = Some (deindex i (set_queue s p lvl os b))"
proof -
  let ?l = "lvl\<lparr>pl_orders := os\<rparr>" and ?b = "deindex i (put_level p (lvl\<lparr>pl_orders := os\<rparr>) b)"
  have "wf_ladders ?b" "ladder ?b s = ladder b s" "map_of (levels ?b) p = Some ?l"
    using assms(1) by (simp_all add: wf_ladders_def deindex_def put_level_def ladder_def)
  with assms have "removeLevel ?b s p =
    Some (set_ladder s (filter (\<lambda>q. q \<noteq> p) (ladder b s)) (?b\<lparr>levels := gdel p (levels ?b)\<rparr>), True)"
    by (simp add: removeLevel_eq)
  then show ?thesis
    by (auto simp: drop_if_empty_def set_queue_def deindex_def put_level_def set_ladder_def delete_update_same)
qed

section \<open>Taking an element out\<close>

lemma wf_ladders_set_queue:
  assumes "wf_ladders b" "s \<in> {Buy, Sell}"
  shows "wf_ladders (set_queue s p lvl os b)"
  using assms by (auto simp: set_queue_def wf_ladders_def set_ladder_def ladder_def sorted_wrt_filter)

lemma side_at_set_queue:
  assumes "wf_ladders b" "s \<in> {Buy, Sell}" "p \<in> set (ladder b s)" "q \<noteq> p \<or> os \<noteq> []"
  shows "side_at (set_queue s p lvl os b) q = side_at b q"
  using assms by (auto simp: set_queue_def side_at_def set_ladder_def ladder_def)

lemma levels_set_queue:
  assumes "gwf (levels b)"
  shows "set (levels (set_queue s p lvl os b)) =
    {x \<in> set (levels b). fst x \<noteq> p} \<union> (if os = [] then {} else {(p, lvl\<lparr>pl_orders := os\<rparr>)})"
  using assms by (auto simp: set_queue_def set_gput set_gdel)

lemma gwf_levels_set_queue: "gwf (levels b) \<Longrightarrow> gwf (levels (set_queue s p lvl os b))"
  by (simp add: set_queue_def)

lemma wf_levels_set_queue:
  assumes b: "wf_ladders b" "wf_levels b" and s: "s \<in> {Buy, Sell}" "p \<in> set (ladder b s)"
    and lvl: "pl_price lvl = p" "pl_side lvl = s"
    and os: "distinct (map fst os)"
      "\<And>e x. (e, x) \<in> set os \<Longrightarrow> e < nextElem b \<and> wf_resting s (maxOrderID b) p x"
  shows "wf_levels (set_queue s p lvl os b)"
proof -
  let ?b = "set_queue s p lvl os b"
  have g: "gwf (levels b)" using b by (simp add: wf_levels_def)
  have sp: "side_at b p = s" using b s by (simp add: side_at_ladder)
  have keys: "fst ` set (levels ?b) = set (bids ?b) \<union> set (asks ?b)"
  proof -
    have "fst ` set (levels ?b) = (if os = [] then fst ` set (levels b) - {p} else fst ` set (levels b) \<union> {p})"
      by (force simp: levels_set_queue [OF g])
    also have "\<dots> = set (bids ?b) \<union> set (asks ?b)"
      using b s by (force simp: wf_levels_def set_queue_def set_ladder_def ladder_def wf_ladders_def split: if_splits)
    finally show ?thesis .
  qed
  have "wf_level (side_at ?b q) (nextElem ?b) (maxOrderID ?b) q l" if "(q, l) \<in> set (levels ?b)" for q l
  proof (cases "q = p")
    case True
    with that have "os \<noteq> []" "l = lvl\<lparr>pl_orders := os\<rparr>"
      by (auto simp: levels_set_queue [OF g] split: if_splits)
    with True sp lvl os show ?thesis
      by (auto simp: wf_level_def side_at_set_queue [OF b(1) s])
  next
    case False
    with that have "(q, l) \<in> set (levels b)" by (auto simp: levels_set_queue [OF g] split: if_splits)
    with b(2) False show ?thesis by (auto simp: wf_levels_def side_at_set_queue [OF b(1) s])
  qed
  with keys g show ?thesis by (auto simp: wf_levels_def gwf_levels_set_queue)
qed

text \<open>The index entries a book should have, level by level.\<close>

lemma index_entries_set_queue:
  assumes "gwf (levels b)"
  shows "set (index_entries (set_queue s p lvl os b)) =
    {y \<in> set (index_entries b). ref_level (snd y) \<noteq> p} \<union> set (level_entries p (lvl\<lparr>pl_orders := os\<rparr>))"
proof -
  have "set (index_entries c) = (\<Union>(q, l) \<in> set (levels c). set (level_entries q l))" for c
    by (auto simp: index_entries_def)
  moreover have "set (level_entries p (lvl\<lparr>pl_orders := []\<rparr>)) = {}"
    by (simp add: level_entries_def)
  moreover have "(\<Union>(q, l) \<in> {x \<in> set (levels b). fst x \<noteq> p}. set (level_entries q l)) =
      {y \<in> (\<Union>(q, l) \<in> set (levels b). set (level_entries q l)). ref_level (snd y) \<noteq> p}"
    by (fastforce simp: level_entries_def)
  ultimately show ?thesis
    by (auto simp: levels_set_queue [OF assms])
qed

lemma index_entries_level:
  assumes "gwf (levels b)" "(p, lvl) \<in> set (levels b)"
  shows "{y \<in> set (index_entries b). ref_level (snd y) = p} = set (level_entries p lvl)"
proof -
  have l: "l = lvl" if "(p, l) \<in> set (levels b)" for l using that assms by (blast intro: gwf_unique)
  show ?thesis
  proof (intro set_eqI iffI)
    fix y assume "y \<in> {y \<in> set (index_entries b). ref_level (snd y) = p}"
    then show "y \<in> set (level_entries p lvl)"
      using l by (cases y) (fastforce simp: in_index_entries level_entries_def)
  next
    fix y assume "y \<in> set (level_entries p lvl)"
    then show "y \<in> {y \<in> set (index_entries b). ref_level (snd y) = p}"
      using assms(2) by (auto simp: level_entries_def index_entriesI)
  qed
qed

text \<open>
  Removing one element of a queue together with its index entry, as a completed maker, a
  self-trade prevention and a cancel all do.
\<close>

lemma index_entries_remove:
  assumes wf: "wf_book b" and lvl: "(p, lvl) \<in> set (levels b)" and ex: "(e, x) \<in> set (pl_orders lvl)"
    and os: "set os = set (pl_orders lvl) - {(e, x)}"
  shows "set (index_entries (set_queue s p lvl os b)) = {y \<in> set (index_entries b). fst y \<noteq> o_SeqID x}"
proof -
  have g: "gwf (levels b)" using wf by (auto simp: wf_book_def wf_levels_def)
  have u: "q = p \<and> l = lvl \<and> e' = e \<and> x' = x"
    if "(q, l) \<in> set (levels b)" "(e', x') \<in> set (pl_orders l)" "o_SeqID x' = o_SeqID x" for q l e' x'
    using wf_element_unique [OF wf that(1,2) lvl ex that(3)] by simp
  have "set (level_entries p (lvl\<lparr>pl_orders := os\<rparr>)) =
      {y \<in> set (level_entries p lvl). fst y \<noteq> o_SeqID x}"
    using u [OF lvl] os by (auto simp: level_entries_def)
  moreover have "fst y \<noteq> o_SeqID x" if "y \<in> set (index_entries b)" "ref_level (snd y) \<noteq> p" for y
  proof (cases y)
    case (Pair i r)
    with that u show ?thesis by (auto simp: in_index_entries)
  qed
  ultimately show ?thesis
    using index_entries_level [OF g lvl] unfolding index_entries_set_queue [OF g] by blast
qed

lemma wf_remove:
  assumes wf: "wf_book b" and lvl: "map_of (levels b) p = Some lvl"
    and os: "set os = set (pl_orders lvl) - {(e, x)}" "distinct (map fst os)"
    and ex: "(e, x) \<in> set (pl_orders lvl)"
  shows "wf_book (deindex (o_SeqID x) (set_queue (side_at b p) p lvl os b))"
proof -
  let ?b = "set_queue (side_at b p) p lvl os b"
  note l = wf_level_at [OF wf lvl]
  have b: "wf_ladders b" "wf_levels b" "wf_index b" using wf by (auto simp: wf_book_def)
  have s: "side_at b p \<in> {Buy, Sell}" by (simp add: side_at_def)
  have "wf_ladders ?b" by (rule wf_ladders_set_queue [OF b(1) s])
  moreover have "wf_levels ?b"
    by (rule wf_levels_set_queue [OF b(1,2) s l(3)]) (use l(1) os in \<open>auto simp: wf_level_def\<close>)
  moreover have "wf_index (deindex (o_SeqID x) ?b)"
    using b(3) index_entries_remove [OF wf l(2) ex os(1), of "side_at b p"]
    by (simp add: wf_index_def deindex_def set_gdel index_entries_def)
  ultimately show ?thesis
    by (simp add: wf_book_def wf_ladders_def wf_levels_def deindex_def side_at_def)
qed

text \<open>A partly filled maker goes back to the front under a new element.\<close>

lemma index_entries_replace_front:
  assumes wf: "wf_book b" and lvl: "(p, lvl) \<in> set (levels b)"
    and os: "pl_orders lvl = (e, x) # rest" and y: "o_SeqID y = o_SeqID x"
  shows "set (index_entries (set_queue s p lvl ((e', y) # rest) b)) =
    insert (o_SeqID x, \<lparr>ref_level = p, ref_element = e'\<rparr>)
      {z \<in> set (index_entries b). fst z \<noteq> o_SeqID x}"
proof -
  have b: "gwf (levels b)" "distinct (map fst (pl_orders lvl))"
    using wf lvl by (auto simp: wf_book_def wf_levels_def wf_level_def)
  then have "(e, x) \<notin> set rest" using os by (auto simp: image_iff)
  then have rest: "set rest = set (pl_orders lvl) - {(e, x)}" unfolding os by auto
  have "set (index_entries (set_queue s p lvl ((e', y) # rest) b)) =
      insert (o_SeqID x, \<lparr>ref_level = p, ref_element = e'\<rparr>) (set (index_entries (set_queue s p lvl rest b)))"
    unfolding index_entries_set_queue [OF b(1)] by (simp add: level_entries_def y)
  also have "set (index_entries (set_queue s p lvl rest b)) = {z \<in> set (index_entries b). fst z \<noteq> o_SeqID x}"
    by (rule index_entries_remove [OF wf lvl _ rest]) (simp add: os)
  finally show ?thesis .
qed

lemma wf_replace_front:
  assumes wf: "wf_book b" and lvl: "map_of (levels b) p = Some lvl"
    and os: "pl_orders lvl = (e, x) # rest"
    and y: "o_SeqID y = o_SeqID x" "wf_resting (side_at b p) (maxOrderID b) p y"
  shows "wf_book (set_queue (side_at b p) p lvl ((nextElem b, y) # rest)
      (b\<lparr>index := gput (o_SeqID x) \<lparr>ref_level = p, ref_element = nextElem b\<rparr> (gdel (o_SeqID x) (index b)),
         nextElem := Suc (nextElem b)\<rparr>))"
proof -
  define b' where "b' = b\<lparr>index := gput (o_SeqID x) \<lparr>ref_level = p, ref_element = nextElem b\<rparr> (gdel (o_SeqID x) (index b)),
         nextElem := Suc (nextElem b)\<rparr>"
  let ?os = "(nextElem b, y) # rest" and ?s = "side_at b p"
  note l = wf_level_at [OF wf lvl]
  have b: "wf_ladders b" "wf_levels b" "wf_index b" and g: "gwf (levels b)"
    using wf by (auto simp: wf_book_def wf_levels_def)
  have s: "?s \<in> {Buy, Sell}" by (simp add: side_at_def)
  have ne: "e' < nextElem b" "wf_resting ?s (maxOrderID b) p x'" if "(e', x') \<in> set (pl_orders lvl)" for e' x'
    using l(1) that by (auto simp: wf_level_def)
  have b': "wf_ladders b'" "ladder b' ?s = ladder b ?s" "levels b' = levels b" "index_entries b' = index_entries b"
    using b(1) by (simp_all add: b'_def wf_ladders_def index_entries_def)
  have "wf_levels b'"
    using b(2) by (fastforce simp: wf_levels_def b'_def wf_level_def side_at_def)
  then have lv: "wf_levels (set_queue ?s p lvl ?os b')"
  proof (rule wf_levels_set_queue [OF b'(1) _ s])
    show "p \<in> set (ladder b' ?s)" using l(3) b'(2) by simp
    show "pl_price lvl = p" "pl_side lvl = ?s" using l(1) by (simp_all add: wf_level_def)
    show "distinct (map fst ?os)" using l(1) os ne(1) by (fastforce simp: wf_level_def)
    fix e' x' assume "(e', x') \<in> set ?os"
    then show "e' < nextElem b' \<and> wf_resting ?s (maxOrderID b') p x'"
      using ne [of e' x'] os y by (auto simp: b'_def)
  qed
  have "wf_index (set_queue ?s p lvl ?os b')"
  proof -
    have "set (index_entries (set_queue ?s p lvl ?os b)) =
        insert (o_SeqID x, \<lparr>ref_level = p, ref_element = nextElem b\<rparr>)
          {z \<in> set (index_entries b). fst z \<noteq> o_SeqID x}"
      by (rule index_entries_replace_front [OF wf l(2) os y(1)])
    moreover have "set (index_entries (set_queue ?s p lvl ?os b')) = set (index_entries (set_queue ?s p lvl ?os b))"
      using g b'(3,4) by (simp add: index_entries_set_queue)
    moreover have "index (set_queue ?s p lvl ?os b') =
        gput (o_SeqID x) \<lparr>ref_level = p, ref_element = nextElem b\<rparr> (gdel (o_SeqID x) (index b))"
      by (simp add: b'_def)
    ultimately show ?thesis
      using b(3) by (auto simp: wf_index_def set_gput set_gdel)
  qed
  with lv wf_ladders_set_queue [OF b'(1) s] show ?thesis by (simp add: wf_book_def b'_def)
qed

section \<open>The abstract view: two priority queues\<close>

text \<open>
  What the levels and ladders represent: per side, the resting orders in the order in which
  they will be matched, best price first and oldest first within a price.
\<close>

definition level_orders :: "Book \<Rightarrow> Price \<Rightarrow> Order list" where
  "level_orders b p = (case map_of (levels b) p of None \<Rightarrow> [] | Some l \<Rightarrow> map snd (pl_orders l))"

definition queue :: "Book \<Rightarrow> OrderSide \<Rightarrow> Order list" where
  "queue b s = concat (map (level_orders b) (ladder b s))"

lemma level_orders_frame [simp]:
  "level_orders (b\<lparr>index := ix\<rparr>) = level_orders b" "level_orders (b\<lparr>nextTradeID := t\<rparr>) = level_orders b"
  "level_orders (b\<lparr>nextElem := e\<rparr>) = level_orders b" "level_orders (b\<lparr>maxOrderID := i\<rparr>) = level_orders b"
  "level_orders (deindex j b) = level_orders b" "level_orders (set_ladder s l b) = level_orders b"
  by (simp_all add: fun_eq_iff level_orders_def deindex_def)

lemma ladder_deindex [simp]: "ladder (deindex i b) s = ladder b s"
  by (simp add: deindex_def)

lemma queue_frame [simp]:
  "queue (b\<lparr>index := ix\<rparr>) = queue b" "queue (b\<lparr>nextTradeID := t\<rparr>) = queue b"
  "queue (b\<lparr>nextElem := e\<rparr>) = queue b" "queue (b\<lparr>maxOrderID := i\<rparr>) = queue b"
  "queue (deindex j b) = queue b"
  by (simp_all add: fun_eq_iff queue_def)

lemma level_orders_set_queue:
  "level_orders (set_queue s p lvl os b) = (level_orders b)(p := map snd os)"
  by (auto simp: fun_eq_iff level_orders_def set_queue_def set_ladder_def)

lemma concat_map_skip:
  "f p = [] \<Longrightarrow> concat (map f (filter (\<lambda>q. q \<noteq> p) l)) = concat (map f l)"
  by (induction l) auto

lemma ladder_set_queue:
  assumes "s \<in> {Buy, Sell}" "s' \<in> {Buy, Sell}"
  shows "ladder (set_queue s p lvl os b) s' =
    (if os = [] \<and> s' = s then filter (\<lambda>q. q \<noteq> p) (ladder b s') else ladder b s')"
  using assms by (auto simp: set_queue_def ladder_def set_ladder_def)

lemma queue_set_queue:
  assumes "s \<in> {Buy, Sell}" "s' \<in> {Buy, Sell}"
  shows "queue (set_queue s p lvl os b) s' =
    concat (map ((level_orders b)(p := map snd os)) (ladder b s'))"
  using assms concat_map_skip [of "(level_orders b)(p := map snd os)" p "ladder b s'"]
  by (auto simp: queue_def level_orders_set_queue ladder_set_queue)

text \<open>The other side of the book is untouched.\<close>

lemma ladders_disjoint:
  assumes "wf_ladders b" "s \<in> {Buy, Sell}" "p \<in> set (ladder b s)"
  shows "p \<notin> set (ladder b (opposite s))"
  using assms by (force simp: wf_ladders_def ladder_def)

lemma opposite_side: "s \<in> {Buy, Sell} \<Longrightarrow> opposite s \<in> {Buy, Sell}"
  by auto

lemma opposite_opposite [simp]: "opposite (opposite s) = s"
  by (cases s) auto

lemma queue_set_queue_other:
  assumes "wf_ladders b" "s \<in> {Buy, Sell}" "p \<in> set (ladder b s)"
  shows "queue (set_queue s p lvl os b) (opposite s) = queue b (opposite s)"
  using ladders_disjoint [OF assms]
  unfolding queue_set_queue [OF assms(2) opposite_side [OF assms(2)]]
  by (auto simp: queue_def intro!: arg_cong [where f = concat])

lemma queue_set_queue_best:
  assumes "wf_ladders b" "s \<in> {Buy, Sell}" "ladder b s = p # ps"
  shows "queue (set_queue s p lvl os b) s = map snd os @ concat (map (level_orders b) ps)"
proof -
  have "p \<notin> set ps"
    using wf_ladder_sorted [OF assms(1,2)] assms(3) by auto
  then show ?thesis
    unfolding queue_set_queue [OF assms(2,2)] assms(3)
    by (auto intro!: arg_cong [where f = concat])
qed

section \<open>One matching step\<close>

lemma best_level:
  assumes "wf_book b" "s \<in> {Buy, Sell}" "ladder b s = p # ps"
  obtains lvl e m rest where "map_of (levels b) p = Some lvl" "pl_orders lvl = (e, m) # rest"
    "wf_resting s (maxOrderID b) p m" "side_at b p = s" "distinct (map fst (pl_orders lvl))"
    "queue b s = m # map snd rest @ concat (map (level_orders b) ps)"
proof -
  have p: "p \<in> set (ladder b s)" using assms by simp
  then obtain lvl where lvl: "map_of (levels b) p = Some lvl"
    using assms by (meson wf_level_exists)
  have s: "side_at b p = s" using assms p by (simp add: side_at_ladder wf_book_def)
  from wf_level_at [OF assms(1) lvl] s have wl: "wf_level s (nextElem b) (maxOrderID b) p lvl" by simp
  then obtain e m rest where os: "pl_orders lvl = (e, m) # rest"
    by (cases "pl_orders lvl") (auto simp: wf_level_def)
  have "queue b s = m # map snd rest @ concat (map (level_orders b) ps)"
    using assms(3) lvl os by (simp add: queue_def level_orders_def)
  with that lvl os wl s show ?thesis by (auto simp: wf_level_def)
qed

text \<open>The book a completed or prevented maker leaves behind, and the one a partial fill does.\<close>

definition pop_book :: "OrderSide \<Rightarrow> Price \<Rightarrow> priceLevel \<Rightarrow> Book \<Rightarrow> Book" where
  "pop_book s p lvl b =
     deindex (o_SeqID (snd (hd (pl_orders lvl)))) (set_queue s p lvl (tl (pl_orders lvl)) b)"

definition fill_book :: "OrderSide \<Rightarrow> Price \<Rightarrow> priceLevel \<Rightarrow> int \<Rightarrow> Book \<Rightarrow> Book" where
  "fill_book s p lvl q b =
     (let m = snd (hd (pl_orders lvl)); e = nextElem b
      in set_queue s p lvl ((e, m\<lparr>o_Quantity := q\<rparr>) # tl (pl_orders lvl))
           (b\<lparr>index := gput (o_SeqID m) \<lparr>ref_level = p, ref_element = e\<rparr> (gdel (o_SeqID m) (index b)),
              nextElem := Suc e\<rparr>))"

lemma drop_if_empty_nextTradeID:
  "drop_if_empty s p l (b\<lparr>nextTradeID := t\<rparr>) = map_option (\<lambda>b. b\<lparr>nextTradeID := t\<rparr>) (drop_if_empty s p l b)"
  by (cases b) (auto simp: drop_if_empty_def removeLevel_def ladder_index_def Let_def
      split: option.splits Option.bind_splits)

lemma match_front_eq:
  assumes wf: "wf_book b" and s: "s \<in> {Buy, Sell}" and l: "ladder b (opposite s) = p # ps"
    and q: "0 < o_Quantity taker" "is_i64 (o_Quantity taker)"
    and lvl: "map_of (levels b) p = Some lvl" and os: "pl_orders lvl = (e, m) # rest"
    and tid: "tid = add64 (nextTradeID b) 1"
  shows "match_front now s p b taker =
    (if selfMatch taker m then Some (pop_book (opposite s) p lvl b, taker, [], [o_SeqID m])
     else if o_Quantity taker < o_Quantity m
     then Some ((fill_book (opposite s) p lvl (o_Quantity m - o_Quantity taker) b)\<lparr>nextTradeID := tid\<rparr>,
        taker\<lparr>o_Quantity := 0\<rparr>, [mk_trade now tid s taker m p (o_Quantity taker)], [])
     else Some ((pop_book (opposite s) p lvl b)\<lparr>nextTradeID := tid\<rparr>,
        taker\<lparr>o_Quantity := o_Quantity taker - o_Quantity m\<rparr>,
        [mk_trade now tid s taker m p (o_Quantity m)], []))"
proof -
  let ?s = "opposite s"
  have s': "?s \<in> {Buy, Sell}" and p: "p \<in> set (ladder b ?s)" and w: "wf_ladders b"
    using s l wf by (auto simp: wf_book_def)
  have m: "0 < o_Quantity m" "is_i64 (o_Quantity m)"
    using wf_level_at(1) [OF wf lvl] os by (auto simp: wf_level_def wf_resting_def)
  have pop: "popFront lvl = (m, True, lvl\<lparr>pl_orders := rest\<rparr>)"
    by (simp add: popFront_def os)
  have d: "drop_if_empty ?s p (lvl\<lparr>pl_orders := rest\<rparr>)
      (deindex i (put_level p (lvl\<lparr>pl_orders := rest\<rparr>) b)) = Some (pop_book ?s p lvl b)" if "i = o_SeqID m" for i
    using drop_if_empty_eq [OF w s' p] by (simp add: pop_book_def os that)
  consider "selfMatch taker m" | "\<not> selfMatch taker m" "o_Quantity taker < o_Quantity m"
    | "\<not> selfMatch taker m" "\<not> o_Quantity taker < o_Quantity m" by blast
  then show ?thesis
  proof cases
    case 1
    then show ?thesis using lvl pop d by (simp add: match_front_def Let_def)
  next
    case 2
    then show ?thesis
      using lvl pop q m
      by (cases b) (simp add: match_front_def Let_def tid deindex_def put_level_def restore_maker_def
          pushFront_def drop_if_empty_def fill_book_def os set_queue_def)
  next
    case 3
    then show ?thesis
      using lvl pop q m d
      by (simp add: match_front_def Let_def tid restore_maker_def drop_if_empty_nextTradeID)
        (simp add: deindex_def put_level_def)
  qed
qed

lemma wf_book_nextTradeID [simp]: "wf_book (b\<lparr>nextTradeID := t\<rparr>) = wf_book b"
  by (simp add: wf_book_def wf_ladders_def wf_levels_def wf_index_def index_entries_def side_at_def)

lemma wf_pop_book:
  assumes "wf_book b" "map_of (levels b) p = Some lvl" "pl_orders lvl = (e, m) # rest" "side_at b p = s"
  shows "wf_book (pop_book s p lvl b)"
proof -
  have d: "distinct (map fst (pl_orders lvl))"
    using wf_level_at(1) [OF assms(1,2)] by (simp add: wf_level_def)
  have r: "set rest = set (pl_orders lvl) - {(e, m)}"
    using d by (auto simp: assms(3) image_iff)
  have "wf_book (deindex (o_SeqID m) (set_queue (side_at b p) p lvl rest b))"
    by (rule wf_remove [OF assms(1,2) r]) (use d in \<open>simp_all add: assms(3)\<close>)
  then show ?thesis by (simp add: pop_book_def assms(3,4))
qed

lemma wf_fill_book:
  assumes "wf_book b" "map_of (levels b) p = Some lvl" "pl_orders lvl = (e, m) # rest" "side_at b p = s"
    and "0 < q" "q \<le> o_Quantity m"
  shows "wf_book (fill_book s p lvl q b)"
proof -
  have "wf_resting (side_at b p) (maxOrderID b) p m"
    using wf_level_at(1) [OF assms(1,2)] assms(3) by (simp add: wf_level_def)
  then have "wf_resting (side_at b p) (maxOrderID b) p (m\<lparr>o_Quantity := q\<rparr>)"
    using assms(5,6) by (auto simp: wf_resting_def intro: is_i64_nonneg_le)
  then show ?thesis
    using wf_replace_front [OF assms(1-3), of "m\<lparr>o_Quantity := q\<rparr>"]
    by (simp add: fill_book_def Let_def assms(3,4))
qed

section \<open>Resting an order\<close>

lemma takeWhile_better_insert_sorted:
  assumes "sorted_wrt (better s) l" "p \<notin> set l"
  shows "sorted_wrt (better s) (takeWhile (\<lambda>q. better s q p) l @ p # dropWhile (\<lambda>q. better s q p) l)"
  using assms
proof (induction l)
  case (Cons q l)
  then show ?case
    using better_linear [of s q p] by (auto dest: set_takeWhileD set_dropWhileD intro: better_trans)
qed simp

lemma getOrCreateLevel_old:
  "map_of (levels b) p = Some lvl \<Longrightarrow> getOrCreateLevel b s p = (b, lvl)"
  by (simp add: getOrCreateLevel_def)

lemma getOrCreateLevel_new:
  assumes "map_of (levels b) p = None" "wf_ladders b" "s \<in> {Buy, Sell}"
  shows "getOrCreateLevel b s p =
    ((set_ladder s (takeWhile (\<lambda>q. better s q p) (ladder b s) @ p # dropWhile (\<lambda>q. better s q p) (ladder b s)) b)
       \<lparr>levels := gput p (new_level s p) (levels b)\<rparr>, new_level s p)"
proof -
  have "slice_insert (ladder_index b s p) p (ladder b s) =
      takeWhile (\<lambda>q. better s q p) (ladder b s) @ p # dropWhile (\<lambda>q. better s q p) (ladder b s)"
    using assms(2,3)
    by (simp add: ladder_index_eq wf_ladder_sorted slice_insert_def takeWhile_eq_take [symmetric]
        dropWhile_eq_drop [symmetric])
  with assms(1,3) show ?thesis
    by (auto simp: getOrCreateLevel_def Let_def set_ladder_def ladder_def)
qed

text \<open>
  The precondition for resting \<open>x\<close>: a LIMIT order with something left, whose identifier no
  resting order has and whose price does not cross the other side.
\<close>

definition can_rest :: "Book \<Rightarrow> Order \<Rightarrow> bool" where
  "can_rest b x \<longleftrightarrow> o_Side x \<in> {Buy, Sell} \<and> wf_resting (o_Side x) (maxOrderID b) (o_Price x) x \<and>
     o_SeqID x \<notin> fst ` set (index b) \<and>
     (\<forall>q \<in> set (ladder b (opposite (o_Side x))). better (o_Side x) q (o_Price x))"

lemma can_rest_not_other:
  "can_rest b x \<Longrightarrow> o_Price x \<notin> set (ladder b (opposite (o_Side x)))"
  by (auto simp: can_rest_def)

lemma wf_level_Suc: "wf_level s ne mx p l \<Longrightarrow> wf_level s (Suc ne) mx p l"
  by (auto simp: wf_level_def)

lemma wf_levels_grow:
  "wf_levels b \<Longrightarrow> wf_levels (b\<lparr>index := ix, nextElem := Suc (nextElem b)\<rparr>)"
  by (auto simp: wf_levels_def side_at_def intro: wf_level_Suc)

text \<open>At a price that already has a level, the order goes to the back of its queue.\<close>

lemma rest_order_old:
  assumes "map_of (levels b) (o_Price x) = Some lvl"
  shows "rest_order b x = set_queue (o_Side x) (o_Price x) lvl (pl_orders lvl @ [(nextElem b, x)])
    (b\<lparr>index := gput (o_SeqID x) \<lparr>ref_level = o_Price x, ref_element = nextElem b\<rparr> (index b),
       nextElem := Suc (nextElem b)\<rparr>)"
  using assms by (cases b) (simp add: rest_order_def getOrCreateLevel_old push_def set_queue_def)

lemma wf_rest_old:
  assumes wf: "wf_book b" and x: "can_rest b x" and lvl: "map_of (levels b) (o_Price x) = Some lvl"
  shows "wf_book (rest_order b x)"
proof -
  define b' where "b' = b\<lparr>index := gput (o_SeqID x) \<lparr>ref_level = o_Price x, ref_element = nextElem b\<rparr> (index b),
       nextElem := Suc (nextElem b)\<rparr>"
  let ?s = "o_Side x" and ?p = "o_Price x" and ?os = "pl_orders lvl @ [(nextElem b, x)]"
  have s: "?s \<in> {Buy, Sell}" and rx: "wf_resting ?s (maxOrderID b) ?p x"
    using x by (auto simp: can_rest_def)
  have w: "wf_ladders b" "wf_levels b" "wf_index b" and g: "gwf (levels b)"
    using wf by (auto simp: wf_book_def wf_levels_def)
  note l = wf_level_at [OF wf lvl]
  have sp: "side_at b ?p = ?s"
    using l(3) can_rest_not_other [OF x] s by (auto simp: side_at_def split: if_splits)
  have b': "wf_ladders b'" "ladder b' ?s = ladder b ?s" "levels b' = levels b" "index_entries b' = index_entries b"
    using w(1) by (simp_all add: b'_def wf_ladders_def index_entries_def)
  have lv: "wf_levels (set_queue ?s ?p lvl ?os b')"
  proof (rule wf_levels_set_queue [OF b'(1) _ s])
    show "wf_levels b'" unfolding b'_def by (rule wf_levels_grow [OF w(2)])
    show "?p \<in> set (ladder b' ?s)" using l(3) b'(2) sp by simp
    show "pl_price lvl = ?p" "pl_side lvl = ?s" using l(1) sp by (simp_all add: wf_level_def)
    show "distinct (map fst ?os)" using l(1) by (auto simp: wf_level_def)
    fix e' x' assume "(e', x') \<in> set ?os"
    then show "e' < nextElem b' \<and> wf_resting ?s (maxOrderID b') ?p x'"
      using l(1) sp rx by (auto simp: b'_def wf_level_def)
  qed
  have "set (index_entries (set_queue ?s ?p lvl ?os b')) =
      insert (o_SeqID x, \<lparr>ref_level = ?p, ref_element = nextElem b\<rparr>) (set (index_entries b))"
    using index_entries_level [OF g l(2)] g b'(3,4)
    by (auto simp: index_entries_set_queue level_entries_def)
  moreover have "o_SeqID x \<notin> fst ` set (index b)" using x by (simp add: can_rest_def)
  ultimately have "wf_index (set_queue ?s ?p lvl ?os b')"
    using w(3) by (auto simp: wf_index_def set_gput b'_def image_iff)
  with lv wf_ladders_set_queue [OF b'(1) s] show ?thesis
    by (simp add: wf_book_def rest_order_old [OF lvl] b'_def)
qed

text \<open>At a new price, a level is created and the price takes its place in the ladder.\<close>

lemma rest_order_new:
  assumes "map_of (levels b) (o_Price x) = None" "wf_ladders b" "o_Side x \<in> {Buy, Sell}"
  shows "rest_order b x =
    (set_ladder (o_Side x) (takeWhile (\<lambda>q. better (o_Side x) q (o_Price x)) (ladder b (o_Side x)) @
       o_Price x # dropWhile (\<lambda>q. better (o_Side x) q (o_Price x)) (ladder b (o_Side x))) b)
    \<lparr>levels := gput (o_Price x)
        \<lparr>pl_price = o_Price x, pl_side = o_Side x, pl_orders = [(nextElem b, x)]\<rparr> (levels b),
     index := gput (o_SeqID x) \<lparr>ref_level = o_Price x, ref_element = nextElem b\<rparr> (index b),
     nextElem := Suc (nextElem b)\<rparr>"
  by (simp add: rest_order_def getOrCreateLevel_new [OF assms] push_def new_level_def Let_def)

lemma set_takeWhile_dropWhile: "set (takeWhile P l) \<union> set (dropWhile P l) = set l"
  by (metis set_append takeWhile_dropWhile_id)

lemma wf_rest_new:
  assumes wf: "wf_book b" and x: "can_rest b x" and none: "map_of (levels b) (o_Price x) = None"
  shows "wf_book (rest_order b x)"
proof -
  let ?s = "o_Side x" and ?p = "o_Price x"
  define L where "L = takeWhile (\<lambda>q. better ?s q ?p) (ladder b ?s) @ ?p # dropWhile (\<lambda>q. better ?s q ?p) (ladder b ?s)"
  let ?lv = "\<lparr>pl_price = ?p, pl_side = ?s, pl_orders = [(nextElem b, x)]\<rparr>"
  let ?b = "rest_order b x"
  have s: "?s \<in> {Buy, Sell}" and rx: "wf_resting ?s (maxOrderID b) ?p x"
    and fresh: "o_SeqID x \<notin> fst ` set (index b)"
    and unc: "\<forall>q \<in> set (ladder b (opposite ?s)). better ?s q ?p"
    using x by (auto simp: can_rest_def)
  have w: "wf_ladders b" "wf_levels b" "wf_index b" and g: "gwf (levels b)"
    using wf by (auto simp: wf_book_def wf_levels_def)
  note eq = rest_order_new [OF none w(1) s, folded L_def]
  have pn: "?p \<notin> set (bids b) \<union> set (asks b)"
    using w(2) none by (simp add: wf_levels_def map_of_eq_None_iff)
  then have "?p \<notin> set (ladder b ?s)" by (auto simp: ladder_def)
  then have sl: "sorted_wrt (better ?s) L" "set L = insert ?p (set (ladder b ?s))"
    using takeWhile_better_insert_sorted wf_ladder_sorted [OF w(1) s] set_takeWhile_dropWhile [of _ "ladder b ?s"]
    by (auto simp: L_def)
  have ba: "bids ?b = (if ?s = Buy then L else bids b)" "asks ?b = (if ?s = Buy then asks b else L)"
    by (simp_all add: eq set_ladder_def)
  have "wf_ladders ?b"
    using w(1) sl unc s unfolding wf_ladders_def ba by (auto simp: ladder_def better_def)
  moreover have "wf_levels ?b"
  proof -
    have lv: "set (levels ?b) = insert (?p, ?lv) (set (levels b))" and n: "nextElem ?b = Suc (nextElem b)"
      "maxOrderID ?b = maxOrderID b" and gb: "gwf (levels ?b)"
      using g none by (simp_all add: eq set_gput_new)
    have sd: "side_at ?b q = (if q = ?p then ?s else side_at b q)" for q
      using sl(2) s pn by (auto simp: side_at_def ba ladder_def)
    have "fst ` set (levels ?b) = set (bids ?b) \<union> set (asks ?b)"
      using w(2) sl(2) s by (auto simp: lv ba wf_levels_def ladder_def)
    moreover have "wf_level (side_at ?b q) (nextElem ?b) (maxOrderID ?b) q l" if "(q, l) \<in> set (levels ?b)" for q l
    proof (cases "(q, l) = (?p, ?lv)")
      case True
      with rx show ?thesis by (simp add: n sd wf_level_def)
    next
      case False
      with that have ql: "(q, l) \<in> set (levels b)" unfolding lv by blast
      with none have "q \<noteq> ?p" by (force simp: map_of_eq_None_iff)
      with w(2) ql show ?thesis by (auto simp: n sd wf_levels_def intro: wf_level_Suc)
    qed
    ultimately show ?thesis using gb by (auto simp: wf_levels_def)
  qed
  moreover have "wf_index ?b"
  proof -
    have "set (index_entries ?b) =
        insert (o_SeqID x, \<lparr>ref_level = ?p, ref_element = nextElem b\<rparr>) (set (index_entries b))"
      using none by (simp add: index_entries_def eq set_gput_new level_entries_def)
    then show ?thesis using w(3) fresh by (auto simp: wf_index_def eq set_gput image_iff)
  qed
  ultimately show ?thesis by (simp add: wf_book_def)
qed

lemma wf_rest_order: "wf_book b \<Longrightarrow> can_rest b x \<Longrightarrow> wf_book (rest_order b x)"
  by (cases "map_of (levels b) (o_Price x)") (auto intro: wf_rest_new wf_rest_old)

end
