(* ===== verification/OMS_Match.thy ===== *)
theory OMS_Match
  imports OMS_Book_Inv
begin

text \<open>
  An abstract specification of the book as two priority lists of orders, and the refinement:
  on every well-formed book, \<open>SubmitOrder\<close> and \<open>CancelOwned\<close> of the source do not panic, keep
  the invariant, and do exactly what the specification does on the two lists. The properties
  of matching are then proved by induction over lists.
\<close>

section \<open>The specification\<close>

text \<open>A LIMIT taker accepts a price up to its limit, a MARKET taker every price.\<close>

definition acceptable :: "OrderSide \<Rightarrow> Order \<Rightarrow> Price \<Rightarrow> bool" where
  "acceptable s taker p \<longleftrightarrow> (o_Type taker = Limit \<longrightarrow> \<not> better s p (o_Price taker))"

text \<open>
  Matching against the makers in priority order: trades, self-prevented identifiers, the
  taker's remainder, the makers left, and the last trade number used.
\<close>

fun spec_match ::
  "(SeqID \<Rightarrow> Time) \<Rightarrow> OrderSide \<Rightarrow> SeqID \<Rightarrow> Order \<Rightarrow> Order list
     \<Rightarrow> Trade list \<times> SeqID list \<times> Order \<times> Order list \<times> SeqID" where
  "spec_match now s tid taker [] = ([], [], taker, [], tid)"
| "spec_match now s tid taker (m # ms) =
     (if o_Quantity taker \<le> 0 \<or> \<not> acceptable s taker (o_Price m) then ([], [], taker, m # ms, tid)
      else if selfMatch taker m then
        (let (ts, ids, t', ms', tid') = spec_match now s tid taker ms
         in (ts, o_SeqID m # ids, t', ms', tid'))
      else if o_Quantity taker < o_Quantity m then
        ([mk_trade now (add64 tid 1) s taker m (o_Price m) (o_Quantity taker)], [],
         taker\<lparr>o_Quantity := 0\<rparr>, m\<lparr>o_Quantity := o_Quantity m - o_Quantity taker\<rparr> # ms, add64 tid 1)
      else
        (let (ts, ids, t', ms', tid') =
               spec_match now s (add64 tid 1) (taker\<lparr>o_Quantity := o_Quantity taker - o_Quantity m\<rparr>) ms
         in (mk_trade now (add64 tid 1) s taker m (o_Price m) (o_Quantity m) # ts, ids, t', ms', tid')))"

text \<open>An order joins its side behind every order of the same or a better price.\<close>

definition spec_insert :: "OrderSide \<Rightarrow> Order \<Rightarrow> Order list \<Rightarrow> Order list" where
  "spec_insert s x ys =
     takeWhile (\<lambda>y. \<not> better s (o_Price x) (o_Price y)) ys @ x #
     dropWhile (\<lambda>y. \<not> better s (o_Price x) (o_Price y)) ys"

record abook =
  a_buys :: "Order list"
  a_sells :: "Order list"
  a_nextTradeID :: SeqID
  a_maxOrderID :: SeqID

definition abs_book :: "Book \<Rightarrow> abook" where
  "abs_book b = \<lparr>a_buys = queue b Buy, a_sells = queue b Sell, a_nextTradeID = nextTradeID b,
     a_maxOrderID = maxOrderID b\<rparr>"

definition spec_submit ::
  "(SeqID \<Rightarrow> Time) \<Rightarrow> abook \<Rightarrow> Order \<Rightarrow> abook \<times> MatchResult \<times> Err option" where
  "spec_submit now a x =
     (if o_Side x = UnknownSide \<or> o_Type x = UnknownType
      then (a, zero_MatchResult, Some ErrUnknownSideOrType)
      else
        let s = o_Side x;
            (ts, ids, x', ms, tid) =
              spec_match now s (a_nextTradeID a) x (if s = Buy then a_sells a else a_buys a);
            own = (if s = Buy then a_buys a else a_sells a);
            rests = (o_Type x' = Limit \<and> o_Quantity x' > 0);
            own' = (if rests then spec_insert s x' own else own)
        in (\<lparr>a_buys = (if s = Buy then own' else ms), a_sells = (if s = Buy then ms else own'),
             a_nextTradeID = tid, a_maxOrderID = max (a_maxOrderID a) (o_SeqID x)\<rparr>,
            \<lparr>mr_Trades = ts, mr_SelfPrevented = ids,
             mr_RestingQuantity = (if rests then o_Quantity x' else 0)\<rparr>, None))"

definition spec_cancel :: "abook \<Rightarrow> SeqID \<Rightarrow> string \<Rightarrow> abook \<times> Err option" where
  "spec_cancel a i by = (case List.find (\<lambda>y. o_SeqID y = i) (a_buys a @ a_sells a) of
     None \<Rightarrow> (a, Some ErrOrderNotFound)
   | Some y \<Rightarrow>
       if by \<noteq> [] \<and> o_Placer y \<noteq> by then (a, Some (ErrNotOrderOwner i))
       else (a\<lparr>a_buys := filter (\<lambda>y. o_SeqID y \<noteq> i) (a_buys a),
               a_sells := filter (\<lambda>y. o_SeqID y \<noteq> i) (a_sells a)\<rparr>, None))"

section \<open>Both loops as one\<close>

definition match_side ::
  "(SeqID \<Rightarrow> Time) \<Rightarrow> OrderSide \<Rightarrow> Book \<Rightarrow> Order \<Rightarrow> Trade list \<Rightarrow> SeqID list
     \<Rightarrow> (Book \<times> Trade list \<times> SeqID list \<times> Order) option" where
  "match_side now s b taker trades ids =
     (if s = Buy then matchAgainstAsks now b taker trades ids else matchAgainstBids now b taker trades ids)"

lemma match_side_unfold:
  assumes "s \<in> {Buy, Sell}"
  shows "match_side now s b taker trades ids =
    (if o_Quantity taker > 0 then
       (case ladder b (opposite s) of
          [] \<Rightarrow> Some (b, trades, ids, taker)
        | p # _ \<Rightarrow>
            if \<not> acceptable s taker p then Some (b, trades, ids, taker)
            else (case match_front now s p b taker of
                    None \<Rightarrow> None
                  | Some (b', taker', ts, is) \<Rightarrow> match_side now s b' taker' (trades @ ts) (ids @ is)))
     else Some (b, trades, ids, taker))"
proof (cases "s = Buy")
  case True
  then have "match_side now s = matchAgainstAsks now"
    by (simp add: fun_eq_iff match_side_def)
  with True show ?thesis unfolding \<open>match_side now s = _\<close>
    by (simp add: matchAgainstAsks.simps [of now b taker trades ids] BestAsk_def
        ladder_def acceptable_def better_def split: list.split)
next
  case False
  with assms have "s = Sell" by simp
  then have "match_side now s = matchAgainstBids now"
    by (simp add: fun_eq_iff match_side_def)
  with \<open>s = Sell\<close> show ?thesis unfolding \<open>match_side now s = _\<close>
    by (simp add: matchAgainstBids.simps [of now b taker trades ids] BestBid_def
        ladder_def acceptable_def better_def split: list.split)
qed

section \<open>The loops refine the specification\<close>

lemma pop_book_frame [simp]:
  "nextTradeID (pop_book s p lvl b) = nextTradeID b" "maxOrderID (pop_book s p lvl b) = maxOrderID b"
  by (simp_all add: pop_book_def deindex_def)

lemma fill_book_frame [simp]:
  "nextTradeID (fill_book s p lvl q b) = nextTradeID b" "maxOrderID (fill_book s p lvl q b) = maxOrderID b"
  by (simp_all add: fill_book_def Let_def)

lemma queue_pop_book:
  assumes "wf_book b" "s \<in> {Buy, Sell}" "ladder b s = p # ps" "pl_orders lvl = (e, m) # rest"
  shows "queue (pop_book s p lvl b) s = map snd rest @ concat (map (level_orders b) ps)"
    "queue (pop_book s p lvl b) (opposite s) = queue b (opposite s)"
    "ladder (pop_book s p lvl b) (opposite s) = ladder b (opposite s)"
proof -
  have w: "wf_ladders b" "p \<in> set (ladder b s)" using assms by (auto simp: wf_book_def)
  show "queue (pop_book s p lvl b) s = map snd rest @ concat (map (level_orders b) ps)"
    using queue_set_queue_best [OF w(1) assms(2,3)] by (simp add: pop_book_def assms(4))
  show "queue (pop_book s p lvl b) (opposite s) = queue b (opposite s)"
    using queue_set_queue_other [OF w(1) assms(2) w(2)] by (simp add: pop_book_def)
  show "ladder (pop_book s p lvl b) (opposite s) = ladder b (opposite s)"
    using assms(2) by (auto simp: pop_book_def ladder_set_queue)
qed

lemma queue_fill_book:
  assumes "wf_book b" "s \<in> {Buy, Sell}" "ladder b s = p # ps" "pl_orders lvl = (e, m) # rest"
  shows "queue (fill_book s p lvl q b) s =
      m\<lparr>o_Quantity := q\<rparr> # map snd rest @ concat (map (level_orders b) ps)"
    "queue (fill_book s p lvl q b) (opposite s) = queue b (opposite s)"
    "ladder (fill_book s p lvl q b) (opposite s) = ladder b (opposite s)"
proof -
  let ?b = "b\<lparr>index := gput (o_SeqID m) \<lparr>ref_level = p, ref_element = nextElem b\<rparr> (gdel (o_SeqID m) (index b)),
              nextElem := Suc (nextElem b)\<rparr>"
  have w: "wf_ladders ?b" "p \<in> set (ladder ?b s)" "ladder ?b s = p # ps"
    using assms by (auto simp: wf_book_def wf_ladders_def)
  show "queue (fill_book s p lvl q b) s =
      m\<lparr>o_Quantity := q\<rparr> # map snd rest @ concat (map (level_orders b) ps)"
    using queue_set_queue_best [OF w(1) assms(2) w(3)] by (simp add: fill_book_def Let_def assms(4))
  show "queue (fill_book s p lvl q b) (opposite s) = queue b (opposite s)"
    using queue_set_queue_other [OF w(1) assms(2) w(2)] by (simp add: fill_book_def Let_def assms(4))
  show "ladder (fill_book s p lvl q b) (opposite s) = ladder b (opposite s)"
    using assms(2) by (auto simp: fill_book_def Let_def ladder_set_queue)
qed

lemma queue_Nil_ladder:
  assumes "wf_book b" "s \<in> {Buy, Sell}" "queue b s = []"
  shows "ladder b s = []"
proof (cases "ladder b s")
  case (Cons p ps)
  with best_level [OF assms(1,2) Cons] assms(3) show ?thesis by auto
qed

lemma queue_Cons_ladder:
  assumes "wf_book b" "s \<in> {Buy, Sell}" "queue b s = m # ms"
  obtains p ps lvl e rest where "ladder b s = p # ps" "map_of (levels b) p = Some lvl"
    "pl_orders lvl = (e, m) # rest" "wf_resting s (maxOrderID b) p m" "side_at b p = s"
    "ms = map snd rest @ concat (map (level_orders b) ps)"
proof (cases "ladder b s")
  case Nil
  with assms(3) show ?thesis by (simp add: queue_def)
next
  case (Cons p ps)
  obtain lvl e m' rest where
    "map_of (levels b) p = Some lvl" "pl_orders lvl = (e, m') # rest"
    "wf_resting s (maxOrderID b) p m'" "side_at b p = s" "distinct (map fst (pl_orders lvl))"
    "queue b s = m' # map snd rest @ concat (map (level_orders b) ps)"
    by (rule best_level [OF assms(1,2) Cons])
  with that Cons assms(3) show ?thesis by auto
qed

text \<open>
  What the refinement says of one run of a loop: it returns, appends exactly the
  specification's trades and identifiers, keeps the invariant, leaves the specification's
  makers on the opposite side and touches nothing else.
\<close>

definition loop_refines ::
  "(SeqID \<Rightarrow> Time) \<Rightarrow> OrderSide \<Rightarrow> Book \<Rightarrow> Order \<Rightarrow> Trade list \<Rightarrow> SeqID list \<Rightarrow> bool" where
  "loop_refines now s b taker trades ids \<longleftrightarrow>
     (case spec_match now s (nextTradeID b) taker (queue b (opposite s)) of (ts, is, t', ms', tid') \<Rightarrow>
        \<exists>b'. match_side now s b taker trades ids = Some (b', trades @ ts, ids @ is, t') \<and>
          wf_book b' \<and> queue b' (opposite s) = ms' \<and> queue b' s = queue b s \<and>
          ladder b' s = ladder b s \<and> nextTradeID b' = tid' \<and> maxOrderID b' = maxOrderID b)"

lemma loop_refines_stop:
  assumes "wf_book b" "s \<in> {Buy, Sell}"
    and "o_Quantity taker \<le> 0 \<or> queue b (opposite s) = [] \<or>
      \<not> acceptable s taker (o_Price (hd (queue b (opposite s))))"
  shows "loop_refines now s b taker trades ids"
proof (cases "queue b (opposite s)")
  case Nil
  with queue_Nil_ladder [OF assms(1) opposite_side [OF assms(2)]] assms show ?thesis
    by (simp add: loop_refines_def match_side_unfold)
next
  case (Cons m ms)
  obtain p ps where l: "ladder b (opposite s) = p # ps" "o_Price m = p"
    using queue_Cons_ladder [OF assms(1) opposite_side [OF assms(2)] Cons] by (metis wf_resting_def)
  from assms(3) Cons l show ?thesis
    using assms(1,2) by (auto simp: loop_refines_def match_side_unfold)
qed

text \<open>One iteration of the loop against one step of the specification.\<close>

lemma loop_refines_step:
  assumes s: "s \<in> {Buy, Sell}" and l: "ladder b (opposite s) = p # ps"
    and q: "0 < o_Quantity taker" "acceptable s taker p"
    and front: "match_front now s p b taker = Some (b1, taker1, ts1, is1)"
    and frame: "queue b1 s = queue b s" "ladder b1 s = ladder b s" "maxOrderID b1 = maxOrderID b"
    and spec: "spec_match now s (nextTradeID b) taker (queue b (opposite s)) =
      (let (ts, is, t', ms', tid') = spec_match now s (nextTradeID b1) taker1 (queue b1 (opposite s))
       in (ts1 @ ts, is1 @ is, t', ms', tid'))"
    and rec: "loop_refines now s b1 taker1 (trades @ ts1) (ids @ is1)"
  shows "loop_refines now s b taker trades ids"
proof -
  have "match_side now s b taker trades ids = match_side now s b1 taker1 (trades @ ts1) (ids @ is1)"
    using s l q front match_side_unfold [of s now b taker trades ids] by simp
  with rec frame spec show ?thesis
    by (auto simp: loop_refines_def split: prod.splits)
qed

lemma match_side_refines:
  assumes "wf_book b" "s \<in> {Buy, Sell}" "is_i64 (o_Quantity taker)"
  shows "loop_refines now s b taker trades ids"
  using assms
proof (induction "queue b (opposite s)" arbitrary: b taker trades ids)
  case Nil
  then show ?case by (simp add: loop_refines_stop)
next
  case (Cons m ms b taker trades ids)
  note s = \<open>s \<in> {Buy, Sell}\<close> and wf = \<open>wf_book b\<close> and qi = \<open>is_i64 (o_Quantity taker)\<close>
  note s' = opposite_side [OF s] and qm = Cons.hyps(2) [symmetric]
  show ?case
  proof (cases "o_Quantity taker \<le> 0 \<or> \<not> acceptable s taker (o_Price m)")
    case True
    then show ?thesis using loop_refines_stop [OF wf s] by (auto simp: qm)
  next
    case False
    then have q: "0 < o_Quantity taker" and ac: "acceptable s taker (o_Price m)" by auto
    obtain p ps lvl e rest where l: "ladder b (opposite s) = p # ps" "map_of (levels b) p = Some lvl"
      "pl_orders lvl = (e, m) # rest" "wf_resting (opposite s) (maxOrderID b) p m"
      "side_at b p = opposite s" "ms = map snd rest @ concat (map (level_orders b) ps)"
      by (rule queue_Cons_ladder [OF wf s' qm])
    have m: "o_Price m = p" "0 < o_Quantity m" "is_i64 (o_Quantity m)"
      using l(4) by (auto simp: wf_resting_def)
    define tid where "tid = add64 (nextTradeID b) 1"
    note mf = match_front_eq [OF wf s l(1) q qi l(2,3) tid_def, of now]
    note step = loop_refines_step [OF s l(1) q ac [unfolded m(1)]]
    note wp = wf_pop_book [OF wf l(2,3,5)] and qp = queue_pop_book [OF wf s' l(1,3)]
      and qf = queue_fill_book [OF wf s' l(1,3)]
    consider "selfMatch taker m" | "\<not> selfMatch taker m" "o_Quantity taker < o_Quantity m"
      | "\<not> selfMatch taker m" "\<not> o_Quantity taker < o_Quantity m" by blast
    then show ?thesis
    proof cases
      case 1
      have "loop_refines now s (pop_book (opposite s) p lvl b) taker (trades @ []) (ids @ [o_SeqID m])"
        by (rule Cons.hyps(1)) (use qp l wp s qi in auto)
      with 1 q ac qp qm l(6) show ?thesis by (intro step [OF mf [simplified 1 if_True]]) auto
    next
      case 2
      let ?b = "(fill_book (opposite s) p lvl (o_Quantity m - o_Quantity taker) b)\<lparr>nextTradeID := tid\<rparr>"
      have "wf_book ?b"
        using wf_fill_book [OF wf l(2,3,5), of "o_Quantity m - o_Quantity taker"] 2 q by simp
      then have "loop_refines now s ?b (taker\<lparr>o_Quantity := 0\<rparr>)
          (trades @ [mk_trade now tid s taker m p (o_Quantity taker)]) (ids @ [])"
        by (rule loop_refines_stop [OF _ s]) simp
      with 2 q ac m(1) qf qm l(6) show ?thesis
        by (intro step [OF mf [simplified 2 if_True if_False]]) (auto simp: tid_def)
    next
      case 3
      let ?b = "(pop_book (opposite s) p lvl b)\<lparr>nextTradeID := tid\<rparr>"
      let ?t = "taker\<lparr>o_Quantity := o_Quantity taker - o_Quantity m\<rparr>"
      have "is_i64 (o_Quantity ?t)"
        using 3 m qi by (auto intro: is_i64_nonneg_le [of _ "o_Quantity taker"])
      then have "loop_refines now s ?b ?t (trades @ [mk_trade now tid s taker m p (o_Quantity m)]) (ids @ [])"
        by (intro Cons.hyps(1)) (use qp(1) l(6) wp s in auto)
      with 3 q ac m(1) qp qm l(6) show ?thesis
        by (intro step [OF mf [simplified 3 if_False]]) (auto simp: tid_def)
    qed
  qed
qed

section \<open>Resting refines insertion\<close>

lemma level_orders_price:
  assumes "wf_book b" "y \<in> set (level_orders b p)"
  shows "o_Price y = p" "wf_resting (side_at b p) (maxOrderID b) p y"
proof -
  obtain lvl e where "map_of (levels b) p = Some lvl" "(e, y) \<in> set (pl_orders lvl)"
    using assms(2) by (cases "map_of (levels b) p") (auto simp: level_orders_def)
  with wf_level_at(1) [OF assms(1)] have "wf_resting (side_at b p) (maxOrderID b) p y"
    by (fastforce simp: wf_level_def)
  then show "o_Price y = p" "wf_resting (side_at b p) (maxOrderID b) p y"
    by (simp_all add: wf_resting_def)
qed

lemma takeWhile_dropWhile_split:
  assumes "\<And>y. y \<in> set xs \<Longrightarrow> P y" "\<And>y. y \<in> set ys \<Longrightarrow> \<not> P y"
  shows "takeWhile P (xs @ ys) = xs" "dropWhile P (xs @ ys) = ys"
  using assms by (cases ys; simp add: takeWhile_append2 dropWhile_append2)+

lemma spec_insert_split:
  assumes "\<And>y. y \<in> set xs \<Longrightarrow> \<not> better s (o_Price x) (o_Price y)"
    "\<And>y. y \<in> set ys \<Longrightarrow> better s (o_Price x) (o_Price y)"
  shows "spec_insert s x (xs @ ys) = xs @ x # ys"
  using takeWhile_dropWhile_split [of xs "\<lambda>y. \<not> better s (o_Price x) (o_Price y)" ys] assms
  by (simp add: spec_insert_def)

text \<open>The part of the ladder before and after a price.\<close>

lemma sorted_better_around:
  assumes "sorted_wrt (better s) (us @ p # vs)"
  shows "\<And>u. u \<in> set us \<Longrightarrow> better s u p" "\<And>v. v \<in> set vs \<Longrightarrow> better s p v"
    "p \<notin> set us" "p \<notin> set vs"
  using assms by (auto simp: sorted_wrt_append)

lemma spec_insert_levels:
  assumes wf: "wf_book b" and sorted: "sorted_wrt (better s) (us @ o_Price x # vs)"
  shows "spec_insert s x (concat (map (level_orders b) us) @ level_orders b (o_Price x) @
      concat (map (level_orders b) vs)) =
    concat (map (level_orders b) us) @ level_orders b (o_Price x) @ x # concat (map (level_orders b) vs)"
proof -
  have "spec_insert s x ((concat (map (level_orders b) us) @ level_orders b (o_Price x)) @
      concat (map (level_orders b) vs)) =
    (concat (map (level_orders b) us) @ level_orders b (o_Price x)) @ x # concat (map (level_orders b) vs)"
    by (rule spec_insert_split)
      (use sorted_better_around [OF sorted] level_orders_price(1) [OF wf]
        in \<open>auto dest: better_asym\<close>)
  then show ?thesis by simp
qed

lemma queue_rest_order:
  assumes wf: "wf_book b" and x: "can_rest b x"
  shows "queue (rest_order b x) (o_Side x) = spec_insert (o_Side x) x (queue b (o_Side x))"
    "queue (rest_order b x) (opposite (o_Side x)) = queue b (opposite (o_Side x))"
proof -
  let ?s = "o_Side x" and ?p = "o_Price x"
  have s: "?s \<in> {Buy, Sell}" and w: "wf_ladders b" using wf x by (auto simp: can_rest_def wf_book_def)
  note sorted = wf_ladder_sorted [OF w s] and other = can_rest_not_other [OF x]
  have "queue (rest_order b x) ?s = spec_insert ?s x (queue b ?s) \<and>
      queue (rest_order b x) (opposite ?s) = queue b (opposite ?s)"
  proof (cases "map_of (levels b) ?p")
    case (Some lvl)
    let ?b = "b\<lparr>index := gput (o_SeqID x) \<lparr>ref_level = ?p, ref_element = nextElem b\<rparr> (index b),
       nextElem := Suc (nextElem b)\<rparr>"
    have "?p \<in> set (ladder b ?s)"
      using wf_level_at(3) [OF wf Some] other s by (auto simp: side_at_def split: if_splits)
    then obtain us vs where l: "ladder b ?s = us @ ?p # vs" by (meson split_list)
    have lo: "level_orders b ?p = map snd (pl_orders lvl)" by (simp add: level_orders_def Some)
    have "queue (rest_order b x) ?s =
        concat (map (level_orders b) us) @ level_orders b ?p @ x # concat (map (level_orders b) vs)"
      using sorted_better_around(3,4) [OF sorted [unfolded l]] s
      by (simp add: rest_order_old [OF Some] queue_set_queue l lo map_fun_upd)
    moreover have "queue (rest_order b x) (opposite ?s) = queue b (opposite ?s)"
      unfolding rest_order_old [OF Some] queue_set_queue [OF s opposite_side [OF s]]
      using other by (simp add: map_fun_upd queue_def)
    ultimately show ?thesis
      using spec_insert_levels [OF wf sorted [unfolded l]] by (simp add: queue_def l)
  next
    case None
    let ?us = "takeWhile (\<lambda>q. better ?s q ?p) (ladder b ?s)" and ?vs = "dropWhile (\<lambda>q. better ?s q ?p) (ladder b ?s)"
    have lo: "level_orders b ?p = []" by (simp add: level_orders_def None)
    have pn: "?p \<notin> set (ladder b ?s)"
      using wf_level_exists [OF wf s] None by (metis option.distinct(1))
    note so = takeWhile_better_insert_sorted [OF sorted pn]
    have lr: "level_orders (rest_order b x) = (level_orders b)(?p := [x])"
      by (auto simp: fun_eq_iff level_orders_def rest_order_new [OF None w s])
    have la: "ladder (rest_order b x) ?s = ?us @ ?p # ?vs"
      "ladder (rest_order b x) (opposite ?s) = ladder b (opposite ?s)"
      using s by (auto simp: rest_order_new [OF None w s])
    have "queue (rest_order b x) ?s =
        concat (map (level_orders b) ?us) @ level_orders b ?p @ x # concat (map (level_orders b) ?vs)"
      using sorted_better_around(3,4) [OF so] by (simp add: queue_def la lr lo map_fun_upd)
    moreover have "queue b ?s =
        concat (map (level_orders b) ?us) @ level_orders b ?p @ concat (map (level_orders b) ?vs)"
      by (simp add: queue_def lo flip: concat_append map_append)
    ultimately show ?thesis
      using spec_insert_levels [OF wf so] other by (simp add: queue_def la lr map_fun_upd)
  qed
  then show "queue (rest_order b x) ?s = spec_insert ?s x (queue b ?s)"
    "queue (rest_order b x) (opposite ?s) = queue b (opposite ?s)" by auto
qed

section \<open>Submitting refines the specification\<close>

lemma queue_element:
  assumes wf: "wf_book b"
  shows "y \<in> set (queue b Buy) \<union> set (queue b Sell) \<longleftrightarrow>
    (\<exists>p lvl e. (p, lvl) \<in> set (levels b) \<and> (e, y) \<in> set (pl_orders lvl))"
proof -
  have w: "gwf (levels b)" "fst ` set (levels b) = set (ladder b Buy) \<union> set (ladder b Sell)"
    using wf by (auto simp: wf_book_def wf_levels_def ladder_def)
  have "y \<in> set (queue b Buy) \<union> set (queue b Sell) \<longleftrightarrow>
      (\<exists>p \<in> fst ` set (levels b). y \<in> set (level_orders b p))"
    unfolding w(2) by (auto simp: queue_def)
  also have "\<dots> \<longleftrightarrow> (\<exists>p lvl. (p, lvl) \<in> set (levels b) \<and> y \<in> snd ` set (pl_orders lvl))"
    using w(1) by (auto simp: level_orders_def image_iff Bex_def)
  finally show ?thesis by force
qed

lemma index_ids:
  assumes wf: "wf_book b"
  shows "fst ` set (index b) = o_SeqID ` (set (queue b Buy) \<union> set (queue b Sell))"
proof -
  have "i \<in> fst ` set (index b) \<longleftrightarrow> i \<in> o_SeqID ` (set (queue b Buy) \<union> set (queue b Sell))" for i
  proof -
    have "i \<in> fst ` set (index b) \<longleftrightarrow> (\<exists>r. (i, r) \<in> set (index_entries b))"
      using wf by (force simp: wf_book_def wf_index_def)
    also have "\<dots> \<longleftrightarrow> (\<exists>p lvl e y. (p, lvl) \<in> set (levels b) \<and> (e, y) \<in> set (pl_orders lvl) \<and> i = o_SeqID y)"
      unfolding in_index_entries by blast
    also have "\<dots> \<longleftrightarrow> i \<in> o_SeqID ` (set (queue b Buy) \<union> set (queue b Sell))"
      unfolding image_iff Bex_def queue_element [OF wf] by blast
    finally show ?thesis .
  qed
  then show ?thesis by blast
qed

text \<open>
  The four things an iteration can do, as an induction rule: stop, prevent a self-trade, fill
  the taker against part of the front maker, or consume the front maker.
\<close>

lemma spec_match_induct [consumes 1, case_names stop self partial full]:
  assumes "spec_match now s tid x ms = (ts, ids, x', ms', tid')"
    and stop: "\<And>tid x ms. o_Quantity x \<le> 0 \<or> ms = [] \<or> \<not> acceptable s x (o_Price (hd ms)) \<Longrightarrow>
      P tid x ms [] [] x ms tid"
    and self: "\<And>tid x m ms ts ids x' ms' tid'. 0 < o_Quantity x \<Longrightarrow> acceptable s x (o_Price m) \<Longrightarrow>
      selfMatch x m \<Longrightarrow> P tid x ms ts ids x' ms' tid' \<Longrightarrow>
      P tid x (m # ms) ts (o_SeqID m # ids) x' ms' tid'"
    and part: "\<And>tid x m ms. 0 < o_Quantity x \<Longrightarrow> acceptable s x (o_Price m) \<Longrightarrow> \<not> selfMatch x m \<Longrightarrow>
      o_Quantity x < o_Quantity m \<Longrightarrow>
      P tid x (m # ms) [mk_trade now (add64 tid 1) s x m (o_Price m) (o_Quantity x)] []
        (x\<lparr>o_Quantity := 0\<rparr>) (m\<lparr>o_Quantity := o_Quantity m - o_Quantity x\<rparr> # ms) (add64 tid 1)"
    and full: "\<And>tid x m ms ts ids x' ms' tid'. 0 < o_Quantity x \<Longrightarrow> acceptable s x (o_Price m) \<Longrightarrow>
      \<not> selfMatch x m \<Longrightarrow> o_Quantity m \<le> o_Quantity x \<Longrightarrow>
      P (add64 tid 1) (x\<lparr>o_Quantity := o_Quantity x - o_Quantity m\<rparr>) ms ts ids x' ms' tid' \<Longrightarrow>
      P tid x (m # ms) (mk_trade now (add64 tid 1) s x m (o_Price m) (o_Quantity m) # ts) ids x' ms' tid'"
  shows "P tid x ms ts ids x' ms' tid'"
  using assms(1)
proof (induction ms arbitrary: tid x ts ids x' ms' tid')
  case Nil
  then show ?case using stop [of x "[]" tid] by simp
next
  case (Cons m ms)
  show ?case
  proof (cases "o_Quantity x \<le> 0 \<or> \<not> acceptable s x (o_Price m)")
    case True
    with Cons.prems stop [of x "m # ms" tid] show ?thesis by auto
  next
    case False
    then show ?thesis
      using Cons.prems self part full by (auto split: if_splits prod.splits dest!: Cons.IH)
  qed
qed

text \<open>The taker's remainder and the makers it leaves.\<close>

lemma acceptable_quantity [simp]: "acceptable s (x\<lparr>o_Quantity := q\<rparr>) p = acceptable s x p"
  by (simp add: acceptable_def)

lemma spec_match_taker:
  "spec_match now s tid x ms = (ts, ids, x', ms', tid') \<Longrightarrow> x\<lparr>o_Quantity := o_Quantity x'\<rparr> = x'"
  by (induction rule: spec_match_induct) auto

lemma spec_match_quantity:
  "spec_match now s tid x ms = (ts, ids, x', ms', tid') \<Longrightarrow> (\<And>m. m \<in> set ms \<Longrightarrow> 0 < o_Quantity m) \<Longrightarrow>
   0 \<le> o_Quantity x \<Longrightarrow> 0 \<le> o_Quantity x' \<and> o_Quantity x' \<le> o_Quantity x"
  by (induction rule: spec_match_induct) force+

lemma spec_match_ids:
  "spec_match now s tid x ms = (ts, ids, x', ms', tid') \<Longrightarrow> o_SeqID ` set ms' \<subseteq> o_SeqID ` set ms"
  by (induction rule: spec_match_induct) auto

text \<open>A taker with something left stopped at a price beyond its limit, or at the end.\<close>

lemma spec_match_stop_hd:
  "spec_match now s tid x ms = (ts, ids, x', ms', tid') \<Longrightarrow> 0 < o_Quantity x' \<Longrightarrow>
   ms' = [] \<or> \<not> acceptable s x (o_Price (hd ms'))"
  by (induction rule: spec_match_induct) auto

lemma spec_match_stop:
  "spec_match now s tid x ms = (ts, ids, x', m # ms', tid') \<Longrightarrow> 0 < o_Quantity x' \<Longrightarrow>
   \<not> acceptable s x (o_Price m)"
  by (drule (1) spec_match_stop_hd) simp

lemma spec_match_none: "o_Quantity x \<le> 0 \<Longrightarrow> spec_match now s tid x ms = ([], [], x, ms, tid)"
  by (cases ms) auto

lemma wf_resting_mono: "wf_resting s mx p x \<Longrightarrow> mx \<le> mx' \<Longrightarrow> wf_resting s mx' p x"
  by (simp add: wf_resting_def)

lemma wf_level_mono: "wf_level s ne mx p l \<Longrightarrow> mx \<le> mx' \<Longrightarrow> wf_level s ne mx' p l"
  unfolding wf_level_def using wf_resting_mono by fast

lemma wf_book_maxOrderID:
  assumes "wf_book b" "maxOrderID b \<le> mx"
  shows "wf_book (b\<lparr>maxOrderID := mx\<rparr>)"
proof -
  have "wf_level (side_at b p) (nextElem b) mx p lvl" if "(p, lvl) \<in> set (levels b)" for p lvl
    using assms that wf_level_mono by (auto simp: wf_book_def wf_levels_def)
  with assms(1) show ?thesis
    by (auto simp: wf_book_def wf_ladders_def wf_levels_def wf_index_def index_entries_def side_at_def)
qed

lemma wf_note_order_id [simp]: "wf_book b \<Longrightarrow> wf_book (note_order_id b x)"
  by (simp add: note_order_id_def wf_book_maxOrderID)

lemma note_order_id_frame [simp]:
  "queue (note_order_id b x) = queue b" "ladder (note_order_id b x) s = ladder b s"
  "nextTradeID (note_order_id b x) = nextTradeID b" "index (note_order_id b x) = index b"
  "maxOrderID (note_order_id b x) = max (maxOrderID b) (o_SeqID x)"
  by (simp_all add: note_order_id_def)

lemma queue_wf_resting:
  assumes "wf_book b" "s \<in> {Buy, Sell}" "y \<in> set (queue b s)"
  shows "wf_resting s (maxOrderID b) (o_Price y) y"
proof -
  from assms(3) obtain p where p: "p \<in> set (ladder b s)" "y \<in> set (level_orders b p)"
    by (auto simp: queue_def)
  with level_orders_price [OF assms(1) p(2)] side_at_ladder [OF _ assms(2) p(1)] assms(1) show ?thesis
    by (simp add: wf_book_def)
qed

text \<open>When the loop leaves a remainder of a LIMIT order, that remainder may rest.\<close>

lemma uncrossed_after_match:
  assumes wf: "wf_book b'" and s: "s \<in> {Buy, Sell}" and lim: "o_Type x = Limit"
    and ms: "spec_match now s tid x ms = (ts, ids, x', queue b' (opposite s), tid')" "0 < o_Quantity x'"
    and q: "q \<in> set (ladder b' (opposite s))"
  shows "better s q (o_Price x)"
proof (cases "queue b' (opposite s)")
  case Nil
  with queue_Nil_ladder [OF wf opposite_side [OF s]] q show ?thesis by simp
next
  case (Cons m ms')
  then obtain p ps where l: "ladder b' (opposite s) = p # ps" "o_Price m = p"
    using queue_Cons_ladder [OF wf opposite_side [OF s]] by (metis wf_resting_def)
  have "sorted_wrt (better (opposite s)) (p # ps)"
    using wf_ladder_sorted [OF _ opposite_side [OF s]] wf l by (metis wf_book_def)
  moreover have "better s p (o_Price x)"
    using spec_match_stop [OF ms(1) [unfolded Cons] ms(2)] lim l(2) by (simp add: acceptable_def)
  ultimately show ?thesis using q l s by (auto simp: better_def)
qed

lemma can_rest_after_match:
  assumes wf: "wf_book b'" and s: "o_Side x \<in> {Buy, Sell}" and lim: "o_Type x = Limit"
    and ms: "spec_match now (o_Side x) tid x ms = (ts, ids, x', queue b' (opposite (o_Side x)), tid')"
    and q: "0 < o_Quantity x'" "is_i64 (o_Quantity x)" "\<And>m. m \<in> set ms \<Longrightarrow> 0 < o_Quantity m"
    and own: "o_SeqID x \<notin> o_SeqID ` set (queue b' (o_Side x))" and fresh: "o_SeqID x \<notin> o_SeqID ` set ms"
    and mx: "o_SeqID x \<le> maxOrderID b'"
  shows "can_rest b' x'"
proof -
  have x': "o_Side x' = o_Side x" "o_Type x' = Limit" "o_Price x' = o_Price x" "o_SeqID x' = o_SeqID x"
    using spec_match_taker [OF ms] lim by (metis Order.simps Order.update_convs(6) Order.surjective)+
  have "\<not> o_Quantity x \<le> 0" using spec_match_none [of x] ms q(1) by force
  then have "is_i64 (o_Quantity x')"
    using spec_match_quantity [OF ms q(3)] q(2) by (auto intro: is_i64_nonneg_le)
  moreover have "o_SeqID x \<notin> fst ` set (index b')"
    unfolding index_ids [OF wf] image_Un using s own fresh subsetD [OF spec_match_ids [OF ms]]
    by (elim insertE emptyE) (simp, blast)+
  ultimately show ?thesis
    using uncrossed_after_match [OF wf s lim ms q(1)] s x' q(1) mx by (simp add: can_rest_def wf_resting_def)
qed

lemma rest_order_frame [simp]:
  "nextTradeID (rest_order b x) = nextTradeID b" "maxOrderID (rest_order b x) = maxOrderID b"
  by (auto simp: rest_order_def getOrCreateLevel_def Let_def split: option.split)

lemma SubmitOrder_refines:
  assumes wf: "wf_book b" and q: "is_i64 (o_Quantity x)" and fresh: "o_SeqID x \<notin> fst ` set (index b)"
  shows "\<exists>b' r e. SubmitOrder now b x = Some (b', r, e) \<and> wf_book b' \<and>
    (abs_book b', r, e) = spec_submit now (abs_book b) x"
proof (cases "o_Side x = UnknownSide \<or> o_Type x = UnknownType")
  case True
  then show ?thesis using wf by (simp add: SubmitOrder_def spec_submit_def)
next
  case False
  then have s: "o_Side x \<in> {Buy, Sell}" by (cases "o_Side x") auto
  let ?s = "o_Side x" and ?b = "note_order_id b x"
  obtain ts ids x' ms' tid' where
    sm: "spec_match now ?s (nextTradeID b) x (queue b (opposite ?s)) = (ts, ids, x', ms', tid')"
    by (metis prod_cases5)
  from match_side_refines [of ?b ?s x now "[]" "[]"] wf s q sm
  obtain b1 where b1: "match_side now ?s ?b x [] [] = Some (b1, ts, ids, x')" "wf_book b1"
    "queue b1 (opposite ?s) = ms'" "queue b1 ?s = queue b ?s" "nextTradeID b1 = tid'"
    "maxOrderID b1 = max (maxOrderID b) (o_SeqID x)"
    by (auto simp: loop_refines_def)
  have x': "o_Side x' = ?s" "o_Type x' = o_Type x"
    using spec_match_taker [OF sm] by (metis Order.simps Order.update_convs(6) Order.surjective)+
  have sub: "SubmitOrder now b x = (if o_Type x = Limit \<and> o_Quantity x' > 0
      then Some (rest_order b1 x', \<lparr>mr_Trades = ts, mr_SelfPrevented = ids, mr_RestingQuantity = o_Quantity x'\<rparr>, None)
      else Some (b1, \<lparr>mr_Trades = ts, mr_SelfPrevented = ids, mr_RestingQuantity = 0\<rparr>, None))"
    using False b1(1) x' by (auto simp: SubmitOrder_def match_side_def Let_def)
  show ?thesis
  proof (cases "o_Type x = Limit \<and> o_Quantity x' > 0")
    case True
    have "can_rest b1 x'"
      by (rule can_rest_after_match [OF b1(2) s _ sm [folded b1(3)]])
        (use True q fresh index_ids [OF wf] s b1 queue_wf_resting [OF wf opposite_side [OF s]]
          in \<open>auto simp: wf_resting_def image_iff\<close>)
    with True False s b1 x' sm sub show ?thesis
      using queue_rest_order [OF b1(2), of x'] wf_rest_order [OF b1(2), of x']
      by (auto simp: spec_submit_def abs_book_def)
  next
    case no_rest: False
    with False s b1 x' sm sub show ?thesis
      by (auto simp: spec_submit_def abs_book_def)
  qed
qed

section \<open>Cancelling refines deletion\<close>

lemma find_unique:
  assumes "x \<in> set xs" "P x" "\<And>y. y \<in> set xs \<Longrightarrow> P y \<Longrightarrow> y = x"
  shows "List.find P xs = Some x"
proof (cases "List.find P xs")
  case None
  with assms(1,2) show ?thesis by (auto simp: find_None_iff)
next
  case (Some y)
  then have "y \<in> set xs" "P y" by (auto simp: find_Some_iff)
  then have "y = x" by (rule assms(3))
  with Some show ?thesis by simp
qed

lemma filter_concat_map:
  assumes "distinct l" "p \<in> set l" "\<And>q. q \<in> set l \<Longrightarrow> q \<noteq> p \<Longrightarrow> (\<forall>y \<in> set (f q). P y)"
  shows "concat (map (f(p := filter P (f p))) l) = filter P (concat (map f l))"
proof -
  have "concat (map (f(p := filter P (f p))) l) = concat (map (\<lambda>q. filter P (f q)) l)"
    using assms(3) by (intro arg_cong [where f = concat] map_cong) (auto simp: filter_id_conv)
  then show ?thesis by (simp add: filter_concat comp_def)
qed

text \<open>What the index says of an order identifier, in terms of the two queues.\<close>

lemma index_lookup:
  assumes wf: "wf_book b" and ref: "map_of (index b) i = Some ref"
  obtains lvl x where "map_of (levels b) (ref_level ref) = Some lvl"
    "(ref_element ref, x) \<in> set (pl_orders lvl)" "deref b ref = Some x" "o_SeqID x = i"
    "x \<in> set (queue b (side_at b (ref_level ref)))"
proof -
  have "(i, ref) \<in> set (index_entries b)"
    using map_of_SomeD [OF ref] wf by (simp add: wf_book_def wf_index_def)
  then obtain lvl x where l: "(ref_level ref, lvl) \<in> set (levels b)"
    "(ref_element ref, x) \<in> set (pl_orders lvl)" "o_SeqID x = i"
    by (auto simp: in_index_entries)
  have lvl: "map_of (levels b) (ref_level ref) = Some lvl"
    using l(1) wf by (simp add: wf_book_def wf_levels_def)
  note w = wf_level_at [OF wf lvl]
  then have "map_of (pl_orders lvl) (ref_element ref) = Some x"
    using l(2) by (simp add: wf_level_def)
  moreover have "x \<in> set (queue b (side_at b (ref_level ref)))"
    using w(3) l(2) lvl by (force simp: queue_def level_orders_def)
  ultimately show ?thesis using that lvl l by (simp add: deref_def)
qed

lemma queue_id_unique:
  assumes wf: "wf_book b" and "x \<in> set (queue b Buy) \<union> set (queue b Sell)"
    "y \<in> set (queue b Buy) \<union> set (queue b Sell)" "o_SeqID x = o_SeqID y"
  shows "x = y"
  using assms(2,3) unfolding queue_element [OF wf] using wf_element_unique [OF wf] assms(4) by blast

lemma remove_element_orders:
  assumes wf: "wf_book b" and lvl: "map_of (levels b) p = Some lvl" and ex: "(e, x) \<in> set (pl_orders lvl)"
  shows "set (filter (\<lambda>(e', _). e' \<noteq> e) (pl_orders lvl)) = set (pl_orders lvl) - {(e, x)}"
    "map snd (filter (\<lambda>(e', _). e' \<noteq> e) (pl_orders lvl)) = filter (\<lambda>y. o_SeqID y \<noteq> o_SeqID x) (level_orders b p)"
proof -
  note l = wf_level_at [OF wf lvl]
  have d: "distinct (map fst (pl_orders lvl))" using l(1) by (simp add: wf_level_def)
  show "set (filter (\<lambda>(e', _). e' \<noteq> e) (pl_orders lvl)) = set (pl_orders lvl) - {(e, x)}"
    using gwf_unique [OF d ex] by auto
  have "(e' \<noteq> e) = (o_SeqID y \<noteq> o_SeqID x)" if "(e', y) \<in> set (pl_orders lvl)" for e' y
    using wf_element_unique [OF wf l(2) that l(2) ex] gwf_unique [OF d ex, of y] that by auto
  then have "filter (\<lambda>(e', _). e' \<noteq> e) (pl_orders lvl) = filter (\<lambda>y. o_SeqID (snd y) \<noteq> o_SeqID x) (pl_orders lvl)"
    by (intro filter_cong refl) (metis (mono_tags, lifting) case_prod_beta prod.collapse)
  then show "map snd (filter (\<lambda>(e', _). e' \<noteq> e) (pl_orders lvl)) = filter (\<lambda>y. o_SeqID y \<noteq> o_SeqID x) (level_orders b p)"
    by (simp add: level_orders_def lvl filter_map comp_def)
qed

lemma queue_remove:
  assumes wf: "wf_book b" and lvl: "map_of (levels b) p = Some lvl" and ex: "(e, x) \<in> set (pl_orders lvl)"
    and os: "os = filter (\<lambda>(e', _). e' \<noteq> e) (pl_orders lvl)" and s: "s \<in> {Buy, Sell}"
  shows "queue (set_queue (side_at b p) p lvl os b) s = filter (\<lambda>y. o_SeqID y \<noteq> o_SeqID x) (queue b s)"
proof -
  let ?P = "\<lambda>y. o_SeqID y \<noteq> o_SeqID x"
  note l = wf_level_at [OF wf lvl]
  have w: "wf_ladders b" "side_at b p \<in> {Buy, Sell}" using wf by (auto simp: wf_book_def side_at_def)
  have u: "y = x \<and> q = p" if "y \<in> set (level_orders b q)" "\<not> ?P y" for q y
  proof -
    from that obtain lvl' e' where "(q, lvl') \<in> set (levels b)" "(e', y) \<in> set (pl_orders lvl')"
      by (cases "map_of (levels b) q") (auto simp: level_orders_def dest: map_of_SomeD)
    with wf_element_unique [OF wf _ _ l(2) ex] that show ?thesis by auto
  qed
  show ?thesis
  proof (cases "p \<in> set (ladder b s)")
    case True
    have "concat (map ((level_orders b)(p := filter ?P (level_orders b p))) (ladder b s)) =
        filter ?P (concat (map (level_orders b) (ladder b s)))"
      by (rule filter_concat_map [OF sorted_better_distinct [OF wf_ladder_sorted [OF w(1) s]] True])
        (use u in auto)
    then show ?thesis
      unfolding queue_set_queue [OF w(2) s] os remove_element_orders(2) [OF wf lvl ex]
      by (simp add: queue_def)
  next
    case False
    then have "queue (set_queue (side_at b p) p lvl os b) s = queue b s"
      unfolding queue_set_queue [OF w(2) s] by (simp add: queue_def map_fun_upd)
    moreover have "filter ?P (queue b s) = queue b s"
      using False u by (fastforce simp: queue_def filter_id_conv)
    ultimately show ?thesis by simp
  qed
qed

lemma CancelOwned_refines:
  assumes wf: "wf_book b"
  shows "\<exists>b' e. CancelOwned b i by = Some (b', e) \<and> wf_book b' \<and>
    (abs_book b', e) = spec_cancel (abs_book b) i by"
proof (cases "map_of (index b) i")
  case None
  then have "i \<notin> o_SeqID ` (set (queue b Buy) \<union> set (queue b Sell))"
    using index_ids [OF wf] by (simp add: map_of_eq_None_iff)
  then have "List.find (\<lambda>y. o_SeqID y = i) (queue b Buy @ queue b Sell) = None"
    by (auto simp: find_None_iff)
  with wf None show ?thesis by (simp add: CancelOwned_def spec_cancel_def abs_book_def)
next
  case (Some ref)
  obtain lvl x where l: "map_of (levels b) (ref_level ref) = Some lvl"
    "(ref_element ref, x) \<in> set (pl_orders lvl)" "deref b ref = Some x" "o_SeqID x = i"
    "x \<in> set (queue b (side_at b (ref_level ref)))" by (rule index_lookup [OF wf Some])
  let ?p = "ref_level ref" and ?os = "filter (\<lambda>(e', _). e' \<noteq> ref_element ref) (pl_orders lvl)"
  have x: "x \<in> set (queue b Buy) \<union> set (queue b Sell)" using l(5) by (auto simp: side_at_def split: if_splits)
  have fd: "List.find (\<lambda>y. o_SeqID y = i) (queue b Buy @ queue b Sell) = Some x"
  proof (rule find_unique)
    fix y assume "y \<in> set (queue b Buy @ queue b Sell)" "o_SeqID y = i"
    then show "y = x" using queue_id_unique [OF wf _ x] l(4) by simp
  qed (use x l(4) in auto)
  have w: "wf_ladders b" "side_at b ?p \<in> {Buy, Sell}" using wf by (auto simp: wf_book_def side_at_def)
  note wl = wf_level_at [OF wf l(1)]
  have d: "distinct (map fst ?os)"
    using wl(1) by (auto simp: wf_level_def intro: distinct_map_filter)
  have lp: "pl_side lvl = side_at b ?p" "pl_price lvl = ?p" using wl(1) by (auto simp: wf_level_def)
  define b' where "b' = deindex i (set_queue (side_at b ?p) ?p lvl ?os b)"
  have "wf_book b'"
    using wf_remove [OF wf l(1) remove_element_orders(1) [OF wf l(1,2)] d l(2)] l(4) by (simp add: b'_def)
  moreover have "queue b' s = filter (\<lambda>y. o_SeqID y \<noteq> i) (queue b s)" if "s \<in> {Buy, Sell}" for s
    using queue_remove [OF wf l(1,2) refl that] l(4) by (simp add: b'_def)
  moreover have "nextTradeID b' = nextTradeID b" "maxOrderID b' = maxOrderID b"
    by (simp_all add: b'_def deindex_def)
  moreover have "CancelOwned b i by = (if by \<noteq> [] \<and> o_Placer x \<noteq> by then Some (b, Some (ErrNotOrderOwner i))
      else Some (b', None))"
    using drop_if_empty_eq [OF w wl(3), where lvl = lvl and os = ?os and i = i] Some l(1,3) lp
    by (simp add: CancelOwned_def remove_element_def b'_def)
  ultimately show ?thesis using fd wf by (auto simp: spec_cancel_def abs_book_def)
qed

end
