(* ===== verification/OMS_Book_Props.thy ===== *)
theory OMS_Book_Props
  imports OMS_Match
begin

text \<open>
  The properties of the matching engine: what an accepted order does to the book, to the
  makers it meets and to the trade numbering, and what cancelling undoes. Each is proved of
  the two lists of the specification and carried to the source's data structure by the
  refinement of \<open>OMS_Match\<close>.
\<close>

section \<open>Facts about one run of matching\<close>

definition traded :: "Trade list \<Rightarrow> int" where
  "traded ts = sum_list (map t_Quantity ts)"

definition offered :: "Order list \<Rightarrow> int" where
  "offered xs = sum_list (map o_Quantity xs)"

lemma traded_simps [simp]:
  "traded [] = 0" "traded (t # ts) = t_Quantity t + traded ts" "traded (ts @ us) = traded ts + traded us"
  by (simp_all add: traded_def)

lemma offered_simps [simp]:
  "offered [] = 0" "offered (x # xs) = o_Quantity x + offered xs" "offered (xs @ ys) = offered xs + offered ys"
  by (simp_all add: offered_def)

lemma mk_trade_sel [simp]:
  "t_Quantity (mk_trade now tid s x m p q) = q" "t_Price (mk_trade now tid s x m p q) = p"
  "t_SeqID (mk_trade now tid s x m p q) = tid" "t_MakerSeqID (mk_trade now tid s x m p q) = o_SeqID m"
  "t_TakerSeqID (mk_trade now tid s x m p q) = o_SeqID x" "t_TakerSide (mk_trade now tid s x m p q) = s"
  "t_MakerAccID (mk_trade now tid s x m p q) = o_Placer m" "t_TakerAccID (mk_trade now tid s x m p q) = o_Placer x"
  "t_Symbol (mk_trade now tid s x m p q) = o_Symbol x"
  by (simp_all add: mk_trade_def)

lemma selfMatch_quantity [simp]:
  "selfMatch (x\<lparr>o_Quantity := q\<rparr>) m = selfMatch x m" "selfMatch x (m\<lparr>o_Quantity := q\<rparr>) = selfMatch x m"
  by (simp_all add: selfMatch_def)

lemma selfMatch_quantity_fun [simp]: "selfMatch (x\<lparr>o_Quantity := q\<rparr>) = selfMatch x"
  by (simp add: fun_eq_iff)

text \<open>The taker's quantity is split between the fills and the remainder.\<close>

lemma spec_match_conserves:
  "spec_match now s tid x ms = (ts, ids, x', ms', tid') \<Longrightarrow> o_Quantity x = traded ts + o_Quantity x'"
  by (induction rule: spec_match_induct) auto

text \<open>What a printed trade says of its maker and taker.\<close>

definition trade_of :: "OrderSide \<Rightarrow> Order \<Rightarrow> Order \<Rightarrow> Trade \<Rightarrow> bool" where
  "trade_of s x m t \<longleftrightarrow> t_MakerSeqID t = o_SeqID m \<and> t_MakerAccID t = o_Placer m \<and> t_Price t = o_Price m \<and>
     t_TakerSeqID t = o_SeqID x \<and> t_TakerAccID t = o_Placer x \<and> t_TakerSide t = s \<and>
     t_Symbol t = o_Symbol x \<and> 0 < t_Quantity t \<and> t_Quantity t \<le> o_Quantity m \<and>
     acceptable s x (o_Price m) \<and> \<not> selfMatch x m"

lemma trade_of_quantity [simp]: "trade_of s (x\<lparr>o_Quantity := q\<rparr>) m t = trade_of s x m t"
  by (simp add: trade_of_def)

lemma spec_match_trades:
  "spec_match now s tid x ms = (ts, ids, x', ms', tid') \<Longrightarrow> (\<And>m. m \<in> set ms \<Longrightarrow> 0 < o_Quantity m) \<Longrightarrow>
   t \<in> set ts \<Longrightarrow> \<exists>m \<in> set ms. trade_of s x m t"
  by (induction rule: spec_match_induct) (auto simp: trade_of_def)

lemma upt_shift: "map (\<lambda>k. tid + 1 + int k) [0..<Suc n] = (tid + 1) # map (\<lambda>k. (tid + 1) + 1 + int k) [0..<n]"
  by (simp add: upt_conv_Cons map_Suc_upt [symmetric] comp_def del: upt_Suc)

lemma spec_match_trade_ids:
  "spec_match now s tid x ms = (ts, ids, x', ms', tid') \<Longrightarrow> is_i64 (tid + int (length ts)) \<Longrightarrow> 0 \<le> tid \<Longrightarrow>
   map t_SeqID ts = map (\<lambda>k. tid + 1 + int k) [0..<length ts] \<and> tid' = tid + int (length ts)"
proof (induction rule: spec_match_induct)
  case (full tid x m ms ts ids x' ms' tid')
  have "add64 tid 1 = tid + 1"
    by (rule add64_exact) (use full.prems in \<open>simp add: is_i64_def\<close>)
  with full have "map t_SeqID ts = map (\<lambda>k. (tid + 1) + 1 + int k) [0..<length ts]"
    "tid' = tid + 1 + int (length ts)" by (simp_all add: add_ac)
  with \<open>add64 tid 1 = tid + 1\<close> show ?case
    by (simp only: list.map(2) list.size(4) mk_trade_sel upt_shift One_nat_def add_Suc_right add_0_right)
      simp
qed (auto simp: add64_exact)

text \<open>
  The makers met are a prefix of the opposite side's queue: those the taker must not trade with
  are the self-prevented ones, all others trade, in order; what is left of the queue is the rest,
  behind the last maker if that one was filled only in part.
\<close>

definition left_after :: "Order list \<Rightarrow> Order list \<Rightarrow> Order list \<Rightarrow> bool" where
  "left_after hit rest left \<longleftrightarrow> left = rest \<or>
     (hit \<noteq> [] \<and> (\<exists>q. 0 < q \<and> q < o_Quantity (last hit) \<and> left = (last hit)\<lparr>o_Quantity := q\<rparr> # rest))"

lemma left_after_Cons: "left_after hit rest left \<Longrightarrow> left_after (m # hit) rest left"
  by (auto simp: left_after_def)

definition hit_by :: "Order \<Rightarrow> Order list \<Rightarrow> Trade list \<Rightarrow> SeqID list \<Rightarrow> bool" where
  "hit_by x hit ts ids \<longleftrightarrow>
     map t_MakerSeqID ts = map o_SeqID (filter (\<lambda>m. \<not> selfMatch x m) hit) \<and>
     ids = map o_SeqID (filter (selfMatch x) hit)"

lemma spec_match_prefix:
  "spec_match now s tid x ms = (ts, ids, x', ms', tid') \<Longrightarrow>
   \<exists>hit rest. ms = hit @ rest \<and> hit_by x hit ts ids \<and> left_after hit rest ms'"
proof (induction rule: spec_match_induct)
  case (stop tid x ms)
  show ?case by (intro exI [of _ "[]"] exI [of _ ms]) (simp add: hit_by_def left_after_def)
next
  case (self tid x m ms ts ids x' ms' tid')
  then obtain hit rest where "ms = hit @ rest" "hit_by x hit ts ids" "left_after hit rest ms'" by auto
  with self show ?case
    by (intro exI [of _ "m # hit"] exI [of _ rest]) (simp add: hit_by_def left_after_Cons)
next
  case (partial tid x m ms)
  then have "left_after [m] ms (m\<lparr>o_Quantity := o_Quantity m - o_Quantity x\<rparr> # ms)"
    by (auto simp: left_after_def intro: exI [of _ "o_Quantity m - o_Quantity x"])
  with partial show ?case
    by (intro exI [of _ "[m]"] exI [of _ ms]) (simp add: hit_by_def)
next
  case (full tid x m ms ts ids x' ms' tid')
  then obtain hit rest where "ms = hit @ rest" "hit_by (x\<lparr>o_Quantity := o_Quantity x - o_Quantity m\<rparr>) hit ts ids"
    "left_after hit rest ms'" by auto
  with full show ?case
    by (intro exI [of _ "m # hit"] exI [of _ rest]) (simp add: hit_by_def left_after_Cons)
qed

text \<open>What the makers of the other side lose is what was traded or prevented.\<close>

lemma spec_match_makers:
  "spec_match now s tid x ms = (ts, ids, x', ms', tid') \<Longrightarrow>
   \<exists>prevented. mset prevented \<subseteq># mset (filter (selfMatch x) ms) \<and> ids = map o_SeqID prevented \<and>
     offered ms = traded ts + offered prevented + offered ms'"
proof (induction rule: spec_match_induct)
  case (self tid x m ms ts ids x' ms' tid')
  then obtain pr where "mset pr \<subseteq># mset (filter (selfMatch x) ms)" "ids = map o_SeqID pr"
    "offered ms = traded ts + offered pr + offered ms'" by blast
  with self.hyps show ?case by (intro exI [of _ "m # pr"]) auto
qed (auto intro: exI [of _ "[]"])

text \<open>The clock only reaches the time stamps.\<close>

definition untimed :: "Trade \<Rightarrow> Trade" where
  "untimed t = t\<lparr>t_TimeStamp := 0\<rparr>"

lemma untimed_mk_trade [simp]: "untimed (mk_trade now tid s x m p q) = mk_trade (\<lambda>_. 0) tid s x m p q"
  by (simp add: untimed_def mk_trade_def)

lemma spec_match_clock:
  "spec_match now s tid x ms = (ts, ids, x', ms', tid') \<Longrightarrow>
   spec_match (\<lambda>_. 0) s tid x ms = (map untimed ts, ids, x', ms', tid')"
proof (induction rule: spec_match_induct)
  case (stop tid x ms)
  then show ?case by (cases ms) auto
qed (auto split: prod.splits)

section \<open>What an accepted order does\<close>

text \<open>
  The preconditions of a submission, as the sequencer establishes them: an identifier that no
  resting order has, and 64-bit fields.
\<close>

definition fresh_order :: "Book \<Rightarrow> Order \<Rightarrow> bool" where
  "fresh_order b x \<longleftrightarrow> is_i64 (o_Quantity x) \<and> o_SeqID x \<notin> fst ` set (index b)"

lemma SubmitOrder_total:
  "wf_book b \<Longrightarrow> fresh_order b x \<Longrightarrow> \<exists>b' r e. SubmitOrder now b x = Some (b', r, e) \<and> wf_book b' \<and>
    (abs_book b', r, e) = spec_submit now (abs_book b) x"
  using SubmitOrder_refines by (simp add: fresh_order_def)

lemma SubmitOrder_accepted:
  assumes "wf_book b" "fresh_order b x" "SubmitOrder now b x = Some (b', r, None)"
  obtains x' where "o_Side x \<in> {Buy, Sell}" "o_Type x \<in> {Limit, Market}" "wf_book b'"
    "spec_match now (o_Side x) (nextTradeID b) x (queue b (opposite (o_Side x))) =
       (mr_Trades r, mr_SelfPrevented r, x', queue b' (opposite (o_Side x)), nextTradeID b')"
    "x' = x\<lparr>o_Quantity := o_Quantity x'\<rparr>"
    "mr_RestingQuantity r = (if o_Type x = Limit \<and> 0 < o_Quantity x' then o_Quantity x' else 0)"
    "queue b' (o_Side x) = (if o_Type x = Limit \<and> 0 < o_Quantity x'
       then spec_insert (o_Side x) x' (queue b (o_Side x)) else queue b (o_Side x))"
    "maxOrderID b' = max (maxOrderID b) (o_SeqID x)"
proof -
  let ?s = "o_Side x"
  from SubmitOrder_total [OF assms(1,2), of now] assms(3)
  have sp: "wf_book b'" "(abs_book b', r, None) = spec_submit now (abs_book b) x" by auto
  then have k: "?s \<in> {Buy, Sell}" "o_Type x \<in> {Limit, Market}"
    by (cases ?s; cases "o_Type x"; auto simp: spec_submit_def split: if_splits prod.splits)+
  obtain ts ids x' ms' tid' where
    sm: "spec_match now ?s (nextTradeID b) x (queue b (opposite ?s)) = (ts, ids, x', ms', tid')"
    by (metis prod_cases5)
  have x': "x' = x\<lparr>o_Quantity := o_Quantity x'\<rparr>" using spec_match_taker [OF sm] by simp
  have "o_Type x' = o_Type x" by (subst x') simp
  with that [of x'] k sp sm x' show ?thesis
    by (auto simp: spec_submit_def abs_book_def Let_def split: if_splits)
qed

lemma queue_positive:
  "wf_book b \<Longrightarrow> s \<in> {Buy, Sell} \<Longrightarrow> m \<in> set (queue b s) \<Longrightarrow> 0 < o_Quantity m"
  using queue_wf_resting by (simp add: wf_resting_def)

lemma filter_spec_insert:
  assumes "o_SeqID x \<notin> o_SeqID ` set ys"
  shows "filter (\<lambda>y. o_SeqID y \<noteq> o_SeqID x) (spec_insert s x ys) = ys"
proof -
  have "filter (\<lambda>y. o_SeqID y \<noteq> o_SeqID x) zs = zs" if "set zs \<subseteq> set ys" for zs
    unfolding filter_id_conv using that assms by (metis image_eqI subsetD)
  moreover have "set (takeWhile P ys) \<subseteq> set ys" "set (dropWhile P ys) \<subseteq> set ys" for P
    by (auto dest: set_takeWhileD set_dropWhileD)
  ultimately show ?thesis by (simp add: spec_insert_def)
qed

lemma find_spec_insert: "x \<in> set (spec_insert s x ys)"
  by (simp add: spec_insert_def)

lemma CancelOwned_total:
  "wf_book b \<Longrightarrow> \<exists>b' e. CancelOwned b i by = Some (b', e) \<and> wf_book b' \<and>
    (abs_book b', e) = spec_cancel (abs_book b) i by"
  by (rule CancelOwned_refines)

text \<open>An owner's cancel of a resting order finds it and deletes it from its queue.\<close>

lemma CancelOwned_resting:
  assumes wf: "wf_book b" and y: "y \<in> set (queue b Buy) \<union> set (queue b Sell)"
    and owner: "by = [] \<or> by = o_Placer y"
  obtains b' where "CancelOwned b (o_SeqID y) by = Some (b', None)" "wf_book b'"
    "\<And>s. s \<in> {Buy, Sell} \<Longrightarrow> queue b' s = filter (\<lambda>z. o_SeqID z \<noteq> o_SeqID y) (queue b s)"
    "nextTradeID b' = nextTradeID b" "maxOrderID b' = maxOrderID b"
proof -
  have fd: "List.find (\<lambda>z. o_SeqID z = o_SeqID y) (queue b Buy @ queue b Sell) = Some y"
  proof (rule find_unique)
    fix z assume "z \<in> set (queue b Buy @ queue b Sell)" "o_SeqID z = o_SeqID y"
    then show "z = y" using queue_id_unique [OF wf _ y] by simp
  qed (use y in auto)
  from CancelOwned_total [OF wf, of "o_SeqID y" "by"] owner fd that show ?thesis
    by (fastforce simp: spec_cancel_def abs_book_def)
qed

lemma CancelOwned_absent:
  assumes "wf_book b" "i \<notin> o_SeqID ` (set (queue b Buy) \<union> set (queue b Sell))"
  shows "CancelOwned b i by = Some (b, Some ErrOrderNotFound)"
proof -
  have "map_of (index b) i = None" using assms index_ids [OF assms(1)] by (simp add: map_of_eq_None_iff)
  then show ?thesis by (simp add: CancelOwned_def)
qed

text \<open>Aggregated depth.\<close>

lemma levelQuantity_offered: "levelQuantity lvl = i64 (offered (map snd (pl_orders lvl)))"
proof -
  have "fold (\<lambda>(_, x) total. add64 total (o_Quantity x)) os (i64 a) = i64 (a + offered (map snd os))" for os a
    by (induction os arbitrary: a) (auto simp: add64_def add.assoc)
  from this [of "pl_orders lvl" 0] show ?thesis by (simp add: levelQuantity_def)
qed

lemma depth_rows:
  assumes "\<And>p. p \<in> set ps \<Longrightarrow> \<exists>lvl. map_of (levels b) p = Some lvl"
  shows "depth b ps = Some (map (\<lambda>p. \<lparr>d_Price = p, d_Quantity = i64 (offered (level_orders b p))\<rparr>) ps)"
  using assms
proof (induction ps)
  case (Cons p ps)
  then obtain lvl where "map_of (levels b) p = Some lvl" by auto
  with Cons show ?case by (simp add: levelQuantity_offered level_orders_def)
qed simp

text \<open>The orders of one price are the queue restricted to that price.\<close>

lemma level_orders_filter:
  assumes wf: "wf_book b" and s: "s \<in> {Buy, Sell}" and p: "p \<in> set (ladder b s)"
  shows "level_orders b p = filter (\<lambda>y. o_Price y = p) (queue b s)"
proof -
  have "wf_ladders b" using wf by (simp add: wf_book_def)
  then have "distinct (ladder b s)" using s wf_ladder_sorted sorted_better_distinct by blast
  moreover have "filter (\<lambda>y. o_Price y = p) (level_orders b q) = (if q = p then level_orders b p else [])" for q
    using level_orders_price(1) [OF wf] by (auto simp: filter_empty_conv filter_id_conv)
  then have "filter (\<lambda>y. o_Price y = p) (queue b s) =
      concat (map (\<lambda>q. if q = p then level_orders b p else []) (ladder b s))"
    by (simp add: queue_def filter_concat comp_def)
  moreover have "distinct l \<Longrightarrow> p \<in> set l \<Longrightarrow>
      concat (map (\<lambda>q. if q = p then level_orders b p else []) l) = level_orders b p" for l
  proof (induction l)
    case (Cons a l)
    have "p \<notin> set l \<Longrightarrow> concat (map (\<lambda>q. if q = p then level_orders b p else []) l) = []"
      by (auto simp: concat_eq_Nil_conv)
    with Cons show ?case by auto
  qed simp
  ultimately show ?thesis using p by simp
qed

section \<open>Histories\<close>

text \<open>The books that some history of submissions and cancels produces from an empty book.\<close>

inductive reachable_book :: "Book \<Rightarrow> bool" where
  new: "reachable_book NewBook"
| submit: "reachable_book b \<Longrightarrow> fresh_order b x \<Longrightarrow> SubmitOrder now b x = Some (b', r, e) \<Longrightarrow> reachable_book b'"
| cancel: "reachable_book b \<Longrightarrow> CancelOwned b i by = Some (b', e) \<Longrightarrow> reachable_book b'"

lemma reachable_wf: "reachable_book b \<Longrightarrow> wf_book b"
proof (induction rule: reachable_book.induct)
  case (submit b x now b' r e)
  then show ?case using SubmitOrder_total [of b x now] by auto
next
  case (cancel b i "by" b' e)
  then show ?case using CancelOwned_total [of b i "by"] by auto
qed simp

lemma wf_uncrossed:
  "wf_book b \<Longrightarrow> BestBid b = Some p \<Longrightarrow> BestAsk b = Some q \<Longrightarrow> p < q"
  by (auto simp: BestBid_def BestAsk_def wf_book_def wf_ladders_def split: list.splits)

section \<open>A book to evaluate the properties on\<close>

definition limit_order :: "SeqID \<Rightarrow> string \<Rightarrow> OrderSide \<Rightarrow> Price \<Rightarrow> int \<Rightarrow> Order" where
  "limit_order i who s p q = \<lparr>o_SeqID = i, o_Symbol = ''NABIL'', o_Placer = who, o_Type = Limit,
     o_Price = p, o_Quantity = q, o_Side = s, o_TimeStamp = 0\<rparr>"

text \<open>Two asks of two accounts at 100 and 101, and a bid of the first at 98.\<close>

definition demo_book :: Book where
  "demo_book = \<lparr>bids = [98], asks = [100, 101],
     index = [(1, \<lparr>ref_level = 100, ref_element = 0\<rparr>), (2, \<lparr>ref_level = 101, ref_element = 1\<rparr>),
       (3, \<lparr>ref_level = 98, ref_element = 2\<rparr>)],
     levels = [(100, \<lparr>pl_price = 100, pl_side = Sell, pl_orders = [(0, limit_order 1 ''ram'' Sell 100 5)]\<rparr>),
       (101, \<lparr>pl_price = 101, pl_side = Sell, pl_orders = [(1, limit_order 2 ''sita'' Sell 101 7)]\<rparr>),
       (98, \<lparr>pl_price = 98, pl_side = Buy, pl_orders = [(2, limit_order 3 ''ram'' Buy 98 4)]\<rparr>)],
     nextTradeID = 0, maxOrderID = 3, nextElem = 3\<rparr>"

definition demo_taker :: Order where
  "demo_taker = limit_order 4 ''hari'' Buy 101 8"

definition demo_clock :: "SeqID \<Rightarrow> Time" where
  "demo_clock i = 1000 + i"

lemma demo_book_wf: "wf_book demo_book"
  by code_simp

lemma demo_taker_fresh: "fresh_order demo_book demo_taker"
  by code_simp

lemma demo_submit:
  "map_option (\<lambda>(b, r, e). (map o_SeqID (queue b Buy), map (\<lambda>x. (o_SeqID x, o_Quantity x)) (queue b Sell),
      map (\<lambda>t. (t_SeqID t, t_MakerSeqID t, t_Price t, t_Quantity t)) (mr_Trades r), e))
     (SubmitOrder demo_clock demo_book demo_taker) =
   Some ([3], [(2, 4)], [(1, 1, 100, 5), (2, 2, 101, 3)], None)"
  by code_simp

lemma demo_submit_trades:
  "map_option (\<lambda>(b, r, e). length (mr_Trades r)) (SubmitOrder demo_clock demo_book demo_taker) = Some 2"
  by code_simp

lemma demo_accepted:
  obtains b' r where "SubmitOrder demo_clock demo_book demo_taker = Some (b', r, None)" "length (mr_Trades r) = 2"
  using demo_submit demo_submit_trades
  by (cases "SubmitOrder demo_clock demo_book demo_taker") auto

section \<open>Properties of the book\<close>

text \<open>
  C5: On every well-formed book, submitting an order with an unused identifier returns (no
  panic, no endless loop), leaves a well-formed book, and the book's two price-time priority
  queues, its counters, the match result and the error are exactly those of the specification
  \<open>spec_submit\<close>.
\<close>

theorem submit_refines_priority_spec:
  assumes "wf_book b" "fresh_order b x"
  shows "\<exists>b' r e. SubmitOrder now b x = Some (b', r, e) \<and> wf_book b' \<and>
    (abs_book b', r, e) = spec_submit now (abs_book b) x"
  using assms by (rule SubmitOrder_total)

theorem submit_refines_priority_spec_witness:
  "\<exists>b' r e. SubmitOrder demo_clock demo_book demo_taker = Some (b', r, e) \<and> wf_book b' \<and>
    (abs_book b', r, e) = spec_submit demo_clock (abs_book demo_book) demo_taker"
  by (rule submit_refines_priority_spec [OF demo_book_wf demo_taker_fresh])

text \<open>
  C14: On every well-formed book, cancelling returns, keeps the book well-formed, and deletes
  exactly the named order from its queue, or reports that it is unknown or owned by another
  account and changes nothing.
\<close>

theorem cancel_refines_deletion:
  assumes "wf_book b"
  shows "\<exists>b' e. CancelOwned b i by = Some (b', e) \<and> wf_book b' \<and>
    (abs_book b', e) = spec_cancel (abs_book b) i by"
  using assms by (rule CancelOwned_total)

theorem cancel_refines_deletion_witness:
  "\<exists>b' e. CancelOwned demo_book 2 ''sita'' = Some (b', e) \<and> wf_book b' \<and>
    (abs_book b', e) = spec_cancel (abs_book demo_book) 2 ''sita''"
  by (rule cancel_refines_deletion [OF demo_book_wf])

text \<open>
  C31: Every trade names a maker that was resting on the other side, executes at that maker's
  price and for at most its quantity, at a price the taker's limit accepts, and never between
  two orders of one account.
\<close>

theorem trades_at_maker_price:
  assumes "wf_book b" "fresh_order b x" "SubmitOrder now b x = Some (b', r, None)" "t \<in> set (mr_Trades r)"
  shows "\<exists>m \<in> set (queue b (opposite (o_Side x))). trade_of (o_Side x) x m t"
  by (rule SubmitOrder_accepted [OF assms(1-3)])
    (use assms(1,4) spec_match_trades queue_positive opposite_side in blast)

theorem trades_at_maker_price_witness:
  "\<exists>b' r t. SubmitOrder demo_clock demo_book demo_taker = Some (b', r, None) \<and> t \<in> set (mr_Trades r) \<and>
    (\<exists>m \<in> set (queue demo_book (opposite (o_Side demo_taker))). trade_of (o_Side demo_taker) demo_taker m t)"
proof -
  obtain b' r where s: "SubmitOrder demo_clock demo_book demo_taker = Some (b', r, None)" "length (mr_Trades r) = 2"
    by (rule demo_accepted)
  then have "hd (mr_Trades r) \<in> set (mr_Trades r)" by (cases "mr_Trades r") auto
  with s trades_at_maker_price [OF demo_book_wf demo_taker_fresh s(1)] show ?thesis by blast
qed

text \<open>
  C13: Price-time priority: the makers an order meets are a prefix of the opposite queue, they
  trade in queue order (except the taker's own orders, which are cancelled and reported), and
  the queue that is left is the rest, behind at most one partly filled maker that kept its
  place at the front.
\<close>

theorem price_time_priority:
  assumes "wf_book b" "fresh_order b x" "SubmitOrder now b x = Some (b', r, None)"
  shows "\<exists>hit rest. queue b (opposite (o_Side x)) = hit @ rest \<and>
    hit_by x hit (mr_Trades r) (mr_SelfPrevented r) \<and>
    left_after hit rest (queue b' (opposite (o_Side x)))"
  by (rule SubmitOrder_accepted [OF assms]) (erule spec_match_prefix)

theorem price_time_priority_witness:
  "\<exists>b' r. SubmitOrder demo_clock demo_book demo_taker = Some (b', r, None) \<and>
    (\<exists>hit rest. queue demo_book (opposite (o_Side demo_taker)) = hit @ rest \<and>
      hit_by demo_taker hit (mr_Trades r) (mr_SelfPrevented r) \<and>
      left_after hit rest (queue b' (opposite (o_Side demo_taker))))"
proof -
  obtain b' r where s: "SubmitOrder demo_clock demo_book demo_taker = Some (b', r, None)"
    by (rule demo_accepted)
  with price_time_priority [OF demo_book_wf demo_taker_fresh s] show ?thesis by auto
qed

lemma spec_match_market:
  assumes "spec_match now s tid x ms = (ts, ids, x', ms', tid')" "o_Type x = Market" "0 < o_Quantity x'"
  shows "ms' = []"
  using assms spec_match_stop [of now s tid x ms ts ids x'] by (cases ms') (auto simp: acceptable_def)

text \<open>
  C30: Quantity is conserved. A LIMIT order's quantity is what traded plus what rests, and what
  the other side loses is what traded plus the cancelled orders of the taker itself.
\<close>

theorem quantity_conserved:
  assumes "wf_book b" "fresh_order b x" "SubmitOrder now b x = Some (b', r, None)"
    and "0 < o_Quantity x" "o_Type x = Limit"
  shows "o_Quantity x = traded (mr_Trades r) + mr_RestingQuantity r \<and>
    (\<exists>prevented. mset prevented \<subseteq># mset (filter (selfMatch x) (queue b (opposite (o_Side x)))) \<and>
      mr_SelfPrevented r = map o_SeqID prevented \<and>
      offered (queue b (opposite (o_Side x))) =
        traded (mr_Trades r) + offered prevented + offered (queue b' (opposite (o_Side x))))"
proof -
  obtain x' where s: "o_Side x \<in> {Buy, Sell}"
    and sm: "spec_match now (o_Side x) (nextTradeID b) x (queue b (opposite (o_Side x))) =
       (mr_Trades r, mr_SelfPrevented r, x', queue b' (opposite (o_Side x)), nextTradeID b')"
    and rq: "mr_RestingQuantity r = (if o_Type x = Limit \<and> 0 < o_Quantity x' then o_Quantity x' else 0)"
    by (rule SubmitOrder_accepted [OF assms(1-3)])
  have "0 \<le> o_Quantity x'"
    using spec_match_quantity [OF sm queue_positive [OF assms(1) opposite_side [OF s]]] assms(4) by simp
  with spec_match_conserves [OF sm] rq assms(5) spec_match_makers [OF sm] show ?thesis by auto
qed

theorem quantity_conserved_witness:
  "\<exists>b' r. SubmitOrder demo_clock demo_book demo_taker = Some (b', r, None) \<and>
    8 = traded (mr_Trades r) + mr_RestingQuantity r"
proof -
  obtain b' r where s: "SubmitOrder demo_clock demo_book demo_taker = Some (b', r, None)"
    by (rule demo_accepted)
  with quantity_conserved [OF demo_book_wf demo_taker_fresh s] show ?thesis
    by (auto simp: demo_taker_def limit_order_def)
qed

text \<open>
  A MARKET order never rests: its own side of the book is untouched, and it trades in full
  unless it emptied the other side, in which case the unfilled part is dropped.
\<close>

lemma market_never_rests:
  assumes "wf_book b" "fresh_order b x" "SubmitOrder now b x = Some (b', r, None)"
    and "0 < o_Quantity x" "o_Type x = Market"
  shows "mr_RestingQuantity r = 0 \<and> queue b' (o_Side x) = queue b (o_Side x) \<and>
    (traded (mr_Trades r) = o_Quantity x \<or>
     traded (mr_Trades r) < o_Quantity x \<and> queue b' (opposite (o_Side x)) = [])"
proof -
  obtain x' where s: "o_Side x \<in> {Buy, Sell}"
    and sm: "spec_match now (o_Side x) (nextTradeID b) x (queue b (opposite (o_Side x))) =
       (mr_Trades r, mr_SelfPrevented r, x', queue b' (opposite (o_Side x)), nextTradeID b')"
    and rq: "mr_RestingQuantity r = (if o_Type x = Limit \<and> 0 < o_Quantity x' then o_Quantity x' else 0)"
    and own: "queue b' (o_Side x) = (if o_Type x = Limit \<and> 0 < o_Quantity x'
       then spec_insert (o_Side x) x' (queue b (o_Side x)) else queue b (o_Side x))"
    by (rule SubmitOrder_accepted [OF assms(1-3)])
  have "0 \<le> o_Quantity x'"
    using spec_match_quantity [OF sm queue_positive [OF assms(1) opposite_side [OF s]]] assms(4) by simp
  with spec_match_conserves [OF sm] spec_match_market [OF sm assms(5)] rq own assms(5) show ?thesis
    by fastforce
qed

definition demo_market :: Order where
  "demo_market = (limit_order 5 ''hari'' Sell 0 9)\<lparr>o_Type := Market\<rparr>"

lemma market_never_rests_witness:
  "\<exists>b' r. SubmitOrder demo_clock demo_book demo_market = Some (b', r, None) \<and>
    mr_RestingQuantity r = 0 \<and> traded (mr_Trades r) \<le> 9"
proof -
  have f: "fresh_order demo_book demo_market" by code_simp
  have "map_option (snd \<circ> snd) (SubmitOrder demo_clock demo_book demo_market) = Some None" by code_simp
  then obtain b' r where s: "SubmitOrder demo_clock demo_book demo_market = Some (b', r, None)" by auto
  with market_never_rests [OF demo_book_wf f s] show ?thesis
    by (auto simp: demo_market_def limit_order_def)
qed

text \<open>
  Trade numbers are dense: the trades of one order carry the next numbers in sequence, and
  the book's counter ends at the last one, as long as it stays in range.
\<close>

lemma trade_ids_dense:
  assumes "wf_book b" "fresh_order b x" "SubmitOrder now b x = Some (b', r, None)"
    and "0 \<le> nextTradeID b" "is_i64 (nextTradeID b + int (length (mr_Trades r)))"
  shows "map t_SeqID (mr_Trades r) =
      map (\<lambda>k. nextTradeID b + 1 + int k) [0..<length (mr_Trades r)] \<and>
    nextTradeID b' = nextTradeID b + int (length (mr_Trades r))"
  by (rule SubmitOrder_accepted [OF assms(1-3)]) (use spec_match_trade_ids assms(4,5) in blast)

lemma trade_ids_dense_witness:
  "\<exists>b' r. SubmitOrder demo_clock demo_book demo_taker = Some (b', r, None) \<and>
    map t_SeqID (mr_Trades r) = [1, 2] \<and> nextTradeID b' = 2"
proof -
  obtain b' r where s: "SubmitOrder demo_clock demo_book demo_taker = Some (b', r, None)" "length (mr_Trades r) = 2"
    by (rule demo_accepted)
  have "nextTradeID demo_book = 0" by (simp add: demo_book_def)
  with s trade_ids_dense [OF demo_book_wf demo_taker_fresh s(1)] show ?thesis
    by (auto simp: is_i64_def upt_rec)
qed

text \<open>
  C12: No history of submissions and cancels, whatever the clock does, produces a crossed book:
  the best bid is always below the best ask, and the whole representation invariant holds.
\<close>

theorem reachable_never_crossed:
  assumes "reachable_book b"
  shows "wf_book b \<and> (\<forall>p q. BestBid b = Some p \<and> BestAsk b = Some q \<longrightarrow> p < q)"
  using reachable_wf [OF assms] wf_uncrossed by blast

theorem reachable_never_crossed_witness:
  "\<exists>b'. reachable_book b' \<and> index b' \<noteq> [] \<and> wf_book b'"
proof -
  have f: "fresh_order NewBook demo_taker" by code_simp
  have "map_option (\<lambda>(b, _). length (index b)) (SubmitOrder demo_clock NewBook demo_taker) = Some 1" by code_simp
  then obtain b' r e where s: "SubmitOrder demo_clock NewBook demo_taker = Some (b', r, e)" "index b' \<noteq> []" by fastforce
  have "reachable_book b'" by (rule reachable_book.submit [OF reachable_book.new f s(1)])
  with s(2) reachable_never_crossed [OF this] show ?thesis by blast
qed

lemma SubmitOrder_rests:
  assumes "wf_book b" "fresh_order b x" "SubmitOrder now b x = Some (b', r, None)" "0 < mr_RestingQuantity r"
  shows "\<exists>y \<in> set (queue b' (o_Side x)). o_SeqID y = o_SeqID x \<and> o_Placer y = o_Placer x \<and>
      o_Quantity y = mr_RestingQuantity r"
    "filter (\<lambda>z. o_SeqID z \<noteq> o_SeqID x) (queue b' (o_Side x)) = queue b (o_Side x)"
    "filter (\<lambda>z. o_SeqID z \<noteq> o_SeqID x) (queue b' (opposite (o_Side x))) = queue b' (opposite (o_Side x))"
proof -
  obtain x' where s: "o_Side x \<in> {Buy, Sell}"
    and sm: "spec_match now (o_Side x) (nextTradeID b) x (queue b (opposite (o_Side x))) =
       (mr_Trades r, mr_SelfPrevented r, x', queue b' (opposite (o_Side x)), nextTradeID b')"
    and x': "x' = x\<lparr>o_Quantity := o_Quantity x'\<rparr>"
    and rq: "mr_RestingQuantity r = (if o_Type x = Limit \<and> 0 < o_Quantity x' then o_Quantity x' else 0)"
    and own: "queue b' (o_Side x) = (if o_Type x = Limit \<and> 0 < o_Quantity x'
       then spec_insert (o_Side x) x' (queue b (o_Side x)) else queue b (o_Side x))"
    by (rule SubmitOrder_accepted [OF assms(1-3)])
  have lim: "o_Type x = Limit" "0 < o_Quantity x'" using rq assms(4) by (auto split: if_splits)
  have i: "o_SeqID x' = o_SeqID x" "o_Placer x' = o_Placer x" by (subst x', simp)+
  have fr: "o_SeqID x \<notin> o_SeqID ` set (queue b t)" if "t \<in> {Buy, Sell}" for t
    using assms(2) that index_ids [OF assms(1)] by (auto simp: fresh_order_def)
  from lim own i rq show "\<exists>y \<in> set (queue b' (o_Side x)). o_SeqID y = o_SeqID x \<and> o_Placer y = o_Placer x \<and>
      o_Quantity y = mr_RestingQuantity r"
    by (intro bexI [of _ x']) (auto simp: find_spec_insert)
  from lim own i fr [OF s] show "filter (\<lambda>z. o_SeqID z \<noteq> o_SeqID x) (queue b' (o_Side x)) = queue b (o_Side x)"
    using filter_spec_insert [of x'] by simp
  from spec_match_ids [OF sm] fr [OF opposite_side [OF s]]
  have "o_SeqID x \<notin> o_SeqID ` set (queue b' (opposite (o_Side x)))" by (meson subsetD)
  then show "filter (\<lambda>z. o_SeqID z \<noteq> o_SeqID x) (queue b' (opposite (o_Side x))) = queue b' (opposite (o_Side x))"
    unfolding filter_id_conv by (metis image_eqI)
qed

text \<open>
  Cancelling undoes resting: when part of an order rests, its placer's cancel succeeds and
  gives the order's side of the book back as it was before the order, with the other side as
  matching left it; a second cancel finds nothing.
\<close>

lemma cancel_undoes_rest:
  assumes "wf_book b" "fresh_order b x" "SubmitOrder now b x = Some (b', r, None)" "0 < mr_RestingQuantity r"
  shows "\<exists>b''. CancelOwned b' (o_SeqID x) (o_Placer x) = Some (b'', None) \<and>
    queue b'' (o_Side x) = queue b (o_Side x) \<and>
    queue b'' (opposite (o_Side x)) = queue b' (opposite (o_Side x)) \<and>
    CancelOwned b'' (o_SeqID x) (o_Placer x) = Some (b'', Some ErrOrderNotFound)"
proof -
  have w: "wf_book b'" "o_Side x \<in> {Buy, Sell}" by (rule SubmitOrder_accepted [OF assms(1-3)], simp)+
  note rests = SubmitOrder_rests [OF assms]
  obtain y where q: "y \<in> set (queue b' (o_Side x))" "o_SeqID y = o_SeqID x" "o_Placer y = o_Placer x"
    using rests(1) by blast
  have y: "y \<in> set (queue b' Buy) \<union> set (queue b' Sell)" "o_SeqID y = o_SeqID x"
    "o_Placer x = [] \<or> o_Placer x = o_Placer y" using q w(2) by auto
  obtain b'' where c: "CancelOwned b' (o_SeqID y) (o_Placer x) = Some (b'', None)" "wf_book b''"
    "\<And>s. s \<in> {Buy, Sell} \<Longrightarrow> queue b'' s = filter (\<lambda>z. o_SeqID z \<noteq> o_SeqID y) (queue b' s)"
    using CancelOwned_resting [OF w(1) y(1,3)] by metis
  have "o_SeqID x \<notin> o_SeqID ` (set (queue b'' Buy) \<union> set (queue b'' Sell))"
    using c(3) [of Buy] c(3) [of Sell] y(2) by auto
  from CancelOwned_absent [OF c(2) this] c rests(2,3) y(2) w(2) opposite_side [OF w(2)] show ?thesis by auto
qed

definition demo_bid :: Order where
  "demo_bid = limit_order 4 ''hari'' Buy 100 8"

lemma cancel_undoes_rest_witness:
  "\<exists>b' r b''. SubmitOrder demo_clock demo_book demo_bid = Some (b', r, None) \<and> mr_RestingQuantity r = 3 \<and>
    CancelOwned b' 4 ''hari'' = Some (b'', None) \<and> queue b'' Buy = queue demo_book Buy"
proof -
  have f: "fresh_order demo_book demo_bid" by code_simp
  have "map_option (\<lambda>(b, r, e). (mr_RestingQuantity r, e)) (SubmitOrder demo_clock demo_book demo_bid) = Some (3, None)"
    by code_simp
  then obtain b' r where s: "SubmitOrder demo_clock demo_book demo_bid = Some (b', r, None)"
    "mr_RestingQuantity r = 3" by auto
  with cancel_undoes_rest [OF demo_book_wf f s(1)] show ?thesis
    by (auto simp: demo_bid_def limit_order_def)
qed

text \<open>
  Replaying an order under another clock rebuilds the same two queues, counters and trades;
  only the time stamps of the trades differ.
\<close>

lemma submit_clock_independent:
  assumes "wf_book b" "fresh_order b x" "SubmitOrder now b x = Some (b', r, e)"
  shows "\<exists>b'' r'. SubmitOrder now' b x = Some (b'', r', e) \<and> abs_book b'' = abs_book b' \<and>
    map untimed (mr_Trades r') = map untimed (mr_Trades r) \<and>
    mr_SelfPrevented r' = mr_SelfPrevented r \<and> mr_RestingQuantity r' = mr_RestingQuantity r"
proof -
  obtain b'' r' e' where o: "SubmitOrder now' b x = Some (b'', r', e')"
    "(abs_book b'', r', e') = spec_submit now' (abs_book b) x"
    using SubmitOrder_total [OF assms(1,2)] by blast
  have "(abs_book b', r, e) = spec_submit now (abs_book b) x"
    using SubmitOrder_total [OF assms(1,2), of now] assms(3) by auto
  moreover obtain ts ids x' ms tid ts' ids' x'' ms' tid' where
    sm: "spec_match now (o_Side x) (a_nextTradeID (abs_book b)) x
        (if o_Side x = Buy then a_sells (abs_book b) else a_buys (abs_book b)) = (ts, ids, x', ms, tid)"
      "spec_match now' (o_Side x) (a_nextTradeID (abs_book b)) x
        (if o_Side x = Buy then a_sells (abs_book b) else a_buys (abs_book b)) = (ts', ids', x'', ms', tid')"
    by (metis prod_cases5)
  moreover have "map untimed ts' = map untimed ts \<and> ids' = ids \<and> x'' = x' \<and> ms' = ms \<and> tid' = tid"
    using spec_match_clock [OF sm(1)] spec_match_clock [OF sm(2)] by simp
  ultimately show ?thesis using o
    by (auto simp: spec_submit_def Let_def split: if_splits)
qed

lemma submit_clock_independent_witness:
  "\<exists>b' r b'' r'. SubmitOrder demo_clock demo_book demo_taker = Some (b', r, None) \<and>
    SubmitOrder (\<lambda>_. 7) demo_book demo_taker = Some (b'', r', None) \<and> abs_book b'' = abs_book b'"
proof -
  obtain b' r where s: "SubmitOrder demo_clock demo_book demo_taker = Some (b', r, None)"
    by (rule demo_accepted)
  with submit_clock_independent [OF demo_book_wf demo_taker_fresh s, of "\<lambda>_. 7"] show ?thesis by blast
qed

text \<open>
  A depth snapshot of a well-formed book never fails. It has one row per ladder price, best
  price first, and a row's quantity is the (64-bit) total of the orders of the queue at that price.
\<close>

lemma snapshot_totals:
  assumes "wf_book b"
  shows "\<exists>bs as. Snapshot b = Some (bs, as) \<and>
    map d_Price bs = bids b \<and> map d_Price as = asks b \<and>
    sorted_wrt (>) (bids b) \<and> sorted_wrt (<) (asks b) \<and>
    (\<forall>d \<in> set bs. d_Quantity d = i64 (offered (filter (\<lambda>y. o_Price y = d_Price d) (queue b Buy)))) \<and>
    (\<forall>d \<in> set as. d_Quantity d = i64 (offered (filter (\<lambda>y. o_Price y = d_Price d) (queue b Sell))))"
proof -
  have w: "sorted_wrt (>) (bids b)" "sorted_wrt (<) (asks b)"
    using assms by (simp_all add: wf_book_def wf_ladders_def better_def [abs_def])
  have lv: "\<exists>lvl. map_of (levels b) p = Some lvl" if "p \<in> set (bids b) \<or> p \<in> set (asks b)" for p
  proof -
    from that consider "p \<in> set (ladder b Buy)" | "p \<in> set (ladder b Sell)" by (auto simp: ladder_def)
    then show ?thesis by cases (meson assms wf_level_exists insertCI)+
  qed
  note d = depth_rows [of "bids b" b] depth_rows [of "asks b" b]
  have "level_orders b p = filter (\<lambda>y. o_Price y = p) (queue b Buy)" if "p \<in> set (bids b)" for p
    using level_orders_filter [OF assms, of Buy p] that by (simp add: ladder_def)
  moreover have "level_orders b p = filter (\<lambda>y. o_Price y = p) (queue b Sell)" if "p \<in> set (asks b)" for p
    using level_orders_filter [OF assms, of Sell p] that by (simp add: ladder_def)
  ultimately show ?thesis using d lv w by (auto simp: Snapshot_def comp_def)
qed

lemma snapshot_totals_witness:
  "\<exists>bs as. Snapshot demo_book = Some (bs, as) \<and> map d_Price bs = [98] \<and> map d_Price as = [100, 101]"
  using snapshot_totals [OF demo_book_wf] by (auto simp: demo_book_def)

end
