(* ===== verification/OMS_Accounts.thy ===== *)
theory OMS_Accounts
  imports OMS_Types
begin

text \<open>
  The account store of \<open>internal/oms/accounts.go\<close>: balances, positions, and the holds that
  the inline pre-trade check places on them. Every exported method holds the store's one lock
  from its first to its last statement, so a method is one atomic function on the record.

  A \<open>*hold\<close> is reachable only through the \<open>holds\<close> map; changing it through the pointer is
  writing the changed value back under its key.
\<close>

section \<open>State\<close>

type_synonym holdKey = "string \<times> SeqID"

record hold =
  h_account :: string
  h_symbol :: string
  h_side :: OrderSide
  h_price :: Price
  h_qty :: int

record Accounts =
  cash :: "(string, int) gomap"
  positions :: "(string, (string, int) gomap) gomap"
  reservedCash :: "(string, int) gomap"
  reservedShares :: "(string, (string, int) gomap) gomap"
  holds :: "(holdKey, hold) gomap"

definition NewAccounts :: Accounts where
  "NewAccounts = \<lparr>cash = [], positions = [], reservedCash = [], reservedShares = [], holds = []\<rparr>"

text \<open>Indexing a missing (nil) inner map reads zero; writing one creates it first.\<close>

definition inner :: "('a, ('b, 'c) gomap) gomap \<Rightarrow> 'a \<Rightarrow> ('b, 'c) gomap" where
  "inner m k = (case map_of m k of None \<Rightarrow> [] | Some i \<Rightarrow> i)"

definition gget2 :: "('a, ('b, int) gomap) gomap \<Rightarrow> 'a \<Rightarrow> 'b \<Rightarrow> int" where
  "gget2 m a b = gget0 (inner m a) b"

section \<open>Balances\<close>

definition Deposit :: "string \<Rightarrow> int \<Rightarrow> Accounts \<Rightarrow> Accounts" where
  "Deposit account amount a = a\<lparr>cash := gput account (add64 (gget0 (cash a) account) amount) (cash a)\<rparr>"

definition setPositionLocked :: "string \<Rightarrow> string \<Rightarrow> int \<Rightarrow> Accounts \<Rightarrow> Accounts" where
  "setPositionLocked account symbol qty a =
     a\<lparr>positions := gput account (gput symbol qty (inner (positions a) account)) (positions a)\<rparr>"

definition SetPosition :: "string \<Rightarrow> string \<Rightarrow> int \<Rightarrow> Accounts \<Rightarrow> Accounts" where
  "SetPosition account symbol qty a = setPositionLocked account symbol qty a"

definition addPositionLocked :: "string \<Rightarrow> string \<Rightarrow> int \<Rightarrow> Accounts \<Rightarrow> Accounts" where
  "addPositionLocked account symbol delta a =
     (let i = inner (positions a) account
      in a\<lparr>positions := gput account (gput symbol (add64 (gget0 i symbol) delta) i) (positions a)\<rparr>)"

definition Cash :: "Accounts \<Rightarrow> string \<Rightarrow> int" where
  "Cash a account = gget0 (cash a) account"

definition Position :: "Accounts \<Rightarrow> string \<Rightarrow> string \<Rightarrow> int" where
  "Position a account symbol = gget2 (positions a) account symbol"

definition ReservedCash :: "Accounts \<Rightarrow> string \<Rightarrow> int" where
  "ReservedCash a account = gget0 (reservedCash a) account"

definition ReservedPosition :: "Accounts \<Rightarrow> string \<Rightarrow> string \<Rightarrow> int" where
  "ReservedPosition a account symbol = gget2 (reservedShares a) account symbol"

definition AvailableCash :: "Accounts \<Rightarrow> string \<Rightarrow> int" where
  "AvailableCash a account = sub64 (gget0 (cash a) account) (gget0 (reservedCash a) account)"

definition AvailablePosition :: "Accounts \<Rightarrow> string \<Rightarrow> string \<Rightarrow> int" where
  "AvailablePosition a account symbol =
     sub64 (gget2 (positions a) account symbol) (gget2 (reservedShares a) account symbol)"

definition existsLocked :: "Accounts \<Rightarrow> string \<Rightarrow> bool" where
  "existsLocked a account \<longleftrightarrow> map_of (cash a) account \<noteq> None \<or> map_of (positions a) account \<noteq> None"

definition Exists :: "Accounts \<Rightarrow> string \<Rightarrow> bool" where
  "Exists a account = existsLocked a account"

definition HoldCount :: "Accounts \<Rightarrow> nat" where
  "HoldCount a = length (holds a)"

section \<open>The pre-trade check\<close>

definition notional :: "Price \<Rightarrow> int \<Rightarrow> Err + int" where
  "notional price quantity =
     (if price < 0 \<or> quantity < 0 then Inl ErrNegativeOperand
      else if quantity \<noteq> 0 \<and> price > quot64 max_i64 quantity then Inl ErrNotionalOverflow
      else Inr (mul64 price quantity))"

definition addReservedSharesLocked :: "string \<Rightarrow> string \<Rightarrow> int \<Rightarrow> Accounts \<Rightarrow> Accounts" where
  "addReservedSharesLocked account symbol delta a =
     (let i = inner (reservedShares a) account;
          v = add64 (gget0 i symbol) delta;
          i1 = gput symbol v i;
          i2 = (if v = 0 then gdel symbol i1 else i1)
      in a\<lparr>reservedShares := gput account i2 (reservedShares a)\<rparr>)"

definition put_hold :: "holdKey \<Rightarrow> hold \<Rightarrow> Accounts \<Rightarrow> Accounts" where
  "put_hold k h a = a\<lparr>holds := gput k h (holds a)\<rparr>"

definition hold_for :: "string \<Rightarrow> OrderSide \<Rightarrow> Price \<Rightarrow> Order \<Rightarrow> hold" where
  "hold_for symbol s p x =
     \<lparr>h_account = o_Placer x, h_symbol = symbol, h_side = s, h_price = p, h_qty = o_Quantity x\<rparr>"

definition add_reserved_cash :: "string \<Rightarrow> int \<Rightarrow> Accounts \<Rightarrow> Accounts" where
  "add_reserved_cash account cost a =
     a\<lparr>reservedCash := gput account (add64 (gget0 (reservedCash a) account) cost) (reservedCash a)\<rparr>"

definition Reserve :: "Order \<Rightarrow> Accounts \<Rightarrow> Accounts \<times> Err option" where
  "Reserve x a =
     (let key = (o_Symbol x, o_SeqID x)
      in if \<not> existsLocked a (o_Placer x) then (a, Some ErrUnknownAccount)
         else if o_Quantity x \<le> 0 then (a, Some ErrQuantityNotPositive)
         else if map_of (holds a) key \<noteq> None then (a, Some ErrDuplicateReservation)
         else if o_Side x = Sell then
           if AvailablePosition a (o_Placer x) (o_Symbol x) < o_Quantity x then (a, Some ErrInsufficientShares)
           else (put_hold key (hold_for (o_Symbol x) Sell (o_Price x) x)
                   (addReservedSharesLocked (o_Placer x) (o_Symbol x) (o_Quantity x) a), None)
         else if o_Type x = Market then
           if AvailableCash a (o_Placer x) \<le> 0 then (a, Some ErrInsufficientFunds)
           else (put_hold key (hold_for (o_Symbol x) Buy 0 x) a, None)
         else (case notional (o_Price x) (o_Quantity x) of
                 Inl e \<Rightarrow> (a, Some e)
               | Inr cost \<Rightarrow>
                   if AvailableCash a (o_Placer x) < cost then (a, Some ErrInsufficientFunds)
                   else (put_hold key (hold_for (o_Symbol x) Buy (o_Price x) x)
                           (add_reserved_cash (o_Placer x) cost a), None)))"

definition RestoreHold :: "string \<Rightarrow> Order \<Rightarrow> Accounts \<Rightarrow> Accounts" where
  "RestoreHold symbol x a =
     (let key = (symbol, o_SeqID x)
      in if map_of (holds a) key \<noteq> None then a
         else if o_Side x = Sell then
           put_hold key (hold_for symbol Sell (o_Price x) x)
             (addReservedSharesLocked (o_Placer x) symbol (o_Quantity x) a)
         else put_hold key (hold_for symbol Buy (o_Price x) x)
           (case notional (o_Price x) (o_Quantity x) of
              Inl _ \<Rightarrow> a
            | Inr cost \<Rightarrow> add_reserved_cash (o_Placer x) cost a))"

section \<open>Release and completion\<close>

text \<open>The changed hold is returned beside the store; the callers below put it back.\<close>

definition shrinkHoldLocked :: "hold \<Rightarrow> int \<Rightarrow> Accounts \<Rightarrow> hold \<times> Accounts" where
  "shrinkHoldLocked h qty0 a =
     (if qty0 \<le> 0 then (h, a)
      else
        let qty = (if qty0 > h_qty h then h_qty h else qty0);
            h' = h\<lparr>h_qty := sub64 (h_qty h) qty\<rparr>
        in if h_side h = Sell then (h', addReservedSharesLocked (h_account h) (h_symbol h) (sub64 0 qty) a)
           else if h_price h = 0 then (h', a)
           else (case notional (h_price h) qty of
                   Inl _ \<Rightarrow> (h', a)
                 | Inr freed \<Rightarrow>
                     let v = sub64 (gget0 (reservedCash a) (h_account h)) freed;
                         rc = gput (h_account h) v (reservedCash a)
                     in (h', a\<lparr>reservedCash := (if v = 0 then gdel (h_account h) rc else rc)\<rparr>)))"

definition del_hold :: "holdKey \<Rightarrow> Accounts \<Rightarrow> Accounts" where
  "del_hold k a = a\<lparr>holds := gdel k (holds a)\<rparr>"

definition releaseLocked :: "holdKey \<Rightarrow> Accounts \<Rightarrow> Accounts" where
  "releaseLocked key a = (case map_of (holds a) key of
     None \<Rightarrow> a
   | Some h \<Rightarrow> let (h', a') = shrinkHoldLocked h (h_qty h) a in del_hold key (put_hold key h' a'))"

definition Release :: "string \<Rightarrow> SeqID \<Rightarrow> Accounts \<Rightarrow> Accounts" where
  "Release symbol orderID a = releaseLocked (symbol, orderID) a"

definition shrinkTradedLocked :: "string \<Rightarrow> SeqID \<Rightarrow> int \<Rightarrow> Accounts \<Rightarrow> Accounts" where
  "shrinkTradedLocked symbol orderID qty a = (case map_of (holds a) (symbol, orderID) of
     None \<Rightarrow> a
   | Some h \<Rightarrow>
       let (h', a') = shrinkHoldLocked h qty a; a'' = put_hold (symbol, orderID) h' a'
       in if h_qty h' = 0 then del_hold (symbol, orderID) a'' else a'')"

text \<open>The body of the loop over the trades in \<open>Complete\<close>.\<close>

definition move_value :: "Trade \<Rightarrow> int \<Rightarrow> Accounts \<Rightarrow> Accounts" where
  "move_value t v a =
     (let a1 = a\<lparr>cash := gput (Buyer t) (sub64 (gget0 (cash a) (Buyer t)) v) (cash a)\<rparr>;
          a2 = a1\<lparr>cash := gput (Seller t) (add64 (gget0 (cash a1) (Seller t)) v) (cash a1)\<rparr>;
          a3 = addPositionLocked (Buyer t) (t_Symbol t) (t_Quantity t) a2
      in addPositionLocked (Seller t) (t_Symbol t) (sub64 0 (t_Quantity t)) a3)"

definition complete_trade :: "string \<Rightarrow> Trade \<Rightarrow> Accounts \<Rightarrow> Accounts" where
  "complete_trade symbol t a = (case notional (t_Price t) (t_Quantity t) of
     Inl _ \<Rightarrow> a
   | Inr v \<Rightarrow>
       shrinkTradedLocked symbol (t_TakerSeqID t) (t_Quantity t)
         (shrinkTradedLocked symbol (t_MakerSeqID t) (t_Quantity t) (move_value t v a)))"

definition Complete ::
  "string \<Rightarrow> SeqID \<Rightarrow> Trade list \<Rightarrow> int \<Rightarrow> SeqID list \<Rightarrow> Accounts \<Rightarrow> Accounts" where
  "Complete symbol orderID trades restingQuantity selfPrevented a =
     (let a1 = fold (complete_trade symbol) trades a;
          a2 = fold (\<lambda>i. releaseLocked (symbol, i)) selfPrevented a1
      in if restingQuantity \<le> 0 then releaseLocked (symbol, orderID) a2 else a2)"

definition LoadBalances ::
  "(string, int) gomap \<Rightarrow> (string, (string, int) gomap) gomap \<Rightarrow> Accounts \<Rightarrow> Accounts \<times> Err option" where
  "LoadBalances cs ps a =
     (if holds a \<noteq> [] then (a, Some (ErrLiveReservations (length (holds a))))
      else
        let a1 = a\<lparr>cash := fold (\<lambda>(k, v). gput k v) cs [], positions := []\<rparr>;
            a2 = fold (\<lambda>(account, bySymbol) a.
                    fold (\<lambda>(symbol, qty). setPositionLocked account symbol qty) bySymbol a) ps a1
        in (a2\<lparr>reservedCash := [], reservedShares := []\<rparr>, None))"

end
