(* ===== verification/OMS_Accounts_Inv.thy ===== *)
theory OMS_Accounts_Inv
  imports OMS_Accounts
begin

text \<open>
  The invariant of the account store: what is reserved is the sum of the holds, account by
  account, modulo the width of the integers. Every operation keeps it. On top of it, solvency:
  as long as orders are LIMIT orders, no account is ever committed beyond what it owns.
\<close>

section \<open>Order values\<close>

lemma int_le_div_iff: "0 < (q::int) \<Longrightarrow> p \<le> m div q \<longleftrightarrow> p * q \<le> m"
proof -
  assume q: "0 < q"
  have "p \<le> m div q \<Longrightarrow> p * q \<le> m div q * q" using q by simp
  moreover have "m div q * q \<le> m" using q by (simp add: pos_mod_sign minus_mod_eq_div_mult [symmetric])
  moreover have "p * q \<le> m \<Longrightarrow> p \<le> m div q"
    using zdiv_mono1 [of "p * q" m q] q by simp
  ultimately show ?thesis by linarith
qed

lemma is_i64_product: "0 \<le> p \<Longrightarrow> 0 \<le> q \<Longrightarrow> is_i64 (p * q) \<longleftrightarrow> p * q \<le> max_i64"
proof -
  assume "0 \<le> p" "0 \<le> q"
  then have "0 \<le> p * q" by (rule mult_nonneg_nonneg)
  then show ?thesis by (auto simp: is_i64_def max_i64_def)
qed

lemma notional_exact:
  assumes "is_i64 p" "is_i64 q"
  shows "notional p q = (if p < 0 \<or> q < 0 then Inl ErrNegativeOperand
    else if p * q \<le> max_i64 then Inr (p * q) else Inl ErrNotionalOverflow)"
proof (cases "p < 0 \<or> q \<le> 0")
  case True
  then show ?thesis by (auto simp: notional_def mul64_def max_i64_def)
next
  case False
  then have pq: "0 \<le> p" "0 < q" by auto
  have "max_i64 div q \<le> max_i64" "0 \<le> max_i64 div q"
    using pq by (simp_all add: max_i64_def int_div_le_self pos_imp_zdiv_nonneg_iff)
  then have "quot64 max_i64 q = max_i64 div q"
    using pq by (simp add: quot64_def max_i64_def is_i64_def)
  moreover have "p \<le> max_i64 div q \<longleftrightarrow> p * q \<le> max_i64"
    using pq by (intro int_le_div_iff) simp
  moreover have "p * q \<le> max_i64 \<Longrightarrow> mul64 p q = p * q"
    using pq by (simp add: mul64_def is_i64_product)
  ultimately show ?thesis using pq by (auto simp: notional_def)
qed

lemma notional_fits:
  assumes "0 \<le> p" "0 \<le> q" "is_i64 (p * q)" "is_i64 p" "is_i64 q"
  shows "notional p q = Inr (p * q)"
  using assms by (simp add: notional_exact is_i64_product)

lemma notional_Inr:
  "notional p q = Inr v \<Longrightarrow> is_i64 p \<Longrightarrow> is_i64 q \<Longrightarrow> 0 \<le> p \<and> 0 \<le> q \<and> v = p * q \<and> is_i64 (p * q)"
  by (auto simp: notional_exact is_i64_product split: if_splits)

section \<open>Lookups after updates\<close>

lemma inner_gput [simp, go_map]: "inner (gput k i m) k' = (if k = k' then i else inner m k')"
  by (simp add: inner_def)

lemma gget2_gput [simp, go_map]:
  "gget2 (gput a i m) a' b = (if a = a' then gget0 i b else gget2 m a' b)"
  by (simp add: gget2_def)

lemma gget2_Nil [simp]: "gget2 [] a b = 0"
  by (simp add: gget2_def inner_def)

lemma addReservedSharesLocked_frame [simp]:
  "cash (addReservedSharesLocked who symb d a) = cash a"
  "positions (addReservedSharesLocked who symb d a) = positions a"
  "reservedCash (addReservedSharesLocked who symb d a) = reservedCash a"
  "holds (addReservedSharesLocked who symb d a) = holds a"
  by (simp_all add: addReservedSharesLocked_def Let_def)

lemma ReservedPosition_add [simp]:
  "gget2 (reservedShares (addReservedSharesLocked who symb d a)) who' symb' =
     (if who' = who \<and> symb' = symb then add64 (gget2 (reservedShares a) who symb) d
      else gget2 (reservedShares a) who' symb')"
  by (auto simp: addReservedSharesLocked_def Let_def gget2_def)

lemma hold_frame [simp]:
  "cash (put_hold k h a) = cash a" "positions (put_hold k h a) = positions a"
  "reservedCash (put_hold k h a) = reservedCash a" "reservedShares (put_hold k h a) = reservedShares a"
  "holds (put_hold k h a) = gput k h (holds a)"
  "cash (del_hold k a) = cash a" "positions (del_hold k a) = positions a"
  "reservedCash (del_hold k a) = reservedCash a" "reservedShares (del_hold k a) = reservedShares a"
  "holds (del_hold k a) = gdel k (holds a)"
  by (simp_all add: put_hold_def del_hold_def)

lemma add_reserved_cash_frame [simp]:
  "cash (add_reserved_cash who c a) = cash a" "positions (add_reserved_cash who c a) = positions a"
  "reservedShares (add_reserved_cash who c a) = reservedShares a" "holds (add_reserved_cash who c a) = holds a"
  "gget0 (reservedCash (add_reserved_cash who c a)) who' =
     (if who' = who then add64 (gget0 (reservedCash a) who) c else gget0 (reservedCash a) who')"
  by (simp_all add: add_reserved_cash_def)

section \<open>The invariant\<close>

definition cash_of_hold :: "string \<Rightarrow> hold \<Rightarrow> int" where
  "cash_of_hold who h = (if h_account h = who \<and> h_side h \<noteq> Sell then h_price h * h_qty h else 0)"

definition shares_of_hold :: "string \<Rightarrow> string \<Rightarrow> hold \<Rightarrow> int" where
  "shares_of_hold who symb h =
     (if h_account h = who \<and> h_side h = Sell \<and> h_symbol h = symb then h_qty h else 0)"

definition held_cash :: "Accounts \<Rightarrow> string \<Rightarrow> int" where
  "held_cash a who = msum (\<lambda>_. cash_of_hold who) (holds a)"

definition held_shares :: "Accounts \<Rightarrow> string \<Rightarrow> string \<Rightarrow> int" where
  "held_shares a who symb = msum (\<lambda>_. shares_of_hold who symb) (holds a)"

definition wf_hold :: "holdKey \<Rightarrow> hold \<Rightarrow> bool" where
  "wf_hold k h \<longleftrightarrow> h_symbol h = fst k \<and> 0 < h_qty h \<and> is_i64 (h_qty h) \<and>
     (h_side h \<noteq> Sell \<longrightarrow> 0 \<le> h_price h \<and> is_i64 (h_price h) \<and> is_i64 (h_price h * h_qty h))"

definition wf_accounts :: "Accounts \<Rightarrow> bool" where
  "wf_accounts a \<longleftrightarrow> gwf (holds a) \<and> (\<forall>(k, h) \<in> set (holds a). wf_hold k h) \<and>
     (\<forall>who. gget0 (reservedCash a) who = i64 (held_cash a who)) \<and>
     (\<forall>who symb. gget2 (reservedShares a) who symb = i64 (held_shares a who symb))"

lemma wf_accountsD:
  assumes "wf_accounts a"
  shows "gwf (holds a)" "\<And>k h. map_of (holds a) k = Some h \<Longrightarrow> wf_hold k h"
    "\<And>who. gget0 (reservedCash a) who = i64 (held_cash a who)"
    "\<And>who symb. gget2 (reservedShares a) who symb = i64 (held_shares a who symb)"
  using assms by (auto simp: wf_accounts_def dest: map_of_SomeD)

lemma wf_NewAccounts [simp]: "wf_accounts NewAccounts"
  by (simp add: wf_accounts_def NewAccounts_def held_cash_def held_shares_def)

lemma held_nonneg:
  assumes "wf_accounts a"
  shows "0 \<le> held_cash a who" "0 \<le> held_shares a who symb"
  unfolding held_cash_def held_shares_def using assms
  by (force intro!: msum_nonneg simp: wf_accounts_def wf_hold_def cash_of_hold_def shares_of_hold_def)+

lemma held_put_hold [simp]:
  "held_cash (put_hold k h a) who =
     held_cash a who - (case map_of (holds a) k of None \<Rightarrow> 0 | Some w \<Rightarrow> cash_of_hold who w) + cash_of_hold who h"
  "held_shares (put_hold k h a) who symb =
     held_shares a who symb - (case map_of (holds a) k of None \<Rightarrow> 0 | Some w \<Rightarrow> shares_of_hold who symb w)
       + shares_of_hold who symb h"
  by (simp_all add: held_cash_def held_shares_def msum_gput)

lemma held_del_hold:
  assumes "gwf (holds a)"
  shows "held_cash (del_hold k a) who =
      held_cash a who - (case map_of (holds a) k of None \<Rightarrow> 0 | Some w \<Rightarrow> cash_of_hold who w)"
    "held_shares (del_hold k a) who symb =
      held_shares a who symb - (case map_of (holds a) k of None \<Rightarrow> 0 | Some w \<Rightarrow> shares_of_hold who symb w)"
  using assms by (simp_all add: held_cash_def held_shares_def msum_gdel)

lemma held_cong: "holds a = holds b \<Longrightarrow> held_cash a = held_cash b \<and> held_shares a = held_shares b"
  by (simp add: held_cash_def held_shares_def fun_eq_iff)

section \<open>Shrinking and releasing\<close>

text \<open>
  Reducing a hold by a quantity takes its value off the reservation and changes nothing else.
\<close>

lemma shrinkHoldLocked_spec:
  assumes "wf_hold k h" "0 < q" "q \<le> h_qty h" and sh: "shrinkHoldLocked h q a = (h', a')"
  shows "h' = h\<lparr>h_qty := h_qty h - q\<rparr>"
    "cash a' = cash a" "positions a' = positions a" "holds a' = holds a"
    "gget0 (reservedCash a') who =
       (if who = h_account h \<and> h_side h \<noteq> Sell \<and> h_price h \<noteq> 0
        then i64 (gget0 (reservedCash a) who - h_price h * q) else gget0 (reservedCash a) who)"
    "gget2 (reservedShares a') who symb =
       (if who = h_account h \<and> h_side h = Sell \<and> symb = h_symbol h
        then i64 (gget2 (reservedShares a) who symb - q) else gget2 (reservedShares a) who symb)"
proof -
  have h: "is_i64 (h_qty h)" "h_side h \<noteq> Sell \<Longrightarrow> 0 \<le> h_price h \<and> is_i64 (h_price h) \<and> is_i64 (h_price h * h_qty h)"
    using assms(1) by (auto simp: wf_hold_def)
  have q: "is_i64 q" "sub64 (h_qty h) q = h_qty h - q"
    using assms h(1) by (auto intro: is_i64_nonneg_le)
  have n: "notional (h_price h) q = Inr (h_price h * q)" if "h_side h \<noteq> Sell"
  proof -
    have le: "h_price h * q \<le> h_price h * h_qty h" using assms h that by (auto intro: mult_left_mono)
    have "is_i64 (h_price h * q)"
      by (rule is_i64_nonneg_le [OF _ le]) (use assms h that in auto)
    then show ?thesis using assms h that q by (intro notional_fits) auto
  qed
  let ?v = "sub64 (gget0 (reservedCash a) (h_account h)) (h_price h * q)"
  let ?rc = "gput (h_account h) ?v (reservedCash a)"
  have e: "h' = h\<lparr>h_qty := h_qty h - q\<rparr>"
    "a' = (if h_side h = Sell then addReservedSharesLocked (h_account h) (h_symbol h) (sub64 0 q) a
       else if h_price h = 0 then a else a\<lparr>reservedCash := (if ?v = 0 then gdel (h_account h) ?rc else ?rc)\<rparr>)"
    using assms(2,3) sh q n by (auto simp: shrinkHoldLocked_def Let_def split: if_splits)
  show "h' = h\<lparr>h_qty := h_qty h - q\<rparr>" by (rule e(1))
  show "cash a' = cash a" "positions a' = positions a" "holds a' = holds a" by (simp_all add: e(2))
  show "gget0 (reservedCash a') who =
       (if who = h_account h \<and> h_side h \<noteq> Sell \<and> h_price h \<noteq> 0
        then i64 (gget0 (reservedCash a) who - h_price h * q) else gget0 (reservedCash a) who)"
    by (simp add: e(2) sub64_def)
  show "gget2 (reservedShares a') who symb =
       (if who = h_account h \<and> h_side h = Sell \<and> symb = h_symbol h
        then i64 (gget2 (reservedShares a) who symb - q) else gget2 (reservedShares a) who symb)"
    by (auto simp: e(2) add64_def sub64_def)
qed

text \<open>What a change of one hold by \<open>q\<close> does to the whole store.\<close>

definition shrunk_to :: "holdKey \<Rightarrow> hold \<Rightarrow> int \<Rightarrow> Accounts \<Rightarrow> Accounts \<Rightarrow> bool" where
  "shrunk_to k h q a a' \<longleftrightarrow> cash a' = cash a \<and> positions a' = positions a \<and> wf_accounts a' \<and>
     map_of (holds a') = (map_of (holds a))(k := (if q = h_qty h then None else Some (h\<lparr>h_qty := h_qty h - q\<rparr>))) \<and>
     (\<forall>who. held_cash a' who = held_cash a who - (cash_of_hold who h - cash_of_hold who (h\<lparr>h_qty := h_qty h - q\<rparr>))) \<and>
     (\<forall>who symb. held_shares a' who symb =
        held_shares a who symb - (shares_of_hold who symb h - shares_of_hold who symb (h\<lparr>h_qty := h_qty h - q\<rparr>)))"

lemma put_or_del_hold_wf:
  assumes a: "wf_accounts a" "map_of (holds a) k = Some h" and q: "0 < q" "q \<le> h_qty h"
    and s: "shrinkHoldLocked h q a = (h', a')"
  shows "shrunk_to k h q a (if h_qty h' = 0 then del_hold k (put_hold k h' a') else put_hold k h' a')"
proof -
  note wa = wf_accountsD [OF a(1)]
  have wh: "wf_hold k h" using a by (rule wf_accountsD(2))
  let ?h = "h\<lparr>h_qty := h_qty h - q\<rparr>" and ?a = "if h_qty h' = 0 then del_hold k (put_hold k h' a') else put_hold k h' a'"
  note sp = shrinkHoldLocked_spec [OF wh q s]
  have hc: "held_cash a' = held_cash a" "held_shares a' = held_shares a" using held_cong [OF sp(4)] by auto
  have g: "gwf (holds (put_hold k ?h a'))" using wa(1) sp(4) by simp
  have cz: "cash_of_hold who ?h = 0" "shares_of_hold who symb ?h = 0" if "h_qty h - q = 0" for who symb
    using that by (auto simp: cash_of_hold_def shares_of_hold_def)
  have c1: "held_cash ?a who = held_cash a who - (cash_of_hold who h - cash_of_hold who ?h)" for who
    using a(2) sp(4) hc cz by (simp add: sp(1) held_del_hold wa(1))
  have c2: "held_shares ?a who symb = held_shares a who symb - (shares_of_hold who symb h - shares_of_hold who symb ?h)" for who symb
    using a(2) sp(4) hc cz by (simp add: sp(1) held_del_hold wa(1))
  have d1: "cash_of_hold who h - cash_of_hold who ?h = (if who = h_account h \<and> h_side h \<noteq> Sell then h_price h * q else 0)" for who
    by (auto simp: cash_of_hold_def algebra_simps)
  have d2: "shares_of_hold who symb h - shares_of_hold who symb ?h =
      (if who = h_account h \<and> h_side h = Sell \<and> symb = h_symbol h then q else 0)" for who symb
    by (auto simp: shares_of_hold_def)
  have w: "wf_hold k ?h" if "h_qty h - q \<noteq> 0"
  proof -
    have r: "0 < h_qty h - q" "h_qty h - q \<le> h_qty h" using that q by simp_all
    have "is_i64 (h_price h * (h_qty h - q))" if "h_side h \<noteq> Sell"
    proof (rule is_i64_nonneg_le)
      show "h_price h * (h_qty h - q) \<le> h_price h * h_qty h" "0 \<le> h_price h * (h_qty h - q)"
        using wh r that by (simp_all add: wf_hold_def mult_left_mono)
      show "is_i64 (h_price h * h_qty h)" using wh that by (simp add: wf_hold_def)
    qed
    moreover have "is_i64 (h_qty h - q)" using r wh is_i64_nonneg_le [OF _ r(2)] by (simp add: wf_hold_def)
    ultimately show ?thesis using wh r by (simp add: wf_hold_def)
  qed
  have "wf_accounts ?a"
    unfolding wf_accounts_def
  proof (intro conjI allI)
    show "gwf (holds ?a)" using wa(1) sp(4) by (simp add: sp(1))
    show "\<forall>(k, h) \<in> set (holds ?a). wf_hold k h"
      using wa(1) a(1) w g sp(4) by (auto simp: sp(1) set_gdel set_gput wf_accounts_def)
    show "gget0 (reservedCash ?a) who = i64 (held_cash ?a who)" for who
      unfolding c1 d1 using sp(5) wa(3) by (auto simp: sp(1))
    show "gget2 (reservedShares ?a) who symb = i64 (held_shares ?a who symb)" for who symb
      unfolding c2 d2 using sp(6) wa(4) by (auto simp: sp(1))
  qed
  with c1 c2 sp show ?thesis by (auto simp: shrunk_to_def fun_eq_iff)
qed

lemma shrinkHoldLocked_clip:
  "h_qty h < q \<Longrightarrow> 0 < h_qty h \<Longrightarrow> shrinkHoldLocked h q a = shrinkHoldLocked h (h_qty h) a"
  by (simp add: shrinkHoldLocked_def)

lemma shrinkTradedLocked_spec:
  assumes "wf_accounts a" "map_of (holds a) (symb, i) = Some h" "0 < q"
  shows "shrunk_to (symb, i) h (min q (h_qty h)) a (shrinkTradedLocked symb i q a)"
proof -
  have h: "0 < h_qty h" using wf_accountsD(2) [OF assms(1,2)] by (simp add: wf_hold_def)
  have "shrinkHoldLocked h q a = shrinkHoldLocked h (min q (h_qty h)) a"
    using h shrinkHoldLocked_clip [of h q a] by (auto simp: min_def)
  then show ?thesis
    using put_or_del_hold_wf [OF assms(1,2), of "min q (h_qty h)"] h assms(3)
    by (simp add: shrinkTradedLocked_def assms(2) Let_def split: prod.split)
qed

lemma releaseLocked_spec:
  assumes "wf_accounts a" "map_of (holds a) k = Some h"
  shows "shrunk_to k h (h_qty h) a (releaseLocked k a)"
proof -
  note wh = wf_accountsD(2) [OF assms]
  have h: "0 < h_qty h" using wh by (simp add: wf_hold_def)
  obtain h' a' where s: "shrinkHoldLocked h (h_qty h) a = (h', a')" by (cases "shrinkHoldLocked h (h_qty h) a")
  have "h_qty h' = 0" using shrinkHoldLocked_spec(1) [OF wh h order.refl s] by simp
  with put_or_del_hold_wf [OF assms h order.refl s] show ?thesis
    by (simp add: releaseLocked_def assms(2) s)
qed

lemma releaseLocked_absent [simp]: "map_of (holds a) k = None \<Longrightarrow> releaseLocked k a = a"
  by (simp add: releaseLocked_def)

lemma shrinkTradedLocked_absent [simp]: "map_of (holds a) (symb, i) = None \<Longrightarrow> shrinkTradedLocked symb i q a = a"
  by (simp add: shrinkTradedLocked_def)

lemma shrinkTradedLocked_nonpos:
  assumes "wf_accounts a" "q \<le> 0"
  shows "shrinkTradedLocked symb i q a = a"
proof (cases "map_of (holds a) (symb, i)")
  case (Some h)
  with wf_accountsD(2) [OF assms(1) Some] assms(2) show ?thesis
    by (simp add: shrinkTradedLocked_def shrinkHoldLocked_def put_hold_def gput_same wf_hold_def)
qed simp

lemma shrunk_to_wf: "shrunk_to k h q a a' \<Longrightarrow> wf_accounts a'"
  by (simp add: shrunk_to_def)

lemma wf_releaseLocked [simp]: "wf_accounts a \<Longrightarrow> wf_accounts (releaseLocked k a)"
  by (cases "map_of (holds a) k") (auto dest: releaseLocked_spec shrunk_to_wf)

lemma wf_shrinkTradedLocked [simp]: "wf_accounts a \<Longrightarrow> wf_accounts (shrinkTradedLocked symb i q a)"
  by (cases "0 < q"; cases "map_of (holds a) (symb, i)")
    (auto simp: shrinkTradedLocked_nonpos dest: shrinkTradedLocked_spec shrunk_to_wf)

section \<open>Reserving\<close>

lemma wf_put_new:
  assumes a: "wf_accounts a" "map_of (holds a) k = None" and h: "wf_hold k h" and e: "holds a' = holds a"
    and c: "\<And>who. gget0 (reservedCash a') who = i64 (gget0 (reservedCash a) who + cash_of_hold who h)"
    and s: "\<And>who symb. gget2 (reservedShares a') who symb = i64 (gget2 (reservedShares a) who symb + shares_of_hold who symb h)"
  shows "wf_accounts (put_hold k h a')"
proof -
  have "held_cash a' = held_cash a" "held_shares a' = held_shares a" using held_cong [OF e] by auto
  with a h e wf_accountsD [OF a(1)] show ?thesis
    by (auto simp: wf_accounts_def c s set_gput)
qed

text \<open>The hold an order asks for, and the cash and shares it takes out of the available ones.\<close>

definition asked_hold :: "Order \<Rightarrow> hold" where
  "asked_hold x = hold_for (o_Symbol x) (if o_Side x = Sell then Sell else Buy)
     (if o_Side x \<noteq> Sell \<and> o_Type x = Market then 0 else o_Price x) x"

definition i64_order :: "Order \<Rightarrow> bool" where
  "i64_order x \<longleftrightarrow> is_i64 (o_Price x) \<and> is_i64 (o_Quantity x) \<and> is_i64 (o_SeqID x)"

lemma Reserve_ok:
  assumes a: "wf_accounts a" and x: "i64_order x" and r: "Reserve x a = (a', None)"
  shows "wf_accounts a'" "map_of (holds a) (o_Symbol x, o_SeqID x) = None" "existsLocked a (o_Placer x)"
    "map_of (holds a') = (map_of (holds a))((o_Symbol x, o_SeqID x) \<mapsto> asked_hold x)"
    "cash a' = cash a" "positions a' = positions a" "wf_hold (o_Symbol x, o_SeqID x) (asked_hold x)"
    "held_cash a' who = held_cash a who + cash_of_hold who (asked_hold x)"
    "held_shares a' who symb = held_shares a who symb + shares_of_hold who symb (asked_hold x)"
    "o_Side x = Sell \<Longrightarrow> o_Quantity x \<le> AvailablePosition a (o_Placer x) (o_Symbol x)"
    "o_Side x \<noteq> Sell \<Longrightarrow> o_Type x \<noteq> Market \<Longrightarrow> o_Price x * o_Quantity x \<le> AvailableCash a (o_Placer x)"
proof -
  let ?k = "(o_Symbol x, o_SeqID x)"
  have q: "existsLocked a (o_Placer x)" "0 < o_Quantity x" "map_of (holds a) ?k = None"
    using r by (auto simp: Reserve_def Let_def split: if_splits)
  consider (sell) "o_Side x = Sell" | (market) "o_Side x \<noteq> Sell" "o_Type x = Market"
    | (buy) "o_Side x \<noteq> Sell" "o_Type x \<noteq> Market" by blast
  then obtain b where b: "a' = put_hold ?k (asked_hold x) b" "holds b = holds a" "cash b = cash a"
    "positions b = positions a" "wf_hold ?k (asked_hold x)"
    "\<forall>who. gget0 (reservedCash b) who = i64 (gget0 (reservedCash a) who + cash_of_hold who (asked_hold x))"
    "\<forall>who symb. gget2 (reservedShares b) who symb = i64 (gget2 (reservedShares a) who symb + shares_of_hold who symb (asked_hold x))"
    "o_Side x = Sell \<longrightarrow> o_Quantity x \<le> AvailablePosition a (o_Placer x) (o_Symbol x)"
    "o_Side x \<noteq> Sell \<longrightarrow> o_Type x \<noteq> Market \<longrightarrow> o_Price x * o_Quantity x \<le> AvailableCash a (o_Placer x)"
  proof cases
    case sell
    with r q x that [of "addReservedSharesLocked (o_Placer x) (o_Symbol x) (o_Quantity x) a"] wf_accountsD [OF a]
    show ?thesis
      by (auto simp: Reserve_def Let_def asked_hold_def hold_for_def wf_hold_def i64_order_def cash_of_hold_def
          shares_of_hold_def add64_def split: if_splits)
  next
    case market
    with r q x that [of a] wf_accountsD [OF a] show ?thesis
      by (auto simp: Reserve_def Let_def asked_hold_def hold_for_def wf_hold_def i64_order_def cash_of_hold_def
          shares_of_hold_def split: if_splits)
  next
    case buy
    with r q obtain c where c: "notional (o_Price x) (o_Quantity x) = Inr c" "c \<le> AvailableCash a (o_Placer x)"
      by (auto simp: Reserve_def Let_def split: if_splits sum.splits)
    then have c': "c = o_Price x * o_Quantity x" "0 \<le> o_Price x" "is_i64 (o_Price x * o_Quantity x)"
      using notional_Inr [OF c(1)] x by (auto simp: i64_order_def)
    with buy r q x c that [of "add_reserved_cash (o_Placer x) c a"] wf_accountsD [OF a] show ?thesis
      by (auto simp: Reserve_def Let_def asked_hold_def hold_for_def wf_hold_def i64_order_def cash_of_hold_def
          shares_of_hold_def add64_def split: if_splits)
  qed
  have hb: "held_cash b = held_cash a" "held_shares b = held_shares a" using held_cong [OF b(2)] by auto
  show "wf_accounts a'" unfolding b(1) by (rule wf_put_new [OF a q(3) b(5,2)]) (use b(6,7) in auto)
  show "held_cash a' who = held_cash a who + cash_of_hold who (asked_hold x)"
    "held_shares a' who symb = held_shares a who symb + shares_of_hold who symb (asked_hold x)"
    using b(1,2) hb q(3) by simp_all
  show "map_of (holds a) ?k = None" "existsLocked a (o_Placer x)" by (rule q)+
  show "map_of (holds a') = (map_of (holds a))(?k \<mapsto> asked_hold x)" "cash a' = cash a" "positions a' = positions a"
    using b by simp_all
  show "wf_hold ?k (asked_hold x)" by (rule b(5))
  show "o_Side x = Sell \<Longrightarrow> o_Quantity x \<le> AvailablePosition a (o_Placer x) (o_Symbol x)"
    "o_Side x \<noteq> Sell \<Longrightarrow> o_Type x \<noteq> Market \<Longrightarrow> o_Price x * o_Quantity x \<le> AvailableCash a (o_Placer x)"
    using b(8,9) by auto
qed

lemma Reserve_rejected: "Reserve x a = (a', Some e) \<Longrightarrow> a' = a"
  by (auto simp: Reserve_def Let_def split: if_splits sum.splits)

lemma wf_Reserve: "wf_accounts a \<Longrightarrow> i64_order x \<Longrightarrow> wf_accounts (fst (Reserve x a))"
  using Reserve_ok(1) [of a x] Reserve_rejected [of x a]
  by (cases "Reserve x a"; cases "snd (Reserve x a)") auto

text \<open>An order that may rest in a recovered book: its value passed the check when it was accepted.\<close>

definition was_reservable :: "Order \<Rightarrow> bool" where
  "was_reservable x \<longleftrightarrow> i64_order x \<and> 0 < o_Quantity x \<and>
     (o_Side x \<noteq> Sell \<longrightarrow> 0 \<le> o_Price x \<and> is_i64 (o_Price x * o_Quantity x))"

definition restored_hold :: "string \<Rightarrow> Order \<Rightarrow> hold" where
  "restored_hold symb x = hold_for symb (if o_Side x = Sell then Sell else Buy) (o_Price x) x"

lemma RestoreHold_spec:
  assumes a: "wf_accounts a" and x: "was_reservable x" and n: "map_of (holds a) (symb, o_SeqID x) = None"
  shows "wf_accounts (RestoreHold symb x a)"
    "map_of (holds (RestoreHold symb x a)) = (map_of (holds a))((symb, o_SeqID x) \<mapsto> restored_hold symb x)"
    "cash (RestoreHold symb x a) = cash a" "positions (RestoreHold symb x a) = positions a"
proof -
  have h: "wf_hold (symb, o_SeqID x) (restored_hold symb x)"
    using x by (auto simp: wf_hold_def restored_hold_def hold_for_def was_reservable_def i64_order_def)
  define b where "b = (if o_Side x = Sell then addReservedSharesLocked (o_Placer x) symb (o_Quantity x) a
    else add_reserved_cash (o_Placer x) (o_Price x * o_Quantity x) a)"
  have "o_Side x \<noteq> Sell \<Longrightarrow> notional (o_Price x) (o_Quantity x) = Inr (o_Price x * o_Quantity x)"
    using x by (intro notional_fits) (auto simp: was_reservable_def i64_order_def)
  with n have e: "RestoreHold symb x a = put_hold (symb, o_SeqID x) (restored_hold symb x) b"
    by (auto simp: RestoreHold_def Let_def b_def restored_hold_def)
  have b: "holds b = holds a" "cash b = cash a" "positions b = positions a" by (simp_all add: b_def)
  show "wf_accounts (RestoreHold symb x a)"
    unfolding e
    by (rule wf_put_new [OF a n h b(1)])
      (use wf_accountsD(3,4) [OF a] in \<open>auto simp: b_def restored_hold_def hold_for_def cash_of_hold_def
         shares_of_hold_def add64_def\<close>)
  show "map_of (holds (RestoreHold symb x a)) = (map_of (holds a))((symb, o_SeqID x) \<mapsto> restored_hold symb x)"
    "cash (RestoreHold symb x a) = cash a" "positions (RestoreHold symb x a) = positions a"
    using b by (simp_all add: e)
qed

lemma RestoreHold_present: "map_of (holds a) (symb, o_SeqID x) = Some h \<Longrightarrow> RestoreHold symb x a = a"
  by (simp add: RestoreHold_def)

section \<open>Completing\<close>

lemma wf_accounts_balances:
  "holds a' = holds a \<Longrightarrow> reservedCash a' = reservedCash a \<Longrightarrow> reservedShares a' = reservedShares a \<Longrightarrow>
   wf_accounts a' = wf_accounts a"
  using held_cong [of a' a] by (simp add: wf_accounts_def)

lemma addPositionLocked_frame [simp]:
  "cash (addPositionLocked who symb d a) = cash a" "holds (addPositionLocked who symb d a) = holds a"
  "reservedCash (addPositionLocked who symb d a) = reservedCash a"
  "reservedShares (addPositionLocked who symb d a) = reservedShares a"
  by (simp_all add: addPositionLocked_def Let_def)

lemma gget2_addPositionLocked [simp]:
  "gget2 (positions (addPositionLocked who symb d a)) who' symb' =
     (if who' = who \<and> symb' = symb then add64 (gget2 (positions a) who symb) d else gget2 (positions a) who' symb')"
  by (auto simp: addPositionLocked_def Let_def gget2_def)

lemma move_value_frame [simp]:
  "holds (move_value t v a) = holds a" "reservedCash (move_value t v a) = reservedCash a"
  "reservedShares (move_value t v a) = reservedShares a"
  by (simp_all add: move_value_def Let_def)

lemma wf_move_value [simp]: "wf_accounts (move_value t v a) = wf_accounts a"
  by (rule wf_accounts_balances) simp_all

lemma wf_complete_trade [simp]: "wf_accounts a \<Longrightarrow> wf_accounts (complete_trade symb t a)"
  by (simp add: complete_trade_def split: sum.split)

lemma wf_Complete:
  assumes "wf_accounts a"
  shows "wf_accounts (Complete symb i ts rq ids a)"
proof -
  have "wf_accounts (fold (complete_trade symb) ts a)"
    using assms by (induction ts arbitrary: a) auto
  then have "wf_accounts (fold (\<lambda>i. releaseLocked (symb, i)) ids (fold (complete_trade symb) ts a))"
    by (induction ids arbitrary: ts rule: rev_induct) auto
  then show ?thesis by (simp add: Complete_def Let_def)
qed

lemma wf_Release [simp]: "wf_accounts a \<Longrightarrow> wf_accounts (Release symb i a)"
  by (simp add: Release_def)

lemma wf_Deposit [simp]: "wf_accounts (Deposit who n a) = wf_accounts a"
  by (rule wf_accounts_balances) (simp_all add: Deposit_def)

lemma setPositionLocked_frame [simp]:
  "cash (setPositionLocked who symb n a) = cash a" "holds (setPositionLocked who symb n a) = holds a"
  "reservedCash (setPositionLocked who symb n a) = reservedCash a"
  "reservedShares (setPositionLocked who symb n a) = reservedShares a"
  "gget2 (positions (setPositionLocked who symb n a)) who' symb' =
     (if who' = who \<and> symb' = symb then n else gget2 (positions a) who' symb')"
  by (auto simp: setPositionLocked_def gget2_def)

lemma wf_SetPosition [simp]: "wf_accounts (SetPosition who symb n a) = wf_accounts a"
  unfolding SetPosition_def by (rule wf_accounts_balances) simp_all

section \<open>Totals\<close>

text \<open>
  The cash of all accounts together, and the shares of one symbol of all accounts together.
\<close>

definition total_cash :: "Accounts \<Rightarrow> int" where
  "total_cash a = msum (\<lambda>_ v. v) (cash a)"

definition total_shares :: "string \<Rightarrow> Accounts \<Rightarrow> int" where
  "total_shares symb a = msum (\<lambda>_ i. gget0 i symb) (positions a)"

lemma total_cash_put:
  "msum (\<lambda>_ v. v) (gput k v m) = msum (\<lambda>_ v. v) m - gget0 m k + v"
  by (simp add: msum_gput gget0_def split: option.split)

lemma total_shares_put:
  "msum (\<lambda>_ i. gget0 i symb) (gput k i m) = msum (\<lambda>_ i. gget0 i symb) m - gget2 m k symb + gget0 i symb"
  by (simp add: msum_gput gget2_def inner_def split: option.split)

lemma cong_i64: "i64 x = i64 y \<Longrightarrow> i64 (z + x) = i64 (z + y)"
  by (metis i64_add_right)

lemma total_shares_add [simp]:
  "i64 (total_shares symb (addPositionLocked who symb' d a)) =
     i64 (total_shares symb a + (if symb = symb' then d else 0))"
proof -
  have "i64 (msum (\<lambda>_ i. gget0 i symb) (positions a) - gget2 (positions a) who symb + add64 (gget2 (positions a) who symb) d) =
      i64 (msum (\<lambda>_ i. gget0 i symb) (positions a) + d)"
    by (simp add: add64_def)
  then show ?thesis
    by (auto simp: total_shares_def addPositionLocked_def Let_def total_shares_put gget2_def)
qed

lemma move_value_totals:
  "i64 (total_cash (move_value t v a)) = i64 (total_cash a)"
  "i64 (total_shares symb (move_value t v a)) = i64 (total_shares symb a)"
proof -
  have "total_cash (move_value t v a) = total_cash a - gget0 (cash a) (Buyer t) + sub64 (gget0 (cash a) (Buyer t)) v
      - gget0 (gput (Buyer t) (sub64 (gget0 (cash a) (Buyer t)) v) (cash a)) (Seller t)
      + add64 (gget0 (gput (Buyer t) (sub64 (gget0 (cash a) (Buyer t)) v) (cash a)) (Seller t)) v"
    by (simp add: move_value_def Let_def total_cash_def total_cash_put)
  moreover have "i64 (T - c + sub64 c v - d + add64 d v) = i64 T" for T c d
  proof -
    have "i64 (T - c + sub64 c v - d + add64 d v) = i64 (T - c + sub64 c v - d + (d + v))"
      by (simp add: add64_def)
    also have "\<dots> = i64 ((T - c + v) + sub64 c v)" by (simp add: algebra_simps)
    also have "\<dots> = i64 T" by (simp add: sub64_def)
    finally show ?thesis .
  qed
  ultimately show "i64 (total_cash (move_value t v a)) = i64 (total_cash a)" by simp
  show "i64 (total_shares symb (move_value t v a)) = i64 (total_shares symb a)"
  proof -
    let ?a2 = "a\<lparr>cash := gput (Seller t) (add64 (gget0 (gput (Buyer t) (sub64 (gget0 (cash a) (Buyer t)) v) (cash a)) (Seller t)) v)
      (gput (Buyer t) (sub64 (gget0 (cash a) (Buyer t)) v) (cash a))\<rparr>"
    let ?q = "if symb = t_Symbol t then t_Quantity t else 0"
    let ?a3 = "addPositionLocked (Buyer t) (t_Symbol t) (t_Quantity t) ?a2"
    have "i64 (total_shares symb (move_value t v a)) = i64 (total_shares symb ?a3 + (if symb = t_Symbol t then sub64 0 (t_Quantity t) else 0))"
      by (simp add: move_value_def Let_def)
    also have "\<dots> = i64 (total_shares symb ?a3 - ?q)" by (simp add: sub64_def)
    also have "\<dots> = i64 (i64 (total_shares symb ?a2 + ?q) - ?q)"
      using total_shares_add [of symb "Buyer t" "t_Symbol t" "t_Quantity t" ?a2] by (metis i64_diff_left)
    also have "\<dots> = i64 (total_shares symb a)" by (simp add: total_shares_def)
    finally show ?thesis .
  qed
qed

lemma shrunk_to_balances: "shrunk_to k h q a a' \<Longrightarrow> cash a' = cash a \<and> positions a' = positions a"
  by (simp add: shrunk_to_def)

lemma shrinkTradedLocked_balances:
  "wf_accounts a \<Longrightarrow> cash (shrinkTradedLocked symb i q a) = cash a \<and> positions (shrinkTradedLocked symb i q a) = positions a"
  by (cases "0 < q"; cases "map_of (holds a) (symb, i)")
    (auto simp: shrinkTradedLocked_nonpos dest: shrinkTradedLocked_spec shrunk_to_balances)

lemma releaseLocked_balances:
  "wf_accounts a \<Longrightarrow> cash (releaseLocked k a) = cash a \<and> positions (releaseLocked k a) = positions a"
  by (cases "map_of (holds a) k") (auto dest: releaseLocked_spec shrunk_to_balances)

lemma total_cong: "cash a = cash b \<Longrightarrow> positions a = positions b \<Longrightarrow>
    total_cash a = total_cash b \<and> total_shares symb a = total_shares symb b"
  by (simp add: total_cash_def total_shares_def)

lemma complete_trade_totals:
  assumes "wf_accounts a"
  shows "i64 (total_cash (complete_trade symb t a)) = i64 (total_cash a) \<and>
    i64 (total_shares s (complete_trade symb t a)) = i64 (total_shares s a)"
proof (cases "notional (t_Price t) (t_Quantity t)")
  case (Inr v)
  let ?a1 = "move_value t v a" and ?a2 = "shrinkTradedLocked symb (t_MakerSeqID t) (t_Quantity t) (move_value t v a)"
  have "total_cash (complete_trade symb t a) = total_cash ?a1 \<and> total_shares s (complete_trade symb t a) = total_shares s ?a1"
    using shrinkTradedLocked_balances [of ?a1 symb "t_MakerSeqID t" "t_Quantity t"]
      shrinkTradedLocked_balances [of ?a2 symb "t_TakerSeqID t" "t_Quantity t"] assms
    by (intro total_cong) (simp_all add: complete_trade_def Inr)
  then show ?thesis by (simp add: move_value_totals)
qed (simp add: complete_trade_def)

lemma Complete_totals:
  assumes "wf_accounts a"
  shows "i64 (total_cash (Complete symb i ts rq ids a)) = i64 (total_cash a) \<and>
    i64 (total_shares s (Complete symb i ts rq ids a)) = i64 (total_shares s a)"
proof -
  let ?a1 = "fold (complete_trade symb) ts a"
  have 1: "wf_accounts ?a1 \<and> i64 (total_cash ?a1) = i64 (total_cash a) \<and> i64 (total_shares s ?a1) = i64 (total_shares s a)"
    using assms by (induction ts arbitrary: a) (auto simp: complete_trade_totals)
  have rel: "total_cash (releaseLocked k b) = total_cash b \<and> total_shares s (releaseLocked k b) = total_shares s b"
    if "wf_accounts b" for k b
    using releaseLocked_balances [OF that] by (intro total_cong) auto
  have "wf_accounts b \<Longrightarrow> wf_accounts (fold (\<lambda>i. releaseLocked (symb, i)) ids b) \<and>
      total_cash (fold (\<lambda>i. releaseLocked (symb, i)) ids b) = total_cash b \<and>
      total_shares s (fold (\<lambda>i. releaseLocked (symb, i)) ids b) = total_shares s b" for b
    by (induction ids arbitrary: b) (auto simp: rel)
  with 1 show ?thesis by (auto simp: Complete_def Let_def rel)
qed

section \<open>Solvency\<close>

text \<open>
  No account is committed beyond what it owns, and all that is owned fits the integers.
\<close>

definition solvent :: "Accounts \<Rightarrow> bool" where
  "solvent a \<longleftrightarrow> wf_accounts a \<and> gwf (cash a) \<and> gwf (positions a) \<and>
     (\<forall>who. held_cash a who \<le> gget0 (cash a) who) \<and>
     (\<forall>who symb. held_shares a who symb \<le> gget2 (positions a) who symb) \<and>
     total_cash a \<le> max_i64 \<and> (\<forall>symb. total_shares symb a \<le> max_i64)"

lemma msum_two:
  assumes "gwf m" "\<And>k v. (k, v) \<in> set m \<Longrightarrow> 0 \<le> f k v" "k \<noteq> l"
  shows "(case map_of m k of None \<Rightarrow> 0 | Some v \<Rightarrow> f k v) + (case map_of m l of None \<Rightarrow> 0 | Some v \<Rightarrow> f l v) \<le> msum f m"
proof -
  have "0 \<le> msum f (gdel l (gdel k m))" using assms(2) by (auto intro!: msum_nonneg simp: set_gdel)
  also have "\<dots> = msum f m - (case map_of m k of None \<Rightarrow> 0 | Some v \<Rightarrow> f k v) - (case map_of m l of None \<Rightarrow> 0 | Some v \<Rightarrow> f l v)"
    using assms(1,3) by (simp add: msum_gdel)
  finally show ?thesis by simp
qed

lemma msum_one:
  assumes "gwf m" "\<And>k v. (k, v) \<in> set m \<Longrightarrow> 0 \<le> f k v"
  shows "(case map_of m k of None \<Rightarrow> 0 | Some v \<Rightarrow> f k v) \<le> msum f m"
proof -
  have "0 \<le> msum f (gdel k m)" using assms(2) by (auto intro!: msum_nonneg simp: set_gdel)
  then show ?thesis using assms(1) by (simp add: msum_gdel)
qed

lemma solvent_nonneg:
  assumes "solvent a"
  shows "0 \<le> gget0 (cash a) who" "0 \<le> gget2 (positions a) who symb"
  using assms held_nonneg [of a] by (meson order.trans solvent_def)+

lemma solvent_entries:
  assumes "solvent a"
  shows "(k, v) \<in> set (cash a) \<Longrightarrow> 0 \<le> v" "(k, i) \<in> set (positions a) \<Longrightarrow> 0 \<le> gget0 i symb"
  using solvent_nonneg [OF assms, of k] assms
  by (auto simp: solvent_def gget0_def gget2_def inner_def dest: map_of_is_SomeI)

lemma solvent_bounds:
  assumes "solvent a"
  shows "gget0 (cash a) who \<le> max_i64" "gget2 (positions a) who symb \<le> max_i64"
    "who \<noteq> who' \<Longrightarrow> gget0 (cash a) who + gget0 (cash a) who' \<le> max_i64"
    "who \<noteq> who' \<Longrightarrow> gget2 (positions a) who symb + gget2 (positions a) who' symb \<le> max_i64"
proof -
  have g: "gwf (cash a)" "gwf (positions a)" "total_cash a \<le> max_i64" "total_shares symb a \<le> max_i64"
    using assms by (auto simp: solvent_def)
  have e: "gget2 (positions a) w symb = (case map_of (positions a) w of None \<Rightarrow> 0 | Some i \<Rightarrow> gget0 i symb)" for w
    by (simp add: gget2_def inner_def split: option.split)
  note n = solvent_entries [OF assms]
  show "gget0 (cash a) who \<le> max_i64"
    using msum_one [OF g(1), of "\<lambda>_ v. v" who] n(1) g(3) by (simp add: gget0_def total_cash_def)
  show "gget2 (positions a) who symb \<le> max_i64"
    using msum_one [OF g(2), of "\<lambda>_ i. gget0 i symb" who] n(2) g(4) by (simp add: e total_shares_def)
  show "gget0 (cash a) who + gget0 (cash a) who' \<le> max_i64" if "who \<noteq> who'"
    using msum_two [OF g(1) _ that, of "\<lambda>_ v. v"] n(1) g(3) by (simp add: gget0_def total_cash_def)
  show "gget2 (positions a) who symb + gget2 (positions a) who' symb \<le> max_i64" if "who \<noteq> who'"
    using msum_two [OF g(2) _ that, of "\<lambda>_ i. gget0 i symb"] n(2) g(4) by (simp add: e total_shares_def)
qed

lemma solvent_available:
  assumes "solvent a"
  shows "AvailableCash a who = gget0 (cash a) who - held_cash a who"
    "AvailablePosition a who symb = gget2 (positions a) who symb - held_shares a who symb"
proof -
  have w: "wf_accounts a" "held_cash a who \<le> gget0 (cash a) who" "held_shares a who symb \<le> gget2 (positions a) who symb"
    using assms by (auto simp: solvent_def)
  note b = solvent_bounds(1,2) [OF assms, of who] held_nonneg [OF w(1), of who] wf_accountsD(3,4) [OF w(1)]
  have "is_i64 (held_cash a who)" "is_i64 (held_shares a who symb)" "is_i64 (gget0 (cash a) who)"
    "is_i64 (gget2 (positions a) who symb)"
    using b(1,3) b(2,4) [of symb] w by (auto simp: is_i64_def max_i64_def)
  with b(3,4) w show "AvailableCash a who = gget0 (cash a) who - held_cash a who"
    "AvailablePosition a who symb = gget2 (positions a) who symb - held_shares a who symb"
    by (simp_all add: AvailableCash_def AvailablePosition_def b(5,6) solvent_nonneg)
qed

lemma Reserve_solvent:
  assumes s: "solvent a" and x: "i64_order x" and r: "Reserve x a = (a', None)"
  shows "solvent a'"
proof -
  have w: "wf_accounts a" "gwf (cash a)" "gwf (positions a)"
    "\<And>who. held_cash a who \<le> gget0 (cash a) who" "\<And>who symb. held_shares a who symb \<le> gget2 (positions a) who symb"
    "total_cash a \<le> max_i64" "\<And>symb. total_shares symb a \<le> max_i64"
    using s by (auto simp: solvent_def)
  note R = Reserve_ok [OF w(1) x r]
  have "held_cash a' who \<le> gget0 (cash a') who" for who
    using R(8) [of who] R(11) w(4) [of who] solvent_available(1) [OF s, of "o_Placer x"]
    unfolding R(5) by (auto simp: cash_of_hold_def asked_hold_def hold_for_def split: if_splits)
  moreover have "held_shares a' who symb \<le> gget2 (positions a') who symb" for who symb
    using R(9) [of who symb] R(10) w(5) [of who symb] solvent_available(2) [OF s, of "o_Placer x" "o_Symbol x"]
    unfolding R(6) by (auto simp: shares_of_hold_def asked_hold_def hold_for_def split: if_splits)
  ultimately show ?thesis
    using R(1,5,6) w total_cong [OF R(5,6)] by (simp add: solvent_def)
qed

text \<open>The holds after one of them shrank, as a set of entries.\<close>

definition left_of :: "holdKey \<Rightarrow> hold \<Rightarrow> int \<Rightarrow> (holdKey \<times> hold) set" where
  "left_of k h q = (if q = h_qty h then {} else {(k, h\<lparr>h_qty := h_qty h - q\<rparr>)})"

lemma shrunk_to_set:
  assumes "shrunk_to k h q a a'" "wf_accounts a" "map_of (holds a) k = Some h"
  shows "set (holds a') = set (holds a) - {(k, h)} \<union> left_of k h q"
proof -
  have g: "gwf (holds a)" "gwf (holds a')" using assms by (auto simp: shrunk_to_def dest: wf_accountsD(1))
  have m: "map_of (holds a') = (map_of (holds a))(k := (if q = h_qty h then None else Some (h\<lparr>h_qty := h_qty h - q\<rparr>)))"
    using assms(1) by (simp add: shrunk_to_def)
  show ?thesis
  proof (intro set_eqI)
    fix y :: "holdKey \<times> hold"
    obtain k' h' where y: "y = (k', h')" by (cases y)
    show "y \<in> set (holds a') \<longleftrightarrow> y \<in> set (holds a) - {(k, h)} \<union> left_of k h q"
      unfolding y using m assms(3)
      by (auto simp: map_of_set [OF g(2), symmetric] map_of_set [OF g(1), symmetric] left_of_def split: if_splits)
  qed
qed

lemma cash_of_hold_shrunk:
  "cash_of_hold who h - cash_of_hold who (h\<lparr>h_qty := h_qty h - q\<rparr>) =
     (if who = h_account h \<and> h_side h \<noteq> Sell then h_price h * q else 0)"
  by (auto simp: cash_of_hold_def algebra_simps)

lemma shares_of_hold_shrunk:
  "shares_of_hold who symb h - shares_of_hold who symb (h\<lparr>h_qty := h_qty h - q\<rparr>) =
     (if who = h_account h \<and> h_side h = Sell \<and> symb = h_symbol h then q else 0)"
  by (auto simp: shares_of_hold_def)

lemma solvent_shrunk:
  assumes s: "solvent a" and sh: "shrunk_to k h q a a'" and h: "wf_hold k h" and q: "0 \<le> q"
  shows "solvent a'"
proof -
  have e: "cash a' = cash a" "positions a' = positions a" "wf_accounts a'"
    "\<And>who. held_cash a' who = held_cash a who - (if who = h_account h \<and> h_side h \<noteq> Sell then h_price h * q else 0)"
    "\<And>who symb. held_shares a' who symb =
       held_shares a who symb - (if who = h_account h \<and> h_side h = Sell \<and> symb = h_symbol h then q else 0)"
    using sh unfolding shrunk_to_def cash_of_hold_shrunk shares_of_hold_shrunk by auto
  have "h_side h \<noteq> Sell \<Longrightarrow> 0 \<le> h_price h * q" using h q by (simp add: wf_hold_def)
  then have "held_cash a' who \<le> held_cash a who" "held_shares a' who symb \<le> held_shares a who symb" for who symb
    unfolding e(4,5) using q by auto
  with s e(1-3) total_cong [OF e(1,2)] show ?thesis
    unfolding solvent_def by (simp, meson order.trans)
qed

lemma releaseLocked_solvent: "solvent a \<Longrightarrow> solvent (releaseLocked k a)"
proof (cases "map_of (holds a) k")
  case (Some h)
  assume s: "solvent a"
  then have w: "wf_accounts a" by (simp add: solvent_def)
  from solvent_shrunk [OF s releaseLocked_spec [OF w Some] wf_accountsD(2) [OF w Some]] wf_accountsD(2) [OF w Some]
  show ?thesis by (simp add: wf_hold_def)
qed simp

section \<open>A trade between two held orders\<close>

text \<open>The value of a trade moves exactly when both sides own it.\<close>

lemma move_value_exact:
  assumes s: "solvent a" and v: "0 \<le> v" "v \<le> gget0 (cash a) (Buyer t)"
    and q: "0 \<le> t_Quantity t" "t_Quantity t \<le> gget2 (positions a) (Seller t) (t_Symbol t)"
  shows "gget0 (cash (move_value t v a)) who =
      gget0 (cash a) who - (if who = Buyer t then v else 0) + (if who = Seller t then v else 0)"
    "gget2 (positions (move_value t v a)) who symb = gget2 (positions a) who symb +
      (if symb = t_Symbol t then (if who = Buyer t then t_Quantity t else 0) - (if who = Seller t then t_Quantity t else 0) else 0)"
proof -
  have c: "is_i64 (gget0 (cash a) w)" "is_i64 (gget2 (positions a) w y)" for w y
    using solvent_bounds(1) [OF s, of w] solvent_bounds(2) [OF s, of w y] solvent_nonneg [OF s, of w]
    by (simp_all add: is_i64_def max_i64_def order.strict_trans1 [of _ 9223372036854775807] order.trans [of _ 0])
  have bs: "Buyer t \<noteq> Seller t \<Longrightarrow> is_i64 (gget0 (cash a) (Seller t) + v)"
    "Buyer t \<noteq> Seller t \<Longrightarrow> is_i64 (gget2 (positions a) (Buyer t) (t_Symbol t) + t_Quantity t)"
    using solvent_bounds(3) [OF s, of "Buyer t" "Seller t"] v solvent_nonneg(1) [OF s, of "Seller t"]
      solvent_bounds(4) [OF s, of "Buyer t" "Seller t" "t_Symbol t"] q solvent_nonneg(2) [OF s, of "Buyer t" "t_Symbol t"]
    by (simp_all add: is_i64_def max_i64_def)
  show "gget0 (cash (move_value t v a)) who =
      gget0 (cash a) who - (if who = Buyer t then v else 0) + (if who = Seller t then v else 0)"
  proof -
    have "is_i64 (gget0 (cash a) (Buyer t) - v)"
      using c(1) [of "Buyer t"] v by (simp add: is_i64_def)
    then show ?thesis using bs(1) v c(1) by (auto simp: move_value_def Let_def add64_def sub64_def)
  qed
  show "gget2 (positions (move_value t v a)) who symb = gget2 (positions a) who symb +
      (if symb = t_Symbol t then (if who = Buyer t then t_Quantity t else 0) - (if who = Seller t then t_Quantity t else 0) else 0)"
  proof -
    have "is_i64 (gget2 (positions a) (Seller t) (t_Symbol t) - t_Quantity t)"
      using c(2) [of "Seller t" "t_Symbol t"] q by (simp add: is_i64_def)
    then show ?thesis using bs(2) q c(2) by (auto simp: move_value_def Let_def add64_def sub64_def)
  qed
qed

lemma move_value_gwf:
  "gwf (cash a) \<Longrightarrow> gwf (cash (move_value t v a))" "gwf (positions a) \<Longrightarrow> gwf (positions (move_value t v a))"
  by (simp_all add: move_value_def Let_def addPositionLocked_def)

lemma total_shares_addPositionLocked:
  "total_shares symb (addPositionLocked who symb' d a) = total_shares symb a - gget2 (positions a) who symb +
     gget2 (positions (addPositionLocked who symb' d a)) who symb"
  by (auto simp: total_shares_def addPositionLocked_def Let_def total_shares_put gget2_def)

lemma move_value_totals_exact:
  assumes s: "solvent a" and v: "0 \<le> v" "v \<le> gget0 (cash a) (Buyer t)"
    and q: "0 \<le> t_Quantity t" "t_Quantity t \<le> gget2 (positions a) (Seller t) (t_Symbol t)"
  shows "total_cash (move_value t v a) = total_cash a" "total_shares symb (move_value t v a) = total_shares symb a"
proof -
  note m = move_value_exact [OF assms]
  let ?c1 = "gput (Buyer t) (sub64 (gget0 (cash a) (Buyer t)) v) (cash a)"
  have "is_i64 (gget0 (cash a) (Buyer t))"
    using solvent_bounds(1) [OF s, of "Buyer t"] solvent_nonneg(1) [OF s, of "Buyer t"]
    by (simp add: is_i64_def max_i64_def)
  then have b: "sub64 (gget0 (cash a) (Buyer t)) v = gget0 (cash a) (Buyer t) - v" using v by simp
  have e: "cash (move_value t v a) = gput (Seller t) (add64 (gget0 ?c1 (Seller t)) v) ?c1"
    by (simp add: move_value_def Let_def)
  have "add64 (gget0 ?c1 (Seller t)) v = gget0 ?c1 (Seller t) + v"
    using m(1) [of "Seller t"] b unfolding e by (auto split: if_splits)
  then show "total_cash (move_value t v a) = total_cash a"
    unfolding total_cash_def e by (simp add: total_cash_put b)
  let ?a2 = "a\<lparr>cash := gput (Seller t) (add64 (gget0 ?c1 (Seller t)) v) ?c1\<rparr>"
  let ?a3 = "addPositionLocked (Buyer t) (t_Symbol t) (t_Quantity t) ?a2"
  have mv: "move_value t v a = addPositionLocked (Seller t) (t_Symbol t) (sub64 0 (t_Quantity t)) ?a3"
    by (simp add: move_value_def Let_def)
  have "total_shares symb (move_value t v a) = total_shares symb a
      - gget2 (positions a) (Buyer t) symb + gget2 (positions ?a3) (Buyer t) symb
      - gget2 (positions ?a3) (Seller t) symb + gget2 (positions (move_value t v a)) (Seller t) symb"
    unfolding mv total_shares_addPositionLocked [of symb "Seller t"] total_shares_addPositionLocked [of symb "Buyer t"]
    by (simp add: total_shares_def)
  moreover have "gget2 (positions ?a3) who symb =
      (if who = Buyer t \<and> symb = t_Symbol t then add64 (gget2 (positions a) who symb) (t_Quantity t)
       else gget2 (positions a) who symb)" for who
    by simp
  moreover have "Buyer t \<noteq> Seller t \<Longrightarrow>
      add64 (gget2 (positions a) (Buyer t) (t_Symbol t)) (t_Quantity t) = gget2 (positions a) (Buyer t) (t_Symbol t) + t_Quantity t"
    using m(2) [of "Buyer t" "t_Symbol t"] unfolding mv by auto
  ultimately show "total_shares symb (move_value t v a) = total_shares symb a"
    using m(2) [of "Seller t" symb] by auto
qed

text \<open>
  What the store must hold for a trade to complete: both orders have a hold, the buyer's at a
  price no lower than the trade's, and neither for less than the traded quantity.
\<close>

definition covers :: "string \<Rightarrow> Trade \<Rightarrow> hold \<Rightarrow> hold \<Rightarrow> bool" where
  "covers symb t hb hs \<longleftrightarrow> 0 \<le> t_Price t \<and> is_i64 (t_Price t) \<and> 0 < t_Quantity t \<and> t_Symbol t = symb \<and>
     h_account hb = Buyer t \<and> h_side hb \<noteq> Sell \<and> t_Price t \<le> h_price hb \<and> t_Quantity t \<le> h_qty hb \<and>
     h_account hs = Seller t \<and> h_side hs = Sell \<and> t_Quantity t \<le> h_qty hs"

lemma covers_value:
  assumes s: "solvent a" and c: "covers symb t hb hs"
    and b: "map_of (holds a) kb = Some hb" and k: "map_of (holds a) ks = Some hs" "fst ks = symb"
  shows "notional (t_Price t) (t_Quantity t) = Inr (t_Price t * t_Quantity t)"
    "t_Price t * t_Quantity t \<le> h_price hb * t_Quantity t"
    "h_price hb * t_Quantity t \<le> held_cash a (Buyer t)" "t_Quantity t \<le> held_shares a (Seller t) symb"
proof -
  have w: "wf_accounts a" using s by (simp add: solvent_def)
  have hb: "wf_hold kb hb" and hs: "wf_hold ks hs" using wf_accountsD(2) [OF w] b k by auto
  have q: "0 < t_Quantity t" "t_Quantity t \<le> h_qty hb" "t_Quantity t \<le> h_qty hs" "0 \<le> t_Price t" "is_i64 (t_Price t)"
    "t_Price t \<le> h_price hb" "h_side hb \<noteq> Sell" using c by (auto simp: covers_def)
  show le: "t_Price t * t_Quantity t \<le> h_price hb * t_Quantity t" using q by (intro mult_right_mono) auto
  have le2: "h_price hb * t_Quantity t \<le> h_price hb * h_qty hb" using q hb by (intro mult_left_mono) (auto simp: wf_hold_def)
  have "is_i64 (t_Price t * t_Quantity t)"
    by (rule is_i64_nonneg_le [OF _ order.trans [OF le le2]]) (use q hb in \<open>auto simp: wf_hold_def\<close>)
  moreover have "is_i64 (t_Quantity t)" using q hb by (auto simp: wf_hold_def intro: is_i64_nonneg_le)
  ultimately show "notional (t_Price t) (t_Quantity t) = Inr (t_Price t * t_Quantity t)"
    using q by (intro notional_fits) auto
  have nn: "0 \<le> cash_of_hold who h" "0 \<le> shares_of_hold who y h" if "(k', h) \<in> set (holds a)" for k' h who y
    using w that by (auto simp: wf_accounts_def wf_hold_def cash_of_hold_def shares_of_hold_def)
  have "cash_of_hold (Buyer t) hb \<le> held_cash a (Buyer t)"
    unfolding held_cash_def by (rule msum_member_le [OF map_of_SomeD [OF b]]) (rule nn)
  then show "h_price hb * t_Quantity t \<le> held_cash a (Buyer t)"
    using c le2 by (auto simp: covers_def cash_of_hold_def)
  have "shares_of_hold (Seller t) symb hs \<le> held_shares a (Seller t) symb"
    unfolding held_shares_def by (rule msum_member_le [OF map_of_SomeD [OF k(1)]]) (rule nn)
  then show "t_Quantity t \<le> held_shares a (Seller t) symb"
    using c k(2) hs by (auto simp: covers_def shares_of_hold_def wf_hold_def)
qed

lemma complete_trade_holds:
  assumes w: "wf_accounts a" and n: "notional (t_Price t) (t_Quantity t) = Inr v" and q: "0 < t_Quantity t"
    and m: "map_of (holds a) (symb, t_MakerSeqID t) = Some hm" "t_Quantity t \<le> h_qty hm"
    and k: "map_of (holds a) (symb, t_TakerSeqID t) = Some ht" "t_Quantity t \<le> h_qty ht"
    and ne: "t_MakerSeqID t \<noteq> t_TakerSeqID t"
  shows "\<exists>a2. shrunk_to (symb, t_MakerSeqID t) hm (t_Quantity t) (move_value t v a) a2 \<and>
      shrunk_to (symb, t_TakerSeqID t) ht (t_Quantity t) a2 (complete_trade symb t a)"
    "set (holds (complete_trade symb t a)) =
      set (holds a) - {((symb, t_MakerSeqID t), hm), ((symb, t_TakerSeqID t), ht)} \<union>
      left_of (symb, t_MakerSeqID t) hm (t_Quantity t) \<union> left_of (symb, t_TakerSeqID t) ht (t_Quantity t)"
proof -
  let ?a1 = "move_value t v a" and ?a2 = "shrinkTradedLocked symb (t_MakerSeqID t) (t_Quantity t) (move_value t v a)"
  have s1: "shrunk_to (symb, t_MakerSeqID t) hm (t_Quantity t) ?a1 ?a2"
    using shrinkTradedLocked_spec [of ?a1 symb "t_MakerSeqID t" hm "t_Quantity t"] w m q by (simp add: min_absorb1)
  then have t2: "map_of (holds ?a2) (symb, t_TakerSeqID t) = Some ht" "wf_accounts ?a2"
    using k(1) ne by (simp_all add: shrunk_to_def)
  have s2: "shrunk_to (symb, t_TakerSeqID t) ht (t_Quantity t) ?a2 (complete_trade symb t a)"
    using shrinkTradedLocked_spec [OF t2(2,1) q] k(2) by (simp add: complete_trade_def n min_absorb1)
  show "\<exists>a2. shrunk_to (symb, t_MakerSeqID t) hm (t_Quantity t) (move_value t v a) a2 \<and>
      shrunk_to (symb, t_TakerSeqID t) ht (t_Quantity t) a2 (complete_trade symb t a)"
    using s1 s2 by blast
  have "set (holds ?a2) = set (holds a) - {((symb, t_MakerSeqID t), hm)} \<union> left_of (symb, t_MakerSeqID t) hm (t_Quantity t)"
    using shrunk_to_set [OF s1] w m(1) by simp
  with shrunk_to_set [OF s2 t2(2,1)] ne show "set (holds (complete_trade symb t a)) =
      set (holds a) - {((symb, t_MakerSeqID t), hm), ((symb, t_TakerSeqID t), ht)} \<union>
      left_of (symb, t_MakerSeqID t) hm (t_Quantity t) \<union> left_of (symb, t_TakerSeqID t) ht (t_Quantity t)"
    by (auto simp: left_of_def split: if_splits)
qed

lemma complete_trade_solvent:
  assumes s: "solvent a" and ne: "t_MakerSeqID t \<noteq> t_TakerSeqID t"
    and m: "map_of (holds a) (symb, t_MakerSeqID t) = Some hm" and k: "map_of (holds a) (symb, t_TakerSeqID t) = Some ht"
    and c: "covers symb t (if t_TakerSide t = Buy then ht else hm) (if t_TakerSide t = Buy then hm else ht)"
  shows "solvent (complete_trade symb t a)"
proof -
  let ?q = "t_Quantity t" and ?v = "t_Price t * t_Quantity t" and ?a' = "complete_trade symb t a"
  let ?hb = "if t_TakerSide t = Buy then ht else hm" and ?hs = "if t_TakerSide t = Buy then hm else ht"
  let ?kb = "(symb, if t_TakerSide t = Buy then t_TakerSeqID t else t_MakerSeqID t)"
    and ?ks = "(symb, if t_TakerSide t = Buy then t_MakerSeqID t else t_TakerSeqID t)"
  have w: "wf_accounts a" "\<And>who. held_cash a who \<le> gget0 (cash a) who"
    "\<And>who symb. held_shares a who symb \<le> gget2 (positions a) who symb" using s by (auto simp: solvent_def)
  have cv: "notional (t_Price t) ?q = Inr ?v" "?v \<le> h_price ?hb * ?q" "h_price ?hb * ?q \<le> held_cash a (Buyer t)"
    "?q \<le> held_shares a (Seller t) symb"
    using covers_value [OF s c, of ?kb ?ks] m k by simp_all
  have q: "0 < ?q" "0 \<le> t_Price t" "?q \<le> h_qty hm" "?q \<le> h_qty ht" "t_Symbol t = symb"
    using c by (auto simp: covers_def split: if_splits)
  have v: "0 \<le> ?v" "?v \<le> gget0 (cash a) (Buyer t)" "0 \<le> ?q" "?q \<le> gget2 (positions a) (Seller t) (t_Symbol t)"
    using order.trans [OF cv(2) order.trans [OF cv(3) w(2)]] q cv(4) w(3) [of "Seller t" symb] by simp_all
  note mv = move_value_exact [OF s v] and tot = move_value_totals_exact [OF s v]
  obtain a2 where sh: "shrunk_to (symb, t_MakerSeqID t) hm ?q (move_value t ?v a) a2"
    "shrunk_to (symb, t_TakerSeqID t) ht ?q a2 ?a'"
    using complete_trade_holds(1) [OF w(1) cv(1) q(1) m q(3) k q(4) ne] by blast
  have e: "cash ?a' = cash (move_value t ?v a)" "positions ?a' = positions (move_value t ?v a)" "wf_accounts ?a'"
    using sh by (simp_all add: shrunk_to_def)
  have hc: "held_cash (move_value t ?v a) = held_cash a" "held_shares (move_value t ?v a) = held_shares a"
    using held_cong [of "move_value t ?v a" a] by simp_all
  have "held_cash ?a' who = held_cash a who - (if who = h_account hm \<and> h_side hm \<noteq> Sell then h_price hm * ?q else 0)
      - (if who = h_account ht \<and> h_side ht \<noteq> Sell then h_price ht * ?q else 0)" for who
    using sh unfolding shrunk_to_def cash_of_hold_shrunk shares_of_hold_shrunk hc by simp
  then have h1: "held_cash ?a' who = held_cash a who - (if who = Buyer t then h_price ?hb * ?q else 0)" for who
    using c by (auto simp: covers_def split: if_splits)
  have "held_shares ?a' who y = held_shares a who y - (if who = h_account hm \<and> h_side hm = Sell \<and> y = h_symbol hm then ?q else 0)
      - (if who = h_account ht \<and> h_side ht = Sell \<and> y = h_symbol ht then ?q else 0)" for who y
    using sh unfolding shrunk_to_def cash_of_hold_shrunk shares_of_hold_shrunk hc by simp
  moreover have "h_symbol hm = symb" "h_symbol ht = symb"
    using wf_accountsD(2) [OF w(1) m] wf_accountsD(2) [OF w(1) k] by (simp_all add: wf_hold_def)
  ultimately have h2: "held_shares ?a' who y = held_shares a who y - (if who = Seller t \<and> y = symb then ?q else 0)" for who y
    using c by (auto simp: covers_def split: if_splits)
  have "held_cash ?a' who \<le> gget0 (cash ?a') who" for who
    unfolding e(1) mv(1) h1 using w(2) [of who] cv(2) v(1) by auto
  moreover have "held_shares ?a' who y \<le> gget2 (positions ?a') who y" for who y
    unfolding e(2) mv(2) h2 using w(3) [of who y] q(1,5) by auto
  ultimately show ?thesis
    using e(3) s move_value_gwf [of a t ?v] tot total_cong [OF e(1,2)]
    unfolding solvent_def e(1,2) by simp
qed

end
