(* ===== verification/OMS_Accounts_Props.thy ===== *)
theory OMS_Accounts_Props
  imports OMS_Accounts_Inv
begin

text \<open>
  The promises of the account store: order values are exact, reservations always equal the
  holds, a reservation never commits more than is owned, releasing undoes reserving, and
  completing trades moves value without creating or destroying any.
\<close>

section \<open>Every history keeps the invariant\<close>

lemma fold_frame: "(\<And>x a. f (g x a) = f a) \<Longrightarrow> f (fold g xs a) = f a"
  by (induction xs arbitrary: a) auto

lemma LoadBalances_holds:
  assumes "LoadBalances cs ps a = (a', None)"
  shows "holds a' = []" "reservedCash a' = []" "reservedShares a' = []"
proof -
  have "holds (fold (\<lambda>(account, bySymbol) a.
      fold (\<lambda>(symbol, qty). setPositionLocked account symbol qty) bySymbol a) ps b) = holds b" for b
    by (rule fold_frame) (auto intro!: fold_frame)
  with assms show "holds a' = []" "reservedCash a' = []" "reservedShares a' = []"
    by (auto simp: LoadBalances_def Let_def split: if_splits)
qed

lemma LoadBalances_rejected: "LoadBalances cs ps a = (a', Some e) \<Longrightarrow> a' = a"
  by (auto simp: LoadBalances_def Let_def split: if_splits)

lemma wf_LoadBalances: "wf_accounts a \<Longrightarrow> LoadBalances cs ps a = (a', e) \<Longrightarrow> wf_accounts a'"
  using LoadBalances_holds [of cs ps a a'] LoadBalances_rejected [of cs ps a a']
  by (cases e) (auto simp: wf_accounts_def held_cash_def held_shares_def)

text \<open>The stores that some sequence of method calls produces from an empty one.\<close>

inductive reachable_accounts :: "Accounts \<Rightarrow> bool" where
  new: "reachable_accounts NewAccounts"
| deposit: "reachable_accounts a \<Longrightarrow> reachable_accounts (Deposit who n a)"
| position: "reachable_accounts a \<Longrightarrow> reachable_accounts (SetPosition who symb n a)"
| reserve: "reachable_accounts a \<Longrightarrow> i64_order x \<Longrightarrow> Reserve x a = (a', e) \<Longrightarrow> reachable_accounts a'"
| restore: "reachable_accounts a \<Longrightarrow> was_reservable x \<Longrightarrow> reachable_accounts (RestoreHold symb x a)"
| release: "reachable_accounts a \<Longrightarrow> reachable_accounts (Release symb i a)"
| complete: "reachable_accounts a \<Longrightarrow> reachable_accounts (Complete symb i ts rq ids a)"
| load: "reachable_accounts a \<Longrightarrow> LoadBalances cs ps a = (a', e) \<Longrightarrow> reachable_accounts a'"

lemma wf_RestoreHold: "wf_accounts a \<Longrightarrow> was_reservable x \<Longrightarrow> wf_accounts (RestoreHold symb x a)"
  by (cases "map_of (holds a) (symb, o_SeqID x)") (auto simp: RestoreHold_present RestoreHold_spec(1))

lemma reachable_wf_accounts: "reachable_accounts a \<Longrightarrow> wf_accounts a"
proof (induction rule: reachable_accounts.induct)
  case (reserve a x a' e)
  then show ?case using wf_Reserve [of a x] by simp
qed (auto simp: wf_RestoreHold wf_Complete dest: wf_LoadBalances)

section \<open>A store to evaluate the properties on\<close>

definition demo_order :: Order where
  "demo_order = \<lparr>o_SeqID = 7, o_Symbol = ''NABIL'', o_Placer = ''ram'', o_Type = Limit, o_Price = 100,
     o_Quantity = 5, o_Side = Buy, o_TimeStamp = 0\<rparr>"

definition demo_sell :: Order where
  "demo_sell = demo_order\<lparr>o_SeqID := 8, o_Placer := ''sita'', o_Side := Sell\<rparr>"

definition demo_accounts :: Accounts where
  "demo_accounts = SetPosition ''sita'' ''NABIL'' 40 (Deposit ''sita'' 10 (Deposit ''ram'' 1000 NewAccounts))"

lemma demo_accounts_reachable: "reachable_accounts demo_accounts"
  unfolding demo_accounts_def by (intro reachable_accounts.intros)

lemma demo_orders_i64: "i64_order demo_order" "i64_order demo_sell"
  by code_simp+

lemma demo_accounts_solvent: "solvent demo_accounts"
proof -
  have e: "cash demo_accounts = [(''ram'', 1000), (''sita'', 10)]"
    "positions demo_accounts = [(''sita'', [(''NABIL'', 40)])]" "holds demo_accounts = []" by code_simp+
  have "held_cash demo_accounts who = 0" "held_shares demo_accounts who symb = 0" for who symb
    by (simp_all add: held_cash_def held_shares_def e)
  then show ?thesis
    using reachable_wf_accounts [OF demo_accounts_reachable]
    by (auto simp: solvent_def e total_cash_def total_shares_def gget0_def gget2_def inner_def max_i64_def)
qed

definition demo_reserved :: Accounts where
  "demo_reserved = fst (Reserve demo_order demo_accounts)"

lemma demo_reserve: "Reserve demo_order demo_accounts = (demo_reserved, None)"
  by code_simp

section \<open>Properties of the account store\<close>

text \<open>
  C36: The value of an order is computed without wrapping: for 64-bit operands, \<open>notional\<close>
  returns the exact product if and only if both operands are non-negative and the product
  fits, and otherwise reports which of the two failed.
\<close>

theorem notional_exact_or_error:
  assumes "is_i64 p" "is_i64 q"
  shows "notional p q = (if p < 0 \<or> q < 0 then Inl ErrNegativeOperand
    else if p * q \<le> max_i64 then Inr (p * q) else Inl ErrNotionalOverflow)"
  using assms by (rule notional_exact)

theorem notional_exact_or_error_witness:
  "notional (2 ^ 62) 2 = Inl ErrNotionalOverflow \<and> notional (2 ^ 62) 1 = Inr (2 ^ 62)"
  using notional_exact_or_error [of "2 ^ 62" 2] notional_exact_or_error [of "2 ^ 62" 1]
  by (simp add: is_i64_def max_i64_def)

text \<open>
  C19: After any sequence of deposits, reservations, restored holds, releases, completions and
  reloads, the cash and the shares reserved for every account are the (64-bit) sums of its
  live holds: no hold leaks and none is forgotten.
\<close>

theorem reserved_is_sum_of_holds:
  assumes "reachable_accounts a"
  shows "ReservedCash a who = i64 (held_cash a who) \<and>
    ReservedPosition a who symb = i64 (held_shares a who symb)"
  using wf_accountsD(3,4) [OF reachable_wf_accounts [OF assms]]
  by (simp add: ReservedCash_def ReservedPosition_def)

theorem reserved_is_sum_of_holds_witness:
  "ReservedCash demo_reserved ''ram'' = i64 (held_cash demo_reserved ''ram'') \<and>
   ReservedCash demo_reserved ''ram'' = 500"
proof -
  have "reachable_accounts demo_reserved"
    by (rule reachable_accounts.reserve [OF demo_accounts_reachable demo_orders_i64(1) demo_reserve])
  from reserved_is_sum_of_holds [OF this] have "ReservedCash demo_reserved ''ram'' = i64 (held_cash demo_reserved ''ram'')"
    by simp
  moreover have "ReservedCash demo_reserved ''ram'' = 500" by code_simp
  ultimately show ?thesis by simp
qed

text \<open>
  C6: The pre-trade check never over-commits. On a solvent store, an accepted order takes
  exactly its value out of what its account had available, leaves every other account and
  every balance alone, and the store stays solvent: nothing is committed beyond what is owned.
\<close>

theorem reserve_never_overcommits:
  assumes "solvent a" "i64_order x" "Reserve x a = (a', None)"
  shows "solvent a' \<and> cash a' = cash a \<and> positions a' = positions a \<and>
    AvailableCash a' who = AvailableCash a who - cash_of_hold who (asked_hold x) \<and> 0 \<le> AvailableCash a' who \<and>
    AvailablePosition a' who symb = AvailablePosition a who symb - shares_of_hold who symb (asked_hold x) \<and>
    0 \<le> AvailablePosition a' who symb"
proof -
  have s: "solvent a'" by (rule Reserve_solvent [OF assms])
  have "wf_accounts a" using assms(1) by (simp add: solvent_def)
  note R = Reserve_ok [OF this assms(2,3)]
  have "held_cash a' who \<le> gget0 (cash a') who" "held_shares a' who symb \<le> gget2 (positions a') who symb"
    using s by (simp_all add: solvent_def)
  with s R(5,6) R(8) [of who] R(9) [of who symb] show ?thesis
    by (simp add: solvent_available [OF s] solvent_available [OF assms(1)])
qed

theorem reserve_never_overcommits_witness:
  "solvent demo_reserved \<and> AvailableCash demo_reserved ''ram'' = 500 \<and> 0 \<le> AvailableCash demo_reserved ''ram''"
proof -
  have "AvailableCash demo_reserved ''ram'' = 500" by code_simp
  with reserve_never_overcommits [OF demo_accounts_solvent demo_orders_i64(1) demo_reserve] show ?thesis by blast
qed

text \<open>
  A LIMIT buy is accepted exactly when it is affordable: for a known account, a positive
  quantity and an unused identifier, the check succeeds if and only if the order's exact value
  is at most the uncommitted cash; a refusal changes nothing.
\<close>

lemma limit_buy_accepted_iff_affordable:
  assumes s: "solvent a" and x: "i64_order x" "o_Side x = Buy" "o_Type x = Limit" "0 \<le> o_Price x" "0 < o_Quantity x"
    and a: "Exists a (o_Placer x)" "map_of (holds a) (o_Symbol x, o_SeqID x) = None"
  shows "(snd (Reserve x a) = None \<longleftrightarrow>
      o_Price x * o_Quantity x \<le> gget0 (cash a) (o_Placer x) - held_cash a (o_Placer x)) \<and>
    (snd (Reserve x a) \<noteq> None \<longrightarrow> fst (Reserve x a) = a)"
proof -
  have av: "AvailableCash a (o_Placer x) = gget0 (cash a) (o_Placer x) - held_cash a (o_Placer x)"
    by (rule solvent_available [OF s])
  have n: "notional (o_Price x) (o_Quantity x) =
      (if o_Price x * o_Quantity x \<le> max_i64 then Inr (o_Price x * o_Quantity x) else Inl ErrNotionalOverflow)"
    using x by (simp add: notional_exact i64_order_def)
  have le: "gget0 (cash a) (o_Placer x) - held_cash a (o_Placer x) \<le> max_i64"
    using solvent_bounds(1) [OF s, of "o_Placer x"] held_nonneg(1) [of a "o_Placer x"] s by (simp add: solvent_def)
  have "snd (Reserve x a) = None \<longleftrightarrow>
      o_Price x * o_Quantity x \<le> gget0 (cash a) (o_Placer x) - held_cash a (o_Placer x)"
    using x a av n le by (auto simp: Reserve_def Let_def Exists_def)
  moreover have "snd (Reserve x a) \<noteq> None \<longrightarrow> fst (Reserve x a) = a"
    using Reserve_rejected [of x a] by (cases "Reserve x a") auto
  ultimately show ?thesis by blast
qed

lemma limit_buy_accepted_iff_affordable_witness:
  "snd (Reserve (demo_order\<lparr>o_Quantity := 11\<rparr>) demo_accounts) \<noteq> None \<and>
   fst (Reserve (demo_order\<lparr>o_Quantity := 11\<rparr>) demo_accounts) = demo_accounts"
proof -
  let ?x = "demo_order\<lparr>o_Quantity := 11\<rparr>"
  have "i64_order ?x" "Exists demo_accounts (o_Placer ?x)" by code_simp+
  moreover have "holds demo_accounts = []" "gget0 (cash demo_accounts) ''ram'' = 1000" by code_simp+
  ultimately show ?thesis
    using limit_buy_accepted_iff_affordable [OF demo_accounts_solvent, of ?x]
    by (simp add: demo_order_def held_cash_def)
qed

text \<open>
  Releasing undoes reserving: after an accepted reservation, releasing the order gives back
  the same balances, the same availability of cash and shares for every account, and the
  same live holds.
\<close>

lemma release_undoes_reserve:
  assumes "wf_accounts a" "i64_order x" "Reserve x a = (a', None)"
  shows "(let b = Release (o_Symbol x) (o_SeqID x) a' in
    cash b = cash a \<and> positions b = positions a \<and> map_of (holds b) = map_of (holds a) \<and>
    ReservedCash b who = ReservedCash a who \<and> ReservedPosition b who symb = ReservedPosition a who symb)"
proof -
  let ?k = "(o_Symbol x, o_SeqID x)" and ?h = "asked_hold x"
  note R = Reserve_ok [OF assms]
  have k: "map_of (holds a') ?k = Some ?h" using R(4) by simp
  have sh: "shrunk_to ?k ?h (h_qty ?h) a' (releaseLocked ?k a')" by (rule releaseLocked_spec [OF R(1) k])
  have z: "cash_of_hold who (?h\<lparr>h_qty := 0\<rparr>) = 0" "shares_of_hold who symb (?h\<lparr>h_qty := 0\<rparr>) = 0"
    by (simp_all add: cash_of_hold_def shares_of_hold_def)
  from sh have w: "wf_accounts (releaseLocked ?k a')" by (rule shrunk_to_wf)
  have "held_cash (releaseLocked ?k a') who = held_cash a who"
    "held_shares (releaseLocked ?k a') who symb = held_shares a who symb"
    using sh z R(8) [of who] R(9) [of who symb] by (simp_all add: shrunk_to_def)
  moreover have "map_of (holds (releaseLocked ?k a')) = map_of (holds a)"
    using sh R(2,4) by (auto simp: shrunk_to_def fun_eq_iff)
  moreover have "cash (releaseLocked ?k a') = cash a" "positions (releaseLocked ?k a') = positions a"
    using sh R(5,6) by (simp_all add: shrunk_to_def)
  ultimately show ?thesis
    using wf_accountsD(3,4) [OF w] wf_accountsD(3,4) [OF assms(1)]
    by (simp add: Let_def Release_def ReservedCash_def ReservedPosition_def)
qed

lemma release_undoes_reserve_witness:
  "ReservedCash (Release ''NABIL'' 7 demo_reserved) ''ram'' = ReservedCash demo_accounts ''ram'' \<and>
   ReservedCash demo_accounts ''ram'' = 0"
proof -
  have "ReservedCash demo_accounts ''ram'' = 0" by code_simp
  with release_undoes_reserve [OF reachable_wf_accounts [OF demo_accounts_reachable] demo_orders_i64(1) demo_reserve,
      of "''ram''" "''NABIL''"] show ?thesis by (simp add: demo_order_def Let_def)
qed

text \<open>
  Completing an order creates and destroys nothing: whatever trades it is given, the total
  cash of all accounts and the total shares of every symbol are unchanged (as 64-bit sums).
\<close>

lemma complete_conserves_value:
  assumes "wf_accounts a"
  shows "i64 (total_cash (Complete symb i ts rq ids a)) = i64 (total_cash a) \<and>
    i64 (total_shares s (Complete symb i ts rq ids a)) = i64 (total_shares s a)"
  using assms by (rule Complete_totals)

definition demo_trade :: Trade where
  "demo_trade = \<lparr>t_SeqID = 1, t_Symbol = ''NABIL'', t_Price = 100, t_MakerSeqID = 8, t_TakerSeqID = 7,
     t_MakerAccID = ''sita'', t_TakerAccID = ''ram'', t_Quantity = 5, t_TakerSide = Buy, t_TimeStamp = 0\<rparr>"

lemma complete_conserves_value_witness:
  "i64 (total_cash (Complete ''NABIL'' 7 [demo_trade] 0 [] demo_reserved)) = i64 (total_cash demo_reserved) \<and>
   Cash (Complete ''NABIL'' 7 [demo_trade] 0 [] demo_reserved) ''sita'' = 510"
proof -
  have "wf_accounts demo_reserved"
    using reachable_accounts.reserve [OF demo_accounts_reachable demo_orders_i64(1) demo_reserve]
    by (rule reachable_wf_accounts)
  from complete_conserves_value [OF this, of "''NABIL''" 7 "[demo_trade]" 0 "[]"]
  have "i64 (total_cash (Complete ''NABIL'' 7 [demo_trade] 0 [] demo_reserved)) = i64 (total_cash demo_reserved)" by simp
  moreover have "Cash (Complete ''NABIL'' 7 [demo_trade] 0 [] demo_reserved) ''sita'' = 510" by code_simp
  ultimately show ?thesis by simp
qed

end
