(* ===== verification/OMS_Bytes.thy ===== *)
theory OMS_Bytes
  imports OMS_Prelude "HOL-Library.Word"
begin

text \<open>
  The byte level of the log: little-endian integers as \<open>encoding/binary\<close> writes them and the
  CRC-32 (IEEE polynomial) of \<open>hash/crc32\<close>, on lists of 8-bit words.
\<close>

unbundle bit_operations_syntax

type_synonym byte = "8 word"
type_synonym bytes = "8 word list"

section \<open>Little-endian integers\<close>

definition PutUint32 :: "32 word \<Rightarrow> bytes" where
  "PutUint32 w = map (\<lambda>i. ucast (drop_bit (8 * i) w)) [0..<4]"

definition PutUint64 :: "64 word \<Rightarrow> bytes" where
  "PutUint64 w = map (\<lambda>i. ucast (drop_bit (8 * i) w)) [0..<8]"

definition Uint32 :: "bytes \<Rightarrow> 32 word" where
  "Uint32 bs = foldr (\<lambda>b acc. ucast b OR push_bit 8 acc) (take 4 bs) 0"

definition Uint64 :: "bytes \<Rightarrow> 64 word" where
  "Uint64 bs = foldr (\<lambda>b acc. ucast b OR push_bit 8 acc) (take 8 bs) 0"

lemma length_Put [simp]: "length (PutUint32 w) = 4" "length (PutUint64 v) = 8"
  by (simp_all add: PutUint32_def PutUint64_def)

lemma low_high_byte:
  fixes w :: "'a::len word"
  shows "ucast (ucast w :: 8 word) OR push_bit 8 (drop_bit 8 w) = w"
proof (rule bit_word_eqI)
  fix n assume "n < LENGTH('a)"
  then show "bit (ucast (ucast w :: 8 word) OR push_bit 8 (drop_bit 8 w)) n \<longleftrightarrow> bit w n"
    by (cases "8 \<le> n") (auto simp: bit_simps)
qed

lemma drop_bit_8: "drop_bit (8 * Suc i) w = drop_bit 8 (drop_bit (8 * i) (w :: 'a::len word))"
  by (simp add: drop_bit_drop_bit ac_simps)

lemma fold_le:
  fixes w :: "'a::len word"
  shows "foldr (\<lambda>b acc. ucast b OR push_bit 8 acc) (map (\<lambda>i. ucast (drop_bit (8 * i) w) :: 8 word) [k..<k + n])
      (drop_bit (8 * (k + n)) w) = drop_bit (8 * k) w"
proof (induction n arbitrary: k)
  case (Suc n)
  have "[k..<k + Suc n] = k # [Suc k..<Suc k + n]" by (simp add: upt_conv_Cons)
  with Suc [of "Suc k"] show ?case
    using low_high_byte [of "drop_bit (8 * k) w"] by (simp add: drop_bit_8 del: mult_Suc_right)
qed simp

lemma Uint32_Put [simp]: "Uint32 (PutUint32 w @ rest) = w"
proof -
  have "drop_bit 32 w = 0" by (rule bit_word_eqI) (simp add: bit_simps)
  then show ?thesis using fold_le [where w = w and k = 0 and n = 4] by (simp add: Uint32_def PutUint32_def)
qed

lemma Uint64_Put [simp]: "Uint64 (PutUint64 w @ rest) = w"
proof -
  have "drop_bit 64 w = 0" by (rule bit_word_eqI) (simp add: bit_simps)
  then show ?thesis using fold_le [where w = w and k = 0 and n = 8] by (simp add: Uint64_def PutUint64_def)
qed

lemma Uint32_inj:
  assumes "length a = 4" "length b = 4" "Uint32 a = Uint32 b"
  shows "a = b"
proof -
  have put: "PutUint32 (Uint32 c) = c" if "length c = 4" for c :: bytes
  proof -
    from that obtain c0 c1 c2 c3 where c: "c = [c0, c1, c2, c3]"
      by (auto simp: length_Suc_conv eval_nat_numeral)
    have "ucast (Uint32 c) = c0" "ucast (drop_bit 8 (Uint32 c)) = c1" "ucast (drop_bit 16 (Uint32 c)) = c2"
      "ucast (drop_bit 24 (Uint32 c)) = c3"
      by (rule bit_word_eqI; auto simp: c Uint32_def bit_simps dest: bit_imp_le_length)+
    then show ?thesis by (simp add: PutUint32_def c upt_rec)
  qed
  from put [OF assms(1)] put [OF assms(2)] assms(3) show ?thesis by metis
qed

text \<open>An \<open>int64\<close> travels as the \<open>uint64\<close> of the same bits.\<close>

definition to_u64 :: "int \<Rightarrow> 64 word" where
  "to_u64 x = word_of_int x"

definition of_u64 :: "64 word \<Rightarrow> int" where
  "of_u64 w = sint w"

lemma of_to_u64 [simp]: "is_i64 x \<Longrightarrow> of_u64 (to_u64 x) = x"
  unfolding of_u64_def to_u64_def
  by (simp add: signed_of_int signed_take_bit_int_eq_self is_i64_def)

section \<open>CRC-32\<close>

definition crc_bit :: "32 word \<Rightarrow> 32 word" where
  "crc_bit c = (if bit c 0 then drop_bit 1 c XOR 0xEDB88320 else drop_bit 1 c)"

definition crc_byte :: "32 word \<Rightarrow> byte \<Rightarrow> 32 word" where
  "crc_byte c b = (crc_bit ^^ 8) (c XOR ucast b)"

definition crc32_Update :: "32 word \<Rightarrow> bytes \<Rightarrow> 32 word" where
  "crc32_Update crc p = NOT (foldl crc_byte (NOT crc) p)"

lemma crc32_Update_append: "crc32_Update (crc32_Update c xs) ys = crc32_Update c (xs @ ys)"
  by (simp add: crc32_Update_def)

text \<open>The shift register loses nothing: each step is injective in the register and in the byte.\<close>

lemma crc_bit_top: "bit (crc_bit c) 31 = bit c 0"
proof -
  have "\<not> bit c 32" using bit_imp_le_length [of c 32] by auto
  then have "\<not> bit (drop_bit 1 c) 31" by (simp add: bit_simps)
  moreover have "bit (0xEDB88320 :: 32 word) 31" by simp
  ultimately show ?thesis by (simp add: crc_bit_def bit_xor_iff)
qed

lemma xor_cancel: "a XOR c = b XOR c \<longleftrightarrow> a = (b :: 'a::len word)"
  by (metis xor.assoc xor_self_eq xor.right_neutral)

lemma crc_bit_inj: "crc_bit c = crc_bit d \<Longrightarrow> c = d"
proof -
  assume e: "crc_bit c = crc_bit d"
  then have b: "bit c 0 = bit d 0" by (metis crc_bit_top)
  with e have "drop_bit 1 c = drop_bit 1 d" by (auto simp: crc_bit_def xor_cancel split: if_splits)
  then have "bit c (Suc n) = bit d (Suc n)" for n
    by (metis bit_drop_bit_eq comp_apply plus_1_eq_Suc)
  with b have "bit c n = bit d n" for n by (cases n) auto
  then show "c = d" by (simp add: bit_eq_iff)
qed

lemma crc_byte_inj: "crc_byte c b = crc_byte d b' \<Longrightarrow> c XOR ucast b = d XOR ucast b'"
proof -
  have "inj (crc_bit ^^ n)" for n by (rule inj_fn) (simp add: inj_def crc_bit_inj)
  then show "crc_byte c b = crc_byte d b' \<Longrightarrow> c XOR ucast b = d XOR ucast b'"
    by (auto simp: crc_byte_def dest: injD)
qed

lemma foldl_crc_inj: "foldl crc_byte c p = foldl crc_byte d p \<longleftrightarrow> c = d"
proof (induction p arbitrary: c d)
  case (Cons b p)
  have "crc_byte c b = crc_byte d b \<longleftrightarrow> c = d" using crc_byte_inj [of c b d b] by (auto simp: xor_cancel)
  with Cons show ?case by simp
qed simp

lemma ucast_byte_inj: "(ucast (b :: byte) :: 32 word) = ucast b' \<longleftrightarrow> b = b'"
proof
  assume e: "(ucast b :: 32 word) = ucast b'"
  show "b = b'"
  proof (rule bit_word_eqI)
    fix n assume "n < LENGTH(8)"
    then show "bit b n = bit b' n" using arg_cong [OF e, of "\<lambda>w. bit w n"] by (simp add: bit_simps)
  qed
qed simp

text \<open>Any change confined to a single byte changes the checksum.\<close>

lemma crc32_one_byte:
  assumes "b \<noteq> b'"
  shows "crc32_Update c (xs @ b # ys) \<noteq> crc32_Update c (xs @ b' # ys)"
proof
  let ?s = "foldl crc_byte (NOT c) xs"
  assume "crc32_Update c (xs @ b # ys) = crc32_Update c (xs @ b' # ys)"
  then have "foldl crc_byte (crc_byte ?s b) ys = foldl crc_byte (crc_byte ?s b') ys"
    by (simp add: crc32_Update_def)
  then have "crc_byte ?s b = crc_byte ?s b'" by (simp add: foldl_crc_inj)
  then have "(ucast b :: 32 word) = ucast b'"
    using crc_byte_inj by (metis xor.commute xor_cancel)
  with assms show False by (simp add: ucast_byte_inj)
qed

lemma crc32_update_byte:
  assumes "i < length xs" "b \<noteq> xs ! i"
  shows "crc32_Update c (xs[i := b]) \<noteq> crc32_Update c xs"
proof -
  have "xs = take i xs @ xs ! i # drop (Suc i) xs" using assms(1) by (rule id_take_nth_drop)
  moreover have "xs[i := b] = take i xs @ b # drop (Suc i) xs" using assms(1) by (rule upd_conv_take_nth_drop)
  ultimately show ?thesis using crc32_one_byte [OF assms(2)] by metis
qed

end
