(* ===== verification/OMS_Wal.thy ===== *)
theory OMS_Wal
  imports OMS_Bytes OMS_Book "HOL-Library.Char_ord" "HOL-Library.List_Lexorder"
begin

text \<open>
  The write-ahead log of \<open>internal/oms/wal.go\<close>: records and their framing, the segment reader,
  the writer with its buffer and rotation, opening after a crash, and replay.

  A directory of segments is a map from file names to their bytes. Two flags say whether the
  operating system currently accepts writes and whether it completes an fsync; a refused call
  has no effect and is an error of the caller. \<open>encoding/json\<close> is a parameter: \<open>j_Marshal\<close> gives
  the payload bytes of a record, \<open>j_Unmarshal\<close> reads them back. A nil dereference is \<open>None\<close>.
\<close>

section \<open>Records\<close>

datatype RecordKind = RecordUnknown | RecordSubmit | RecordCancel

record Record =
  r_Seq :: int
  r_Kind :: RecordKind
  r_TS :: Time
  r_Order :: Order
  r_CancelID :: SeqID
  r_CancelBy :: string

record walPayload =
  wp_Kind :: RecordKind
  wp_Order :: "Order option"
  wp_CancelID :: SeqID
  wp_CancelBy :: string

record Json =
  j_Marshal :: "walPayload \<Rightarrow> bytes option"
  j_Unmarshal :: "bytes \<Rightarrow> walPayload option"

definition orderPtr :: "Record \<Rightarrow> Order option" where
  "orderPtr rec = (if r_Kind rec \<noteq> RecordSubmit then None else Some (r_Order rec))"

definition payload_of :: "Record \<Rightarrow> walPayload" where
  "payload_of rec = \<lparr>wp_Kind = r_Kind rec, wp_Order = orderPtr rec, wp_CancelID = r_CancelID rec,
     wp_CancelBy = r_CancelBy rec\<rparr>"

text \<open>Replaying one record; the mutation's error is discarded.\<close>

definition Apply :: "(SeqID \<Rightarrow> Time) \<Rightarrow> Record \<Rightarrow> Book \<Rightarrow> Book option" where
  "Apply now rec book = (case r_Kind rec of
     RecordSubmit \<Rightarrow> map_option fst (Submit now book (r_Order rec))
   | RecordCancel \<Rightarrow> map_option fst (CancelOwned book (r_CancelID rec) (r_CancelBy rec))
   | RecordUnknown \<Rightarrow> Some book)"

section \<open>Framing\<close>

definition walMagic :: bytes where
  "walMagic = map (\<lambda>c. word_of_nat (of_char c)) ''DWAL''"

definition walVersion :: "32 word" where
  "walVersion = 1"

definition walHeaderSize :: nat where
  "walHeaderSize = 8"

definition recHeaderSize :: nat where
  "recHeaderSize = 20"

definition walCRCSize :: nat where
  "walCRCSize = 4"

definition maxRecordPayload :: nat where
  "maxRecordPayload = 2 ^ 20"

definition DefaultSegmentBytes :: int where
  "DefaultSegmentBytes = 64 * 2 ^ 20"

definition segment_header :: bytes where
  "segment_header = walMagic @ PutUint32 walVersion"

definition record_header :: "nat \<Rightarrow> int \<Rightarrow> Time \<Rightarrow> bytes" where
  "record_header n seq ts = PutUint32 (word_of_nat n) @ PutUint64 (to_u64 seq) @ PutUint64 (to_u64 ts)"

definition frame :: "int \<Rightarrow> Time \<Rightarrow> bytes \<Rightarrow> bytes" where
  "frame seq ts payload =
     (let hdr = record_header (length payload) seq ts;
          crc = crc32_Update (crc32_Update 0 hdr) payload
      in hdr @ payload @ PutUint32 crc)"

section \<open>Reading a segment\<close>

datatype next_result = EOF | Bad Err | Got Record nat

text \<open>
  \<open>next\<close> on the bytes from the reader's position on. \<open>io.ReadFull\<close> into a buffer of \<open>k\<close> bytes
  fails exactly when fewer than \<open>k\<close> bytes are left, and both of its errors become \<open>io.EOF\<close>. The
  number is how many bytes a verified record takes.
\<close>

definition next_record :: "Json \<Rightarrow> bytes \<Rightarrow> next_result" where
  "next_record js rest =
     (if length rest < recHeaderSize then EOF
      else
        let hdr = take recHeaderSize rest;
            n = unat (Uint32 (take 4 hdr));
            body = drop recHeaderSize rest
        in if n > maxRecordPayload then Bad ErrCorruptWAL
           else if length body < n then EOF
           else
             let payload = take n body; rest2 = drop n body
             in if length rest2 < walCRCSize then EOF
                else
                  let want = Uint32 (take walCRCSize rest2);
                      got = crc32_Update (crc32_Update 0 hdr) payload
                  in if got \<noteq> want then Bad ErrCorruptWAL
                     else (case j_Unmarshal js payload of
                             None \<Rightarrow> Bad ErrWALDecode
                           | Some p \<Rightarrow>
                               Got \<lparr>r_Seq = of_u64 (Uint64 (take 8 (drop 4 hdr))), r_Kind = wp_Kind p,
                                    r_TS = of_u64 (Uint64 (take 8 (drop 12 hdr))),
                                    r_Order = (case wp_Order p of None \<Rightarrow> zero_Order | Some x \<Rightarrow> x),
                                    r_CancelID = wp_CancelID p, r_CancelBy = wp_CancelBy p\<rparr>
                                 (recHeaderSize + n + walCRCSize)))"

lemma next_record_progress:
  "next_record js rest = Got rec n \<Longrightarrow> 0 < n \<and> n \<le> length rest"
  by (auto simp: next_record_def Let_def recHeaderSize_def walCRCSize_def split: if_splits option.splits)

text \<open>
  The whole iteration: the records with the reader's offset after each, the offset at which it
  stopped, and the error it yielded last, if any.
\<close>

function Records :: "Json \<Rightarrow> bytes \<Rightarrow> nat \<Rightarrow> (Record \<times> nat) list \<times> nat \<times> Err option" where
  "Records js rest off = (case next_record js rest of
     EOF \<Rightarrow> ([], off, None)
   | Bad e \<Rightarrow> ([], off, Some e)
   | Got rec n \<Rightarrow>
       let (rs, off', e) = Records js (drop n rest) (off + n) in ((rec, off + n) # rs, off', e))"
  by pat_completeness auto
termination
  by (relation "measure (\<lambda>(js, rest, off). length rest)") (auto dest: next_record_progress)

declare Records.simps [simp del]

record Disk =
  files :: "(string, bytes) gomap"
  write_ok :: bool
  sync_ok :: bool

text \<open>\<open>newReader\<close>: the header check.\<close>

definition newReader :: "bytes \<Rightarrow> Err option" where
  "newReader bs =
     (if length bs < walHeaderSize then Some ErrCorruptWAL
      else if take 4 bs \<noteq> walMagic then Some ErrCorruptWAL
      else if Uint32 (take 4 (drop 4 bs)) \<noteq> walVersion then Some ErrWALVersion
      else None)"

text \<open>A reader is the bytes from its position on; seeking past the end leaves none.\<close>

definition OpenReaderAt :: "Disk \<Rightarrow> string \<Rightarrow> nat \<Rightarrow> Err + bytes" where
  "OpenReaderAt d path offset =
     (if offset < walHeaderSize then Inl ErrWALOffset
      else (case map_of (files d) path of
              None \<Rightarrow> Inl ErrIO
            | Some bs \<Rightarrow> (case newReader bs of Some e \<Rightarrow> Inl e | None \<Rightarrow> Inr (drop offset bs))))"

definition OpenReader :: "Disk \<Rightarrow> string \<Rightarrow> Err + bytes" where
  "OpenReader d path = OpenReaderAt d path walHeaderSize"

definition max_seq :: "Record list \<Rightarrow> int \<Rightarrow> int" where
  "max_seq rs lastSeq = fold (\<lambda>rec m. if r_Seq rec > m then r_Seq rec else m) rs lastSeq"

definition scanSegment :: "Json \<Rightarrow> Disk \<Rightarrow> string \<Rightarrow> int \<times> nat \<times> Err option" where
  "scanSegment js d path = (case OpenReader d path of
     Inl e \<Rightarrow> (0, 0, Some e)
   | Inr rest \<Rightarrow>
       let (rs, off, e) = Records js rest walHeaderSize in (max_seq (map fst rs) 0, off, e))"

section \<open>Segment names\<close>

fun dec :: "nat \<Rightarrow> string" where
  "dec n = (if n < 10 then [char_of (48 + n)] else dec (n div 10) @ [char_of (48 + n mod 10)])"

declare dec.simps [simp del]

definition zero_pad :: "nat \<Rightarrow> string \<Rightarrow> string" where
  "zero_pad w s = replicate (w - length s) (CHR ''0'') @ s"

definition segmentSuffix :: string where
  "segmentSuffix = ''.wal''"

text \<open>The verb \<open>%019d\<close> pads to 19 characters, the sign included.\<close>

definition segmentName :: "int \<Rightarrow> string" where
  "segmentName n = (if n < 0 then CHR ''-'' # zero_pad 18 (dec (nat (- n))) else zero_pad 19 (dec (nat n))) @ segmentSuffix"

definition has_suffix :: "string \<Rightarrow> string \<Rightarrow> bool" where
  "has_suffix suf s \<longleftrightarrow> length suf \<le> length s \<and> drop (length s - length suf) s = suf"

definition segmentPaths :: "Disk \<Rightarrow> string list" where
  "segmentPaths d = sort (filter (has_suffix segmentSuffix) (map fst (files d)))"

definition digit_of :: "char \<Rightarrow> nat option" where
  "digit_of c = (let k = of_char c in if 48 \<le> k \<and> k \<le> (57::nat) then Some (k - 48) else None)"

fun parse_digits :: "nat \<Rightarrow> string \<Rightarrow> nat option" where
  "parse_digits v [] = Some v"
| "parse_digits v (c # cs) = (case digit_of c of None \<Rightarrow> None | Some k \<Rightarrow> parse_digits (10 * v + k) cs)"

text \<open>\<open>strconv.ParseInt(s, 10, 64)\<close>: an optional sign, at least one digit, in range.\<close>

definition ParseInt :: "string \<Rightarrow> int option" where
  "ParseInt s =
     (let neg = (s \<noteq> [] \<and> hd s = CHR ''-'');
          ds = (if s \<noteq> [] \<and> (hd s = CHR ''-'' \<or> hd s = CHR ''+'') then tl s else s)
      in if ds = [] then None
         else (case parse_digits 0 ds of
                 None \<Rightarrow> None
               | Some n \<Rightarrow> let v = (if neg then - int n else int n) in if is_i64 v then Some v else None))"

definition seqFromName :: "string \<Rightarrow> int option" where
  "seqFromName path =
     ParseInt (if has_suffix segmentSuffix path then take (length path - length segmentSuffix) path else path)"

section \<open>The writer\<close>

text \<open>
  \<open>w_seg\<close> is the open segment (\<open>None\<close> is a nil file), \<open>w_buf\<close> what the \<open>bufio.Writer\<close> holds and
  \<open>w_err\<close> its latched error. The file position is always the end of the segment.
\<close>

record Writer =
  w_seg :: "string option"
  w_buf :: bytes
  w_err :: bool
  MaxSegmentBytes :: int
  segBytes :: int
  lastSeq :: int

definition content :: "Disk \<Rightarrow> string \<Rightarrow> bytes" where
  "content d path = (case map_of (files d) path of None \<Rightarrow> [] | Some bs \<Rightarrow> bs)"

definition append_file :: "string \<Rightarrow> bytes \<Rightarrow> Disk \<Rightarrow> Disk" where
  "append_file path bs d = d\<lparr>files := gput path (content d path @ bs) (files d)\<rparr>"

text \<open>
  \<open>bufio.Writer.Write\<close> with the default buffer of 4096 bytes: what goes to the file at once and
  what stays buffered.
\<close>

definition bufio_size :: nat where
  "bufio_size = 4096"

fun bufio_split :: "bytes \<Rightarrow> bytes \<Rightarrow> bytes \<times> bytes" where
  "bufio_split [] p = (if length p > bufio_size then (p, []) else ([], p))"
| "bufio_split (b # buf) p =
     (let avail = bufio_size - length (b # buf)
      in if length p > avail then
           let (out, buf') = bufio_split [] (drop avail p) in ((b # buf) @ take avail p @ out, buf')
         else ([], (b # buf) @ p))"

type_synonym wal_result = "(Writer \<times> Disk \<times> Err option) option"

definition bw_Write :: "bytes \<Rightarrow> Writer \<Rightarrow> Disk \<Rightarrow> wal_result" where
  "bw_Write p w d = (case w_seg w of
     None \<Rightarrow> None
   | Some path \<Rightarrow>
       if w_err w then Some (w, d, Some ErrIO)
       else
         let (out, buf) = bufio_split (w_buf w) p
         in if out \<noteq> [] \<and> \<not> write_ok d then Some (w\<lparr>w_err := True\<rparr>, d, Some ErrIO)
            else Some (w\<lparr>w_buf := buf\<rparr>, append_file path out d, None))"

text \<open>\<open>Sync\<close>: flush, then fsync.\<close>

definition Sync :: "Writer \<Rightarrow> Disk \<Rightarrow> wal_result" where
  "Sync w d = (case w_seg w of
     None \<Rightarrow> None
   | Some path \<Rightarrow>
       if w_err w then Some (w, d, Some ErrIO)
       else if w_buf w \<noteq> [] \<and> \<not> write_ok d then Some (w\<lparr>w_err := True\<rparr>, d, Some ErrIO)
       else
         let w1 = w\<lparr>w_buf := []\<rparr>; d1 = append_file path (w_buf w) d
         in Some (w1, d1, if sync_ok d then None else Some ErrIO))"

definition Close :: "Writer \<Rightarrow> Disk \<Rightarrow> wal_result" where
  "Close w d = (case w_seg w of
     None \<Rightarrow> Some (w, d, None)
   | Some _ \<Rightarrow> do {
       (w1, d1, e) \<leftarrow> Sync w d;
       Some (w1\<lparr>w_seg := None, w_buf := [], w_err := False\<rparr>, d1, e) })"

definition openSegment :: "int \<Rightarrow> Writer \<Rightarrow> Disk \<Rightarrow> Writer \<times> Disk \<times> Err option" where
  "openSegment firstSeq w d =
     (if \<not> write_ok d then (w, d, Some ErrIO)
      else
        let path = segmentName firstSeq;
            d1 = d\<lparr>files := gput path segment_header (files d)\<rparr>
        in if \<not> sync_ok d then (w, d1, Some ErrIO)
           else (w\<lparr>w_seg := Some path, w_buf := [], w_err := False, segBytes := int walHeaderSize\<rparr>, d1, None))"

definition rotate :: "int \<Rightarrow> Writer \<Rightarrow> Disk \<Rightarrow> wal_result" where
  "rotate firstSeq w d = do {
     (w1, d1, e) \<leftarrow> Close w d;
     (case e of Some err \<Rightarrow> Some (w1, d1, Some err) | None \<Rightarrow> Some (openSegment firstSeq w1 d1)) }"

text \<open>Sequencing calls that return \<open>error\<close>: the first error ends the function.\<close>

definition then_do :: "wal_result \<Rightarrow> (Writer \<Rightarrow> Disk \<Rightarrow> wal_result) \<Rightarrow> wal_result" where
  "then_do r k = do { (w, d, e) \<leftarrow> r; (case e of Some err \<Rightarrow> Some (w, d, Some err) | None \<Rightarrow> k w d) }"

definition Append :: "Json \<Rightarrow> Record \<Rightarrow> Writer \<Rightarrow> Disk \<Rightarrow> wal_result" where
  "Append js rec w d = (case j_Marshal js (payload_of rec) of
     None \<Rightarrow> Some (w, d, Some ErrWALEncode)
   | Some payload \<Rightarrow>
       if length payload > maxRecordPayload then Some (w, d, Some ErrWALPayloadTooLarge)
       else
         let total = int (recHeaderSize + length payload + walCRCSize);
             hdr = record_header (length payload) (r_Seq rec) (r_TS rec);
             crc = crc32_Update (crc32_Update 0 hdr) payload
         in then_do
              (if segBytes w + total > MaxSegmentBytes w \<and> segBytes w > int walHeaderSize
               then rotate (r_Seq rec) w d else Some (w, d, None))
              (\<lambda>w d. then_do (bw_Write hdr w d)
              (\<lambda>w d. then_do (bw_Write payload w d)
              (\<lambda>w d. then_do (bw_Write (PutUint32 crc) w d)
              (\<lambda>w d. Some (w\<lparr>segBytes := segBytes w + total,
                           lastSeq := (if r_Seq rec > lastSeq w then r_Seq rec else lastSeq w)\<rparr>, d, None))))))"

definition LastSeq :: "Writer \<Rightarrow> int" where
  "LastSeq w = lastSeq w"

definition new_writer :: Writer where
  "new_writer = \<lparr>w_seg = None, w_buf = [], w_err = False, MaxSegmentBytes = DefaultSegmentBytes,
     segBytes = 0, lastSeq = 0\<rparr>"

definition watermark :: "string \<Rightarrow> int \<Rightarrow> int" where
  "watermark path seq = (case seqFromName path of None \<Rightarrow> seq | Some n \<Rightarrow> if sub64 n 1 > seq then sub64 n 1 else seq)"

definition OpenWriter :: "Json \<Rightarrow> Disk \<Rightarrow> Disk \<times> (Err + Writer)" where
  "OpenWriter js d =
     (if \<not> write_ok d then (d, Inl ErrIO)
      else (case segmentPaths d of
         [] \<Rightarrow> (case openSegment 1 new_writer d of
                  (w, d1, None) \<Rightarrow> (d1, Inr w)
                | (w, d1, Some e) \<Rightarrow> (d1, Inl e))
       | p # ps \<Rightarrow>
           let path = last (p # ps) in
           (case scanSegment js d path of
              (seq, off, Some e) \<Rightarrow> (d, Inl e)
            | (seq, off, None) \<Rightarrow>
                let d1 = d\<lparr>files := gput path (take off (content d path)) (files d)\<rparr>
                in if \<not> sync_ok d then (d1, Inl ErrIO)
                   else (d1, Inr (new_writer\<lparr>w_seg := Some path, segBytes := int off,
                                            lastSeq := watermark path seq\<rparr>)))))"

section \<open>Replay\<close>

text \<open>The loop over the records of one segment; \<open>None\<close> is a panic of the book.\<close>

fun replay_records ::
  "(SeqID \<Rightarrow> Time) \<Rightarrow> int \<Rightarrow> Record list \<Rightarrow> Book \<Rightarrow> int \<Rightarrow> (Book \<times> int) option" where
  "replay_records now afterSeq [] book seq = Some (book, seq)"
| "replay_records now afterSeq (rec # rs) book seq =
     (let seq' = (if r_Seq rec > seq then r_Seq rec else seq)
      in if r_Seq rec > afterSeq then
           (case Apply now rec book of None \<Rightarrow> None | Some b \<Rightarrow> replay_records now afterSeq rs b seq')
         else replay_records now afterSeq rs book seq')"

fun recover_segments ::
  "Json \<Rightarrow> (SeqID \<Rightarrow> Time) \<Rightarrow> Disk \<Rightarrow> int \<Rightarrow> string list \<Rightarrow> Book \<Rightarrow> int
     \<Rightarrow> (Book \<times> int \<times> Err option) option" where
  "recover_segments js now d afterSeq [] book seq = Some (book, seq, None)"
| "recover_segments js now d afterSeq (path # paths) book seq = (case OpenReader d path of
     Inl e \<Rightarrow> Some (book, seq, Some e)
   | Inr rest \<Rightarrow>
       let (rs, _, e) = Records js rest walHeaderSize
       in (case replay_records now afterSeq (map fst rs) book seq of
             None \<Rightarrow> None
           | Some (b, s) \<Rightarrow>
               (case e of Some err \<Rightarrow> Some (b, s, Some err)
                | None \<Rightarrow> recover_segments js now d afterSeq paths b s)))"

definition Recover ::
  "Json \<Rightarrow> (SeqID \<Rightarrow> Time) \<Rightarrow> Disk \<Rightarrow> Book \<Rightarrow> int \<Rightarrow> (Book \<times> int \<times> Err option) option" where
  "Recover js now d book afterSeq = recover_segments js now d afterSeq (segmentPaths d) book 0"

definition LastPosition :: "Json \<Rightarrow> Disk \<Rightarrow> Err + int" where
  "LastPosition js d = (case segmentPaths d of
     [] \<Rightarrow> Inr 0
   | p # ps \<Rightarrow>
       let path = last (p # ps) in
       (case scanSegment js d path of
          (seq, off, Some e) \<Rightarrow> Inl e
        | (seq, off, None) \<Rightarrow> Inr (watermark path seq)))"

end
