(* ===== verification/OMS_Wal_Inv.thy ===== *)
theory OMS_Wal_Inv
  imports OMS_Wal
begin

text \<open>
  Facts about the log: a framed record reads back, a torn tail ends a scan silently, a changed
  byte is caught by the checksum; the writer's directory always holds exactly the records
  appended so far, however the segments rotate.
\<close>

section \<open>One record\<close>

text \<open>
  A record the sequencer can write: 64-bit fields, the order only on submits, and a payload
  that \<open>encoding/json\<close> writes within the cap and reads back.
\<close>

definition json_reads_back :: "Json \<Rightarrow> walPayload \<Rightarrow> bool" where
  "json_reads_back js p \<longleftrightarrow> (case j_Marshal js p of None \<Rightarrow> False | Some bs \<Rightarrow> j_Unmarshal js bs = Some p)"

definition wf_record :: "Record \<Rightarrow> bool" where
  "wf_record rec \<longleftrightarrow> is_i64 (r_Seq rec) \<and> is_i64 (r_TS rec) \<and>
     (r_Kind rec \<noteq> RecordSubmit \<longrightarrow> r_Order rec = zero_Order)"

definition payload_bytes :: "Json \<Rightarrow> Record \<Rightarrow> bytes" where
  "payload_bytes js rec = (case j_Marshal js (payload_of rec) of None \<Rightarrow> [] | Some bs \<Rightarrow> bs)"

definition loggable :: "Json \<Rightarrow> Record \<Rightarrow> bool" where
  "loggable js rec \<longleftrightarrow> wf_record rec \<and> json_reads_back js (payload_of rec) \<and>
     length (payload_bytes js rec) \<le> maxRecordPayload"

definition enc :: "Json \<Rightarrow> Record \<Rightarrow> bytes" where
  "enc js rec = frame (r_Seq rec) (r_TS rec) (payload_bytes js rec)"

lemma length_record_header [simp]: "length (record_header n s t) = recHeaderSize"
  by (simp add: record_header_def recHeaderSize_def)

lemma length_enc: "length (enc js rec) = recHeaderSize + length (payload_bytes js rec) + walCRCSize"
  by (simp add: enc_def frame_def Let_def walCRCSize_def)

lemma payload_len_unat: "n \<le> maxRecordPayload \<Longrightarrow> unat (word_of_nat n :: 32 word) = n"
  by (simp add: unsigned_of_nat take_bit_nat_eq_self maxRecordPayload_def)

lemma record_header_fields:
  "take 4 (record_header n s t) = PutUint32 (word_of_nat n)"
  "take 8 (drop 4 (record_header n s t)) = PutUint64 (to_u64 s)"
  "take 8 (drop 12 (record_header n s t)) = PutUint64 (to_u64 t)"
  by (simp_all add: record_header_def)

lemma Uint_whole [simp]: "Uint32 (PutUint32 w) = w" "Uint64 (PutUint64 v) = v"
  using Uint32_Put [of w "[]"] Uint64_Put [of v "[]"] by simp_all

text \<open>What \<open>next\<close> does on a header, a payload of the announced length and four more bytes.\<close>

lemma next_record_parts:
  assumes "length hdr = recHeaderSize" "unat (Uint32 (take 4 hdr)) = length payload"
    "length payload \<le> maxRecordPayload" "length tl4 = walCRCSize"
  shows "next_record js (hdr @ payload @ tl4 @ rest) =
    (if crc32_Update 0 (hdr @ payload) \<noteq> Uint32 tl4 then Bad ErrCorruptWAL
     else (case j_Unmarshal js payload of
             None \<Rightarrow> Bad ErrWALDecode
           | Some p \<Rightarrow>
               Got \<lparr>r_Seq = of_u64 (Uint64 (take 8 (drop 4 hdr))), r_Kind = wp_Kind p,
                    r_TS = of_u64 (Uint64 (take 8 (drop 12 hdr))),
                    r_Order = (case wp_Order p of None \<Rightarrow> zero_Order | Some x \<Rightarrow> x),
                    r_CancelID = wp_CancelID p, r_CancelBy = wp_CancelBy p\<rparr>
                 (recHeaderSize + length payload + walCRCSize)))"
  using assms(1,3,4) by (simp add: next_record_def Let_def crc32_Update_append assms(2) split: option.split)

lemma next_record_bad_crc:
  assumes "length hp = recHeaderSize + n" "unat (Uint32 (take 4 hp)) = n" "n \<le> maxRecordPayload"
    "length c = walCRCSize" "crc32_Update 0 hp \<noteq> Uint32 c"
  shows "next_record js (hp @ c @ rest) = Bad ErrCorruptWAL"
proof -
  have "next_record js (take recHeaderSize hp @ drop recHeaderSize hp @ c @ rest) = Bad ErrCorruptWAL"
    by (subst next_record_parts) (use assms in \<open>simp_all add: recHeaderSize_def\<close>)
  then show ?thesis by (metis append_assoc append_take_drop_id)
qed

lemma next_record_short:
  assumes "length hdr = recHeaderSize" "unat (Uint32 (take 4 hdr)) = n" "n \<le> maxRecordPayload"
    "length body < n + walCRCSize"
  shows "next_record js (hdr @ body) = EOF"
proof (cases "length body < n")
  case True
  then show ?thesis using assms(1,3) by (simp add: next_record_def Let_def assms(2))
next
  case False
  then have "length body - n < walCRCSize" using assms(4) by simp
  with False show ?thesis using assms(1,3) by (simp add: next_record_def Let_def assms(2))
qed

lemma next_record_enc:
  assumes "loggable js rec"
  shows "next_record js (enc js rec @ rest) = Got rec (length (enc js rec))"
proof -
  let ?p = "payload_bytes js rec" and ?h = "record_header (length (payload_bytes js rec)) (r_Seq rec) (r_TS rec)"
  have l: "length ?p \<le> maxRecordPayload" and w: "wf_record rec" and j: "j_Unmarshal js ?p = Some (payload_of rec)"
    using assms by (auto simp: loggable_def json_reads_back_def payload_bytes_def split: option.splits)
  have "next_record js (?h @ ?p @ PutUint32 (crc32_Update 0 (?h @ ?p)) @ rest) =
      Got \<lparr>r_Seq = r_Seq rec, r_Kind = r_Kind rec, r_TS = r_TS rec,
           r_Order = (case orderPtr rec of None \<Rightarrow> zero_Order | Some x \<Rightarrow> x),
           r_CancelID = r_CancelID rec, r_CancelBy = r_CancelBy rec\<rparr> (recHeaderSize + length ?p + walCRCSize)"
    using w l j
    by (subst next_record_parts)
      (auto simp: record_header_fields payload_len_unat walCRCSize_def payload_of_def wf_record_def)
  moreover have "(case orderPtr rec of None \<Rightarrow> zero_Order | Some x \<Rightarrow> x) = r_Order rec"
    using w by (auto simp: orderPtr_def wf_record_def)
  ultimately show ?thesis
    by (simp add: length_enc) (simp add: enc_def frame_def Let_def crc32_Update_append)
qed

text \<open>A record cut short reads as the end of the segment.\<close>

lemma next_record_torn:
  assumes "loggable js rec" "k < length (enc js rec)"
  shows "next_record js (take k (enc js rec)) = EOF"
proof -
  let ?p = "payload_bytes js rec" and ?h = "record_header (length (payload_bytes js rec)) (r_Seq rec) (r_TS rec)"
  have l: "length ?p \<le> maxRecordPayload" using assms by (simp add: loggable_def)
  have e: "enc js rec = ?h @ ?p @ PutUint32 (crc32_Update 0 (?h @ ?p))"
    by (simp add: enc_def frame_def Let_def crc32_Update_append)
  show ?thesis
  proof (cases "k < recHeaderSize")
    case True
    then have "length (take k (enc js rec)) < recHeaderSize" by simp
    then show ?thesis by (simp only: next_record_def if_True)
  next
    case False
    then have t: "take k (enc js rec) = ?h @ take (k - recHeaderSize) (?p @ PutUint32 (crc32_Update 0 (?h @ ?p)))"
      by (simp add: e)
    have k: "k - recHeaderSize < length ?p + walCRCSize" using assms(2) False by (simp add: length_enc)
    show ?thesis
      unfolding t using k l
      by (intro next_record_short [of _ "length ?p"]) (simp_all add: record_header_fields payload_len_unat walCRCSize_def)
  qed
qed

text \<open>A change of one byte anywhere behind the length prefix is caught.\<close>

lemma next_record_changed:
  assumes "loggable js rec" "4 \<le> i" "i < length (enc js rec)" "b \<noteq> enc js rec ! i"
  shows "next_record js ((enc js rec)[i := b] @ rest) = Bad ErrCorruptWAL"
proof -
  let ?p = "payload_bytes js rec" and ?h = "record_header (length (payload_bytes js rec)) (r_Seq rec) (r_TS rec)"
  let ?c = "PutUint32 (crc32_Update 0 (?h @ ?p))" and ?n = "recHeaderSize + length (payload_bytes js rec)"
  have l: "length ?p \<le> maxRecordPayload" using assms by (simp add: loggable_def)
  have e: "enc js rec = (?h @ ?p) @ ?c"
    by (simp add: enc_def frame_def Let_def crc32_Update_append)
  show ?thesis
  proof (cases "i < ?n")
    case True
    let ?hp = "(?h @ ?p)[i := b]"
    have "enc js rec ! i = (?h @ ?p) ! i" unfolding e by (rule nth_append_left) (use True in simp)
    then have ne: "b \<noteq> (?h @ ?p) ! i" using assms(4) by simp
    have "crc32_Update 0 ?hp \<noteq> crc32_Update 0 (?h @ ?p)"
      by (rule crc32_update_byte [OF _ ne]) (use True in simp)
    moreover have "take 4 ?hp = take 4 ?h"
      using assms(2) by (simp add: take_update_swap list_update_beyond recHeaderSize_def)
    moreover have "(enc js rec)[i := b] = ?hp @ ?c"
      unfolding e by (rule list_update_append1) (use True in simp)
    ultimately show ?thesis
      unfolding append_assoc
      using next_record_bad_crc [of ?hp "length ?p" ?c js rest] l
      by (simp add: record_header_fields payload_len_unat walCRCSize_def)
  next
    case False
    have i: "i - ?n < 4" using False assms(3) by (simp add: length_enc walCRCSize_def)
    have "enc js rec ! i = ?c ! (i - ?n)"
      unfolding e using False by (subst nth_append_right) simp_all
    then have "?c[i - ?n := b] \<noteq> ?c"
      using assms(4) i by (metis length_Put(1) nth_list_update_eq)
    then have "Uint32 (?c[i - ?n := b]) \<noteq> Uint32 ?c"
      using Uint32_inj [of "?c[i - ?n := b]" ?c] by auto
    moreover have "(enc js rec)[i := b] = (?h @ ?p) @ ?c[i - ?n := b]"
      unfolding e by (subst list_update_append) (use False in simp)
    ultimately show ?thesis
      using l next_record_bad_crc [of "?h @ ?p" "length ?p" "?c[i - ?n := b]" js rest]
      by (simp add: record_header_fields payload_len_unat walCRCSize_def recHeaderSize_def)
  qed
qed

section \<open>A segment\<close>

definition enc_all :: "Json \<Rightarrow> Record list \<Rightarrow> bytes" where
  "enc_all js rs = concat (map (enc js) rs)"

lemma enc_all_simps [simp]: "enc_all js [] = []" "enc_all js (r # rs) = enc js r @ enc_all js rs"
  "enc_all js (rs @ ss) = enc_all js rs @ enc_all js ss"
  by (simp_all add: enc_all_def)

text \<open>The reader's offsets after each record.\<close>

fun with_offsets :: "Json \<Rightarrow> nat \<Rightarrow> Record list \<Rightarrow> (Record \<times> nat) list" where
  "with_offsets js off [] = []"
| "with_offsets js off (r # rs) = (r, off + length (enc js r)) # with_offsets js (off + length (enc js r)) rs"

lemma map_fst_with_offsets [simp]: "map fst (with_offsets js off rs) = rs"
  by (induction rs arbitrary: off) auto

lemma Records_enc_all:
  assumes "\<And>r. r \<in> set rs \<Longrightarrow> loggable js r"
  shows "Records js (enc_all js rs @ tail) off =
    (let (xs, off', e) = Records js tail (off + length (enc_all js rs)) in (with_offsets js off rs @ xs, off', e))"
  using assms
proof (induction rs arbitrary: off)
  case (Cons r rs)
  then show ?case
    by (subst Records.simps) (simp add: next_record_enc add.assoc split: prod.splits)
qed (simp split: prod.split)

lemma Records_Nil [simp]: "Records js [] off = ([], off, None)"
  by (simp add: Records.simps next_record_def recHeaderSize_def)

text \<open>A tail that never reached the disk in full.\<close>

definition torn_tail :: "Json \<Rightarrow> bytes \<Rightarrow> bool" where
  "torn_tail js tail \<longleftrightarrow> tail = [] \<or> (\<exists>rec k. loggable js rec \<and> k < length (enc js rec) \<and> tail = take k (enc js rec))"

lemma Records_torn:
  assumes "\<And>r. r \<in> set rs \<Longrightarrow> loggable js r" "torn_tail js tail"
  shows "Records js (enc_all js rs @ tail) off = (with_offsets js off rs, off + length (enc_all js rs), None)"
proof -
  have "Records js tail off' = ([], off', None)" for off'
  proof (cases "tail = []")
    case False
    with assms(2) have "next_record js tail = EOF" by (auto simp: torn_tail_def next_record_torn)
    then show ?thesis by (simp add: Records.simps)
  qed simp
  then show ?thesis by (simp add: Records_enc_all [OF assms(1)])
qed

lemma length_segment_header [simp]: "length segment_header = walHeaderSize"
  by (simp add: segment_header_def walMagic_def walHeaderSize_def)

lemma newReader_header [simp]: "newReader (segment_header @ bs) = None"
  by (simp add: newReader_def segment_header_def walMagic_def walHeaderSize_def)

end
