(* ===== verification/OMS_Wal_Log.thy ===== *)
theory OMS_Wal_Log
  imports OMS_Wal_Inv
begin

text \<open>
  The log as a list of records: segment names sort in log order, and the writer's invariant
  ties its buffer, its open segment and the directory to the list of records appended so far.
\<close>

section \<open>Segment names\<close>

fun fixed :: "nat \<Rightarrow> nat \<Rightarrow> string" where
  "fixed 0 n = []"
| "fixed (Suc w) n = fixed w (n div 10) @ [char_of (48 + n mod 10)]"

lemma length_fixed [simp]: "length (fixed w n) = w"
  by (induction w n rule: fixed.induct) auto

lemma fixed_0: "fixed w 0 = replicate w (CHR ''0'')"
proof (induction w)
  case (Suc w)
  have "char_of (48 :: nat) = CHR ''0''" by code_simp
  with Suc show ?case by (simp add: replicate_append_same)
qed simp

lemma dec_fixed: "n < 10 ^ w \<Longrightarrow> 0 < w \<Longrightarrow> zero_pad w (dec n) = fixed w n \<and> length (dec n) \<le> w"
proof (induction n arbitrary: w rule: dec.induct)
  case (1 n)
  then obtain v where w: "w = Suc v" by (cases w) auto
  show ?case
  proof (cases "n < 10")
    case True
    then show ?thesis
      by (simp add: w dec.simps [of n] zero_pad_def fixed_0)
  next
    case False
    then have v: "0 < v" "n div 10 < 10 ^ v" using "1.prems" w by (cases v; simp; linarith)+
    from "1.IH" [OF False v(2,1)] have ih: "zero_pad v (dec (n div 10)) = fixed v (n div 10)" "length (dec (n div 10)) \<le> v"
      by auto
    then show ?thesis using False by (simp add: w dec.simps [of n] zero_pad_def flip: append_assoc)
  qed
qed

lemma less_append: "length xs = length ys \<Longrightarrow> xs < ys \<Longrightarrow> xs @ us < ys @ (vs :: 'a::linorder list)"
  by (induction xs ys rule: list_induct2) auto

lemma same_append_less: "xs @ us < xs @ vs \<longleftrightarrow> us < (vs :: 'a::linorder list)"
  by (induction xs) auto

lemma digit_less: "a < b \<Longrightarrow> b < 10 \<Longrightarrow> (char_of (48 + a :: nat) :: char) < char_of (48 + b)"
  by (simp add: less_char_def)

lemma fixed_less: "a < b \<Longrightarrow> b < 10 ^ w \<Longrightarrow> fixed w a < fixed w b"
proof (induction w arbitrary: a b)
  case (Suc w)
  show ?case
  proof (cases "a div 10 = b div 10")
    case True
    then have "a mod 10 < b mod 10" using Suc.prems by (metis div_mult_mod_eq nat_add_left_cancel_less)
    with True show ?thesis by (simp add: same_append_less digit_less)
  next
    case False
    then have "a div 10 < b div 10" using Suc.prems(1) by (meson div_le_mono le_neq_implies_less less_imp_le_nat)
    moreover have "b div 10 < 10 ^ w" using Suc.prems(2) by (simp add: less_mult_imp_div_less)
    ultimately show ?thesis using Suc.IH by (simp add: less_append)
  qed
qed simp

definition seq_ok :: "int \<Rightarrow> bool" where
  "seq_ok s \<longleftrightarrow> 0 \<le> s \<and> s \<le> max_i64"

lemma segmentName_fixed: "seq_ok s \<Longrightarrow> segmentName s = fixed 19 (nat s) @ segmentSuffix"
  using dec_fixed [of "nat s" 19] by (simp add: segmentName_def seq_ok_def max_i64_def nat_less_iff)

lemma segmentName_less: "seq_ok a \<Longrightarrow> seq_ok b \<Longrightarrow> a < b \<Longrightarrow> segmentName a < segmentName b"
  unfolding segmentName_fixed
  by (intro less_append fixed_less) (auto simp: seq_ok_def max_i64_def)

lemma segmentName_inj: "seq_ok a \<Longrightarrow> seq_ok b \<Longrightarrow> segmentName a = segmentName b \<longleftrightarrow> a = b"
  using segmentName_less [of a b] segmentName_less [of b a] by (metis less_irrefl linorder_neqE)

lemma has_suffix_append [simp]: "has_suffix s (x @ s)"
  by (simp add: has_suffix_def)

lemma has_suffix_segmentName [simp]: "has_suffix segmentSuffix (segmentName s)"
  by (simp add: segmentName_def)

lemma digit_of_char [simp]: "k < 10 \<Longrightarrow> digit_of (char_of (48 + k)) = Some k"
  by (simp add: digit_of_def Let_def)

lemma parse_digits_append:
  "parse_digits v (xs @ ys) = (case parse_digits v xs of None \<Rightarrow> None | Some u \<Rightarrow> parse_digits u ys)"
  by (induction xs arbitrary: v) (auto split: option.split)

lemma parse_fixed: "n < 10 ^ w \<Longrightarrow> parse_digits 0 (fixed w n) = Some n"
  by (induction w arbitrary: n) (simp_all add: parse_digits_append less_mult_imp_div_less)

lemma hd_fixed: "0 < w \<Longrightarrow> \<exists>k < (10::nat). hd (fixed w n) = char_of (48 + k)"
proof (induction w arbitrary: n)
  case (Suc w)
  show ?case
  proof (cases "w = 0")
    case False
    then have "fixed w (n div 10) \<noteq> []" by (metis length_fixed length_0_conv)
    with Suc.IH [of "n div 10"] False show ?thesis by simp
  next
    case True
    then show ?thesis by (auto intro: exI [of _ "n mod 10"])
  qed
qed simp

lemma seqFromName_segmentName:
  assumes "seq_ok s"
  shows "seqFromName (segmentName s) = Some s"
proof -
  obtain k :: nat where k: "k < 10" "hd (fixed 19 (nat s)) = char_of (48 + k)" using hd_fixed [of 19 "nat s"] by auto
  have "hd (fixed 19 (nat s)) \<noteq> CHR ''-''" "hd (fixed 19 (nat s)) \<noteq> CHR ''+''"
  proof -
    have "digit_of (CHR ''-'') = None" "digit_of (CHR ''+'') = None" by code_simp+
    then show "hd (fixed 19 (nat s)) \<noteq> CHR ''-''" "hd (fixed 19 (nat s)) \<noteq> CHR ''+''"
      using k(2) digit_of_char [OF k(1)] by auto
  qed
  moreover have "parse_digits 0 (fixed 19 (nat s)) = Some (nat s)"
    using assms by (intro parse_fixed) (simp add: seq_ok_def max_i64_def nat_less_iff)
  moreover have "fixed 19 (nat s) \<noteq> []" by (metis length_fixed list.size(3) zero_neq_numeral)
  ultimately show ?thesis
    using assms
    by (simp add: seqFromName_def segmentName_fixed ParseInt_def Let_def is_i64_def seq_ok_def max_i64_def)
qed

section \<open>The directory listing\<close>

lemma sort_append_max: "(\<And>x. x \<in> set xs \<Longrightarrow> x \<le> n) \<Longrightarrow> sort (xs @ [n]) = sort xs @ [n :: 'a::linorder]"
  by (rule properties_for_sort) (auto simp: sorted_append)

lemma keys_gput: "map fst (gput k v m) = (if k \<in> fst ` set m then map fst m else map fst m @ [k])"
  by (simp add: update_keys)

lemma segmentPaths_put_old:
  "map_of (files d) path \<noteq> None \<Longrightarrow> segmentPaths (d\<lparr>files := gput path bs (files d)\<rparr>) = segmentPaths d"
  by (auto simp: segmentPaths_def keys_gput dest: map_of_SomeD) (metis image_eqI map_of_SomeD fst_conv)

lemma set_segmentPaths: "set (segmentPaths d) = {p \<in> fst ` set (files d). has_suffix segmentSuffix p}"
  by (auto simp: segmentPaths_def)

lemma segmentPaths_put_new:
  assumes "path \<notin> fst ` set (files d)" "has_suffix segmentSuffix path" "\<And>p. p \<in> set (segmentPaths d) \<Longrightarrow> p \<le> path"
  shows "segmentPaths (d\<lparr>files := gput path bs (files d)\<rparr>) = segmentPaths d @ [path]"
proof -
  let ?xs = "filter (has_suffix segmentSuffix) (map fst (files d))"
  have "p \<le> path" if "p \<in> set ?xs" for p using assms(3) that by (simp add: segmentPaths_def)
  then have "sort (?xs @ [path]) = sort ?xs @ [path]" by (rule sort_append_max)
  then show ?thesis using assms(1,2) by (simp add: segmentPaths_def keys_gput)
qed

section \<open>The writer's invariant\<close>

text \<open>
  Ghost state: the segments, each with the position in its name and its records.
\<close>

type_synonym segments = "(int \<times> Record list) list"

definition seg_bytes :: "Json \<Rightarrow> Record list \<Rightarrow> bytes" where
  "seg_bytes js rs = segment_header @ enc_all js rs"

definition log_of :: "segments \<Rightarrow> Record list" where
  "log_of segs = concat (map snd segs)"

definition wf_segments :: "Json \<Rightarrow> segments \<Rightarrow> bool" where
  "wf_segments js segs \<longleftrightarrow> segs \<noteq> [] \<and> sorted_wrt (<) (map fst segs) \<and>
     (\<forall>(s, rs) \<in> set segs. seq_ok s \<and> (\<forall>r \<in> set rs. loggable js r))"

text \<open>
  The directory holds the segments, the last one followed by \<open>tail\<close> bytes and short of the
  last \<open>buf\<close> bytes.
\<close>

definition holds_segments :: "Json \<Rightarrow> Disk \<Rightarrow> segments \<Rightarrow> bytes \<Rightarrow> bytes \<Rightarrow> bool" where
  "holds_segments js d segs buf tail \<longleftrightarrow> gwf (files d) \<and>
     segmentPaths d = map (segmentName \<circ> fst) segs \<and>
     (\<forall>(s, rs) \<in> set (butlast segs). map_of (files d) (segmentName s) = Some (seg_bytes js rs)) \<and>
     (\<exists>bs. map_of (files d) (segmentName (fst (last segs))) = Some bs \<and> walHeaderSize \<le> length bs \<and>
        bs @ buf = seg_bytes js (snd (last segs)) @ tail)"

text \<open>Positions increase within a segment and from one segment to the next.\<close>

definition ordered_segments :: "segments \<Rightarrow> bool" where
  "ordered_segments segs \<longleftrightarrow>
     sorted_wrt (\<lambda>(s, rs) (s', rs'). \<forall>r \<in> set rs. r_Seq r < s') segs \<and>
     (\<forall>(s, rs) \<in> set segs. (\<forall>r \<in> set rs. s \<le> r_Seq r) \<and> sorted_wrt (<) (map r_Seq rs))"

definition writer_inv :: "Json \<Rightarrow> Writer \<Rightarrow> Disk \<Rightarrow> segments \<Rightarrow> bool" where
  "writer_inv js w d segs \<longleftrightarrow> wf_segments js segs \<and> holds_segments js d segs (w_buf w) [] \<and>
     ordered_segments segs \<and> w_seg w = Some (segmentName (fst (last segs))) \<and> \<not> w_err w \<and>
     segBytes w = int (length (seg_bytes js (snd (last segs)))) \<and>
     (\<forall>r \<in> set (log_of segs). r_Seq r \<le> lastSeq w) \<and> fst (last segs) \<le> lastSeq w + 1 \<and>
     (snd (last segs) \<noteq> [] \<longrightarrow> fst (last segs) \<le> lastSeq w) \<and> 0 \<le> lastSeq w"

lemma content_map [simp]: "map_of (files d) path = Some bs \<Longrightarrow> content d path = bs"
  by (simp add: content_def)

lemma append_file_frame [simp]:
  "write_ok (append_file p bs d) = write_ok d" "sync_ok (append_file p bs d) = sync_ok d"
  by (simp_all add: append_file_def)

lemma bufio_split_append: "bufio_split buf p = (out, buf') \<Longrightarrow> out @ buf' = buf @ p"
  by (induction buf p arbitrary: out buf' rule: bufio_split.induct)
    (auto simp: Let_def split: if_splits prod.splits)

lemma wf_segments_distinct:
  assumes "wf_segments js segs" "(s, rs) \<in> set (butlast segs)"
  shows "s < fst (last segs)" "segmentName s \<noteq> segmentName (fst (last segs))"
proof -
  obtain pre s0 rs0 where e: "segs = pre @ [(s0, rs0)]"
    using assms(1) by (cases segs rule: rev_cases) (auto simp: wf_segments_def)
  show less: "s < fst (last segs)" using assms by (force simp: e wf_segments_def sorted_wrt_append)
  have "seq_ok s" "seq_ok s0" using assms by (auto simp: e wf_segments_def)
  with less show "segmentName s \<noteq> segmentName (fst (last segs))" by (simp add: e segmentName_inj)
qed

text \<open>Moving bytes from the buffer to the open segment, and appending to the two together.\<close>

lemma holds_segments_write:
  assumes "holds_segments js d segs buf tail" "wf_segments js segs" "out @ buf' = buf @ p"
  shows "holds_segments js (append_file (segmentName (fst (last segs))) out d) segs buf' (tail @ p)"
proof -
  let ?path = "segmentName (fst (last segs))"
  obtain bs where bs: "map_of (files d) ?path = Some bs" "walHeaderSize \<le> length bs" "bs @ buf = seg_bytes js (snd (last segs)) @ tail"
    using assms(1) by (auto simp: holds_segments_def)
  have "segmentPaths (append_file ?path out d) = segmentPaths d"
    using bs(1) by (simp add: append_file_def segmentPaths_put_old)
  moreover have "(bs @ out) @ buf' = seg_bytes js (snd (last segs)) @ tail @ p"
    using bs(3) assms(3) by (metis append_assoc)
  ultimately show ?thesis
    using assms(1) bs wf_segments_distinct(2) [OF assms(2)]
    by (auto simp: holds_segments_def append_file_def)
qed

lemma bw_Write_ok:
  assumes "w_seg w = Some path" "\<not> w_err w" "write_ok d"
  obtains out buf where "bw_Write p w d = Some (w\<lparr>w_buf := buf\<rparr>, append_file path out d, None)"
    "out @ buf = w_buf w @ p"
proof -
  obtain out buf where "bufio_split (w_buf w) p = (out, buf)" by (cases "bufio_split (w_buf w) p")
  with assms that bufio_split_append show ?thesis by (simp add: bw_Write_def)
qed

lemma bw_Write_holds:
  assumes "holds_segments js d segs (w_buf w) tail" "wf_segments js segs"
    "w_seg w = Some (segmentName (fst (last segs)))" "\<not> w_err w" "write_ok d"
  obtains buf d' where "bw_Write p w d = Some (w\<lparr>w_buf := buf\<rparr>, d', None)"
    "holds_segments js d' segs buf (tail @ p)" "write_ok d' = write_ok d" "sync_ok d' = sync_ok d"
proof -
  obtain out buf where "bw_Write p w d = Some (w\<lparr>w_buf := buf\<rparr>, append_file (segmentName (fst (last segs))) out d, None)"
    "out @ buf = w_buf w @ p"
    by (rule bw_Write_ok [OF assms(3,4,5)])
  with that holds_segments_write [OF assms(1,2)] show ?thesis by simp
qed

lemma then_do_Some [simp]: "then_do (Some (w, d, None)) k = k w d" "then_do (Some (w, d, Some e)) k = Some (w, d, Some e)"
  by (simp_all add: then_do_def)

text \<open>The three writes of one record, taken together.\<close>

lemma write_three:
  assumes "holds_segments js d segs (w_buf w) []" "wf_segments js segs"
    "w_seg w = Some (segmentName (fst (last segs)))" "\<not> w_err w" "write_ok d"
  obtains buf d' where
    "then_do (bw_Write a w d) (\<lambda>w d. then_do (bw_Write b w d) (\<lambda>w d. then_do (bw_Write c w d) k)) = k (w\<lparr>w_buf := buf\<rparr>) d'"
    "holds_segments js d' segs buf (a @ b @ c)" "write_ok d' = write_ok d" "sync_ok d' = sync_ok d"
proof -
  obtain b1 d1 where 1: "bw_Write a w d = Some (w\<lparr>w_buf := b1\<rparr>, d1, None)" "holds_segments js d1 segs b1 ([] @ a)"
    "write_ok d1 = write_ok d" "sync_ok d1 = sync_ok d" by (rule bw_Write_holds [OF assms])
  obtain b2 d2 where 2: "bw_Write b (w\<lparr>w_buf := b1\<rparr>) d1 = Some (w\<lparr>w_buf := b2\<rparr>, d2, None)"
    "holds_segments js d2 segs b2 (([] @ a) @ b)" "write_ok d2 = write_ok d" "sync_ok d2 = sync_ok d"
    using bw_Write_holds [of js d1 segs "w\<lparr>w_buf := b1\<rparr>" "[] @ a" b] assms 1 by auto
  obtain b3 d3 where 3: "bw_Write c (w\<lparr>w_buf := b2\<rparr>) d2 = Some (w\<lparr>w_buf := b3\<rparr>, d3, None)"
    "holds_segments js d3 segs b3 ((([] @ a) @ b) @ c)" "write_ok d3 = write_ok d" "sync_ok d3 = sync_ok d"
    using bw_Write_holds [of js d2 segs "w\<lparr>w_buf := b2\<rparr>" "([] @ a) @ b" c] assms 2 by auto
  show ?thesis by (rule that [of b3 d3]) (use 1 2 3 in simp_all)
qed

text \<open>A whole record behind the last segment belongs to it.\<close>

definition add_record :: "Record \<Rightarrow> segments \<Rightarrow> segments" where
  "add_record rec segs = butlast segs @ [(fst (last segs), snd (last segs) @ [rec])]"

lemma last_add_record [simp]: "last (add_record rec segs) = (fst (last segs), snd (last segs) @ [rec])"
  "butlast (add_record rec segs) = butlast segs"
  by (simp_all add: add_record_def)

lemma log_of_add_record [simp]: "segs \<noteq> [] \<Longrightarrow> log_of (add_record rec segs) = log_of segs @ [rec]"
  by (cases segs rule: rev_cases) (simp_all add: add_record_def log_of_def)

lemma map_fst_add_record: "segs \<noteq> [] \<Longrightarrow> map fst (add_record rec segs) = map fst segs"
  by (cases segs rule: rev_cases) (simp_all add: add_record_def)

lemma holds_add_record:
  "segs \<noteq> [] \<Longrightarrow> holds_segments js d segs buf (enc js rec) = holds_segments js d (add_record rec segs) buf []"
  using map_fst_add_record [of segs rec]
  by (simp add: holds_segments_def seg_bytes_def map_map [symmetric] del: map_map)

lemma wf_add_record:
  "wf_segments js segs \<Longrightarrow> loggable js rec \<Longrightarrow> wf_segments js (add_record rec segs)"
  by (cases segs rule: rev_cases) (auto simp: wf_segments_def add_record_def)

lemma ordered_new_segment:
  assumes "ordered_segments segs" "\<And>r. r \<in> set (log_of segs) \<Longrightarrow> r_Seq r < s"
  shows "ordered_segments (segs @ [(s, [])])"
  using assms by (fastforce simp: ordered_segments_def sorted_wrt_append log_of_def)

lemma ordered_add_record:
  assumes "ordered_segments segs" "segs \<noteq> []" "fst (last segs) \<le> r_Seq rec"
    "\<And>r. r \<in> set (log_of segs) \<Longrightarrow> r_Seq r < r_Seq rec"
  shows "ordered_segments (add_record rec segs)"
proof (cases segs rule: rev_cases)
  case (snoc pre x)
  with assms show ?thesis
    by (cases x) (auto simp: ordered_segments_def add_record_def sorted_wrt_append log_of_def)
qed (use assms in simp)

section \<open>The operations keep the invariant\<close>

lemma Sync_inv:
  assumes "writer_inv js w d segs" "write_ok d" "sync_ok d"
  shows "\<exists>w' d'. Sync w d = Some (w', d', None) \<and> writer_inv js w' d' segs \<and> w_buf w' = [] \<and>
    lastSeq w' = lastSeq w \<and> MaxSegmentBytes w' = MaxSegmentBytes w \<and> write_ok d' \<and> sync_ok d'"
proof -
  have h: "holds_segments js d segs (w_buf w) []" "wf_segments js segs"
    "w_seg w = Some (segmentName (fst (last segs)))" "\<not> w_err w"
    using assms(1) by (auto simp: writer_inv_def)
  have "holds_segments js (append_file (segmentName (fst (last segs))) (w_buf w) d) segs [] []"
    using holds_segments_write [OF h(1,2), of "w_buf w" "[]" "[]"] by simp
  with assms h show ?thesis by (simp add: Sync_def writer_inv_def Let_def)
qed

lemma openSegment_inv:
  assumes wf: "wf_segments js segs" and h: "holds_segments js d segs [] []" and io: "write_ok d" "sync_ok d"
    and s: "seq_ok s" "fst (last segs) < s"
  shows "\<exists>w' d'. openSegment s w d = (w', d', None) \<and> wf_segments js (segs @ [(s, [])]) \<and>
    holds_segments js d' (segs @ [(s, [])]) [] [] \<and> w_seg w' = Some (segmentName s) \<and> \<not> w_err w' \<and> w_buf w' = [] \<and>
    segBytes w' = int walHeaderSize \<and> lastSeq w' = lastSeq w \<and> MaxSegmentBytes w' = MaxSegmentBytes w \<and>
    write_ok d' \<and> sync_ok d'"
proof -
  let ?path = "segmentName s"
  have ne: "segs \<noteq> []" using wf by (simp add: wf_segments_def)
  then have e: "segs = butlast segs @ [last segs]" by simp
  have lt: "s' < s" "seq_ok s'" "segmentName s' < ?path" if "(s', rs) \<in> set segs" for s' rs
  proof -
    have "(s', rs) \<in> set (butlast segs) \<or> (s', rs) = last segs"
      using that by (subst (asm) e) auto
    then show "s' < s" using wf_segments_distinct(1) [OF wf, of s' rs] s(2) by (metis fst_conv less_trans)
    moreover show "seq_ok s'" using that wf by (auto simp: wf_segments_def)
    ultimately show "segmentName s' < ?path" using s(1) by (simp add: segmentName_less)
  qed
  have paths: "segmentPaths d = map (segmentName \<circ> fst) segs" using h by (simp add: holds_segments_def)
  have new: "?path \<notin> fst ` set (files d)"
  proof
    assume "?path \<in> fst ` set (files d)"
    then have "?path \<in> set (segmentPaths d)" by (simp add: set_segmentPaths)
    with paths lt(3) show False by force
  qed
  let ?d = "d\<lparr>files := gput ?path segment_header (files d)\<rparr>"
  have "segmentPaths ?d = segmentPaths d @ [?path]"
    by (rule segmentPaths_put_new [OF new]) (use paths lt(3) in \<open>force simp: less_imp_le\<close>)+
  moreover have "map_of (files ?d) (segmentName s') = Some (seg_bytes js rs)" if "(s', rs) \<in> set segs" for s' rs
  proof -
    have "map_of (files d) (segmentName s') = Some (seg_bytes js rs)"
    proof (cases "(s', rs) = last segs")
      case True
      then show ?thesis using h by (auto simp: holds_segments_def dest: sym)
    next
      case False
      then have "(s', rs) \<in> set (butlast segs)" using that by (subst (asm) e) auto
      then show ?thesis using h by (auto simp: holds_segments_def)
    qed
    with lt(3) [OF that] show ?thesis by auto
  qed
  ultimately have "holds_segments js ?d (segs @ [(s, [])]) [] []"
    using h paths by (auto simp: holds_segments_def seg_bytes_def)
  moreover have "wf_segments js (segs @ [(s, [])])"
    using wf lt(1) s(1) by (auto simp: wf_segments_def sorted_wrt_append)
  ultimately show ?thesis using io by (simp add: openSegment_def Let_def)
qed

text \<open>Closing the open segment and starting the next one.\<close>

lemma rotate_inv:
  assumes inv: "writer_inv js w d segs" and io: "write_ok d" "sync_ok d"
    and s: "seq_ok s" "lastSeq w < s" "snd (last segs) \<noteq> []"
  shows "\<exists>w' d'. rotate s w d = Some (w', d', None) \<and> wf_segments js (segs @ [(s, [])]) \<and>
    holds_segments js d' (segs @ [(s, [])]) [] [] \<and> w_seg w' = Some (segmentName s) \<and> \<not> w_err w' \<and> w_buf w' = [] \<and>
    segBytes w' = int walHeaderSize \<and> lastSeq w' = lastSeq w \<and> MaxSegmentBytes w' = MaxSegmentBytes w \<and>
    write_ok d' \<and> sync_ok d'"
proof -
  have seg: "w_seg w = Some (segmentName (fst (last segs)))" "fst (last segs) \<le> lastSeq w"
    using inv s(3) by (auto simp: writer_inv_def)
  obtain w1 d1 where 1: "Sync w d = Some (w1, d1, None)" "writer_inv js w1 d1 segs" "w_buf w1 = []"
    "lastSeq w1 = lastSeq w" "MaxSegmentBytes w1 = MaxSegmentBytes w" "write_ok d1" "sync_ok d1"
    using Sync_inv [OF inv io] by blast
  have h: "wf_segments js segs" "holds_segments js d1 segs [] []"
    using 1(2,3) by (auto simp: writer_inv_def)
  let ?w = "w1\<lparr>w_seg := None, w_buf := [], w_err := False\<rparr>"
  have "Close w d = Some (?w, d1, None)" using seg 1(1) by (simp add: Close_def)
  moreover have "fst (last segs) < s" using seg(2) s(2) by simp
  ultimately show ?thesis
    using openSegment_inv [OF h 1(6,7) s(1), of ?w] 1(4,5) by (auto simp: rotate_def)
qed

lemma loggable_marshal:
  "loggable js rec \<Longrightarrow> j_Marshal js (payload_of rec) = Some (payload_bytes js rec) \<and>
    length (payload_bytes js rec) \<le> maxRecordPayload \<and> is_i64 (r_Seq rec)"
  by (auto simp: loggable_def json_reads_back_def payload_bytes_def wf_record_def split: option.splits)

lemma enc_parts:
  "enc js rec = record_header (length (payload_bytes js rec)) (r_Seq rec) (r_TS rec) @ payload_bytes js rec @
     PutUint32 (crc32_Update (crc32_Update 0 (record_header (length (payload_bytes js rec)) (r_Seq rec) (r_TS rec)))
       (payload_bytes js rec))"
  by (simp add: enc_def frame_def Let_def)

lemma Append_inv:
  assumes inv: "writer_inv js w d segs" and io: "write_ok d" "sync_ok d"
    and rec: "loggable js rec" "lastSeq w < r_Seq rec"
  shows "\<exists>w' d' segs'. Append js rec w d = Some (w', d', None) \<and> writer_inv js w' d' segs' \<and>
    log_of segs' = log_of segs @ [rec] \<and> lastSeq w' = r_Seq rec \<and> MaxSegmentBytes w' = MaxSegmentBytes w \<and>
    write_ok d' \<and> sync_ok d'"
proof -
  let ?p = "payload_bytes js rec"
  let ?h = "record_header (length ?p) (r_Seq rec) (r_TS rec)"
  let ?c = "PutUint32 (crc32_Update (crc32_Update 0 ?h) ?p)"
  let ?total = "int (recHeaderSize + length ?p + walCRCSize)"
  let ?rot = "segBytes w + ?total > MaxSegmentBytes w \<and> segBytes w > int walHeaderSize"
  note m = loggable_marshal [OF rec(1)]
  have ls: "0 \<le> lastSeq w" using inv by (simp add: writer_inv_def)
  have sk: "seq_ok (r_Seq rec)" using m rec(2) ls by (simp add: seq_ok_def is_i64_def max_i64_def)
  obtain w1 d1 segs1 where 1: "(if ?rot then rotate (r_Seq rec) w d else Some (w, d, None)) = Some (w1, d1, None)"
    "wf_segments js segs1" "holds_segments js d1 segs1 (w_buf w1) []" "log_of segs1 = log_of segs"
    "w_seg w1 = Some (segmentName (fst (last segs1)))" "\<not> w_err w1" "lastSeq w1 = lastSeq w"
    "MaxSegmentBytes w1 = MaxSegmentBytes w" "write_ok d1" "sync_ok d1" "fst (last segs1) \<le> r_Seq rec"
    "segBytes w1 = int (length (seg_bytes js (snd (last segs1))))" "ordered_segments segs1"
  proof (cases ?rot)
    case True
    have "snd (last segs) \<noteq> []" using True inv by (auto simp: writer_inv_def seg_bytes_def)
    moreover have "ordered_segments (segs @ [(r_Seq rec, [])])"
      using inv rec(2) by (intro ordered_new_segment) (auto simp: writer_inv_def)
    ultimately show ?thesis
      using rotate_inv [OF inv io sk rec(2)] True that [of _ _ "segs @ [(r_Seq rec, [])]"]
      by (auto simp: log_of_def seg_bytes_def)
  next
    case False
    with inv io rec(2) show ?thesis by (intro that [of w d segs]) (auto simp: writer_inv_def)
  qed
  let ?k = "\<lambda>w d. Some (w\<lparr>segBytes := segBytes w + ?total,
      lastSeq := (if r_Seq rec > lastSeq w then r_Seq rec else lastSeq w)\<rparr>, d, None)"
  obtain buf d' where 2:
    "then_do (bw_Write ?h w1 d1) (\<lambda>w d. then_do (bw_Write ?p w d) (\<lambda>w d. then_do (bw_Write ?c w d) ?k)) = ?k (w1\<lparr>w_buf := buf\<rparr>) d'"
    "holds_segments js d' segs1 buf (?h @ ?p @ ?c)" "write_ok d' = write_ok d1" "sync_ok d' = sync_ok d1"
    by (rule write_three [OF 1(3,2,5,6,9)])
  have ne: "segs1 \<noteq> []" using 1(2) by (simp add: wf_segments_def)
  have h: "holds_segments js d' (add_record rec segs1) buf []"
    using 2(2) unfolding enc_parts [symmetric] holds_add_record [OF ne] .
  have "Append js rec w d = ?k (w1\<lparr>w_buf := buf\<rparr>) d'"
    unfolding Append_def using m 1(1) 2(1) by (simp add: Let_def)
  moreover have "writer_inv js (fst (the (?k (w1\<lparr>w_buf := buf\<rparr>) d'))) d' (add_record rec segs1)"
  proof -
    have "r_Seq r < r_Seq rec" if "r \<in> set (log_of segs1)" for r
      using that inv rec(2) 1(4) by (auto simp: writer_inv_def)
    then have "ordered_segments (add_record rec segs1)" by (rule ordered_add_record [OF 1(13) ne 1(11)])
    then show ?thesis
      using h 1 rec ls sk wf_add_record [OF 1(2) rec(1)] inv ne
      by (auto simp: writer_inv_def seg_bytes_def length_enc)
  qed
  ultimately show ?thesis using 1 2 ne rec(2) by auto
qed

end
