(* ===== verification/OMS_Wal_Recover.thy ===== *)
theory OMS_Wal_Recover
  imports OMS_Wal_Log OMS_Book_Props
begin

text \<open>
  Recovery: what \<open>Recover\<close>, \<open>OpenWriter\<close> and \<open>LastPosition\<close> see of a directory after a crash at
  an arbitrary byte, and that replaying the log rebuilds the live book.
\<close>

section \<open>Reading the segments back\<close>

text \<open>A directory a writer left behind: complete segments and possibly a torn tail on the last.\<close>

definition disk_log :: "Json \<Rightarrow> Disk \<Rightarrow> segments \<Rightarrow> bytes \<Rightarrow> bool" where
  "disk_log js d segs tail \<longleftrightarrow> wf_segments js segs \<and> ordered_segments segs \<and>
     holds_segments js d segs [] tail \<and> torn_tail js tail"

lemma OpenReader_segment:
  assumes "map_of (files d) path = Some (segment_header @ bs)"
  shows "OpenReader d path = Inr bs"
  using assms length_segment_header by (simp add: OpenReader_def OpenReaderAt_def)

lemma disk_log_segment:
  assumes "disk_log js d segs tail" "(s, rs) \<in> set segs"
  shows "Records js (the (map_option (drop walHeaderSize) (map_of (files d) (segmentName s)))) walHeaderSize =
      (with_offsets js walHeaderSize rs, walHeaderSize + length (enc_all js rs), None)"
    "\<exists>bs. OpenReader d (segmentName s) = Inr bs \<and>
      Records js bs walHeaderSize = (with_offsets js walHeaderSize rs, walHeaderSize + length (enc_all js rs), None)"
proof -
  have lg: "\<And>r. r \<in> set rs \<Longrightarrow> loggable js r" and tt: "torn_tail js tail" and h: "holds_segments js d segs [] tail"
    and ne: "segs \<noteq> []"
    using assms by (auto simp: disk_log_def wf_segments_def)
  have n: "torn_tail js []" by (simp add: torn_tail_def)
  have "\<exists>t. torn_tail js t \<and> map_of (files d) (segmentName s) = Some (segment_header @ enc_all js rs @ t)"
  proof (cases "(s, rs) = last segs")
    case True
    then have "snd (last segs) = rs" "fst (last segs) = s" by (metis fst_conv snd_conv)+
    with h tt show ?thesis by (auto simp: holds_segments_def seg_bytes_def)
  next
    case False
    then have "(s, rs) \<in> set (butlast segs)" using assms(2) ne by (metis append_butlast_last_id rotate1.simps(2) set_ConsD set_rotate1)
    with h n show ?thesis by (intro exI [of _ "[]"]) (auto simp: holds_segments_def seg_bytes_def)
  qed
  then obtain t where t: "torn_tail js t" "map_of (files d) (segmentName s) = Some (segment_header @ enc_all js rs @ t)" by blast
  with Records_torn [OF lg t(1)] OpenReader_segment [OF t(2)] length_segment_header
  show "Records js (the (map_option (drop walHeaderSize) (map_of (files d) (segmentName s)))) walHeaderSize =
      (with_offsets js walHeaderSize rs, walHeaderSize + length (enc_all js rs), None)"
    "\<exists>bs. OpenReader d (segmentName s) = Inr bs \<and>
      Records js bs walHeaderSize = (with_offsets js walHeaderSize rs, walHeaderSize + length (enc_all js rs), None)"
    by simp_all
qed

lemma replay_records_append:
  "replay_records now a (xs @ ys) b s =
     (case replay_records now a xs b s of None \<Rightarrow> None | Some (b', s') \<Rightarrow> replay_records now a ys b' s')"
  by (induction xs arbitrary: b s) (auto simp: Let_def split: option.split)

lemma recover_segments_log:
  assumes "disk_log js d segs tail" "set part \<subseteq> set segs"
  shows "recover_segments js now d a (map (segmentName \<circ> fst) part) b s =
    map_option (\<lambda>(b', s'). (b', s', None)) (replay_records now a (log_of part) b s)"
  using assms(2)
proof (induction part arbitrary: b s)
  case (Cons x part)
  obtain q rs where x: "x = (q, rs)" by (cases x)
  obtain bs where "OpenReader d (segmentName q) = Inr bs"
    "Records js bs walHeaderSize = (with_offsets js walHeaderSize rs, walHeaderSize + length (enc_all js rs), None)"
    using disk_log_segment(2) [OF assms(1), of q rs] Cons.prems x by auto
  with Cons x show ?case
    by (auto simp: log_of_def replay_records_append split: option.split)
qed (simp add: log_of_def)

lemma Recover_log:
  assumes "disk_log js d segs tail"
  shows "Recover js now d book afterSeq =
    map_option (\<lambda>(b, s). (b, s, None)) (replay_records now afterSeq (log_of segs) book 0)"
proof -
  have "segmentPaths d = map (segmentName \<circ> fst) segs" using assms by (simp add: disk_log_def holds_segments_def)
  then show ?thesis unfolding Recover_def using recover_segments_log [OF assms order.refl] by simp
qed

section \<open>A crash at any byte\<close>

lemma take_enc_all:
  assumes "\<And>r. r \<in> set rs \<Longrightarrow> loggable js r"
  shows "\<exists>j tail. take k (enc_all js rs) = enc_all js (take j rs) @ tail \<and> torn_tail js tail \<and> j \<le> length rs \<and>
    (\<forall>m. length (enc_all js (take m rs)) \<le> k \<longrightarrow> m \<le> length rs \<longrightarrow> m \<le> j)"
  using assms
proof (induction rs arbitrary: k)
  case Nil
  show ?case by (intro exI [of _ 0] exI [of _ "[]"]) (simp add: torn_tail_def)
next
  case (Cons r rs)
  show ?case
  proof (cases "k < length (enc js r)")
    case True
    have "m = 0" if "length (enc_all js (take m (r # rs))) \<le> k" for m
      using that True by (cases m) auto
    with True Cons.prems show ?thesis
      by (intro exI [of _ 0] exI [of _ "take k (enc js r)"]) (auto simp: torn_tail_def)
  next
    case False
    obtain j tail where j: "take (k - length (enc js r)) (enc_all js rs) = enc_all js (take j rs) @ tail"
      "torn_tail js tail" "j \<le> length rs"
      "\<And>m. length (enc_all js (take m rs)) \<le> k - length (enc js r) \<Longrightarrow> m \<le> length rs \<Longrightarrow> m \<le> j"
      using Cons.IH [of "k - length (enc js r)"] Cons.prems by auto
    have "m \<le> Suc j" if "length (enc_all js (take m (r # rs))) \<le> k" "m \<le> length (r # rs)" for m
      using that j(4) [of "m - 1"] by (cases m) auto
    with False j show ?thesis by (intro exI [of _ "Suc j"] exI [of _ tail]) simp
  qed
qed

text \<open>The directory after a crash that left \<open>k\<close> bytes of the open segment.\<close>

definition crash_at :: "nat \<Rightarrow> Writer \<Rightarrow> Disk \<Rightarrow> Disk" where
  "crash_at k w d = (case w_seg w of
     None \<Rightarrow> d
   | Some path \<Rightarrow> d\<lparr>files := gput path (take k (content d path @ w_buf w)) (files d)\<rparr>)"

lemma log_of_snoc [simp]: "log_of (segs @ [(s, rs)]) = log_of segs @ rs"
  by (simp add: log_of_def)

lemma crash_disk_log:
  assumes inv: "writer_inv js w d (segs @ [(s, rs @ extra)])" and k: "length (seg_bytes js rs) \<le> k"
  shows "\<exists>j tail. disk_log js (crash_at k w d) (segs @ [(s, rs @ take j extra)]) tail"
proof -
  let ?path = "segmentName s"
  have wf: "wf_segments js (segs @ [(s, rs @ extra)])" and ord: "ordered_segments (segs @ [(s, rs @ extra)])"
    and h: "holds_segments js d (segs @ [(s, rs @ extra)]) (w_buf w) []" and seg: "w_seg w = Some ?path"
    using inv by (auto simp: writer_inv_def)
  obtain bs where bs: "map_of (files d) ?path = Some bs" "bs @ w_buf w = seg_bytes js (rs @ extra)"
    using h by (auto simp: holds_segments_def)
  have lg: "\<And>r. r \<in> set extra \<Longrightarrow> loggable js r" using wf by (auto simp: wf_segments_def)
  obtain j tail where j: "take (k - length (seg_bytes js rs)) (enc_all js extra) = enc_all js (take j extra) @ tail"
    "torn_tail js tail" using take_enc_all [OF lg] by metis
  have t: "take k (content d ?path @ w_buf w) = seg_bytes js (rs @ take j extra) @ tail"
    using bs k j(1) by (simp add: seg_bytes_def)
  have "sorted_wrt (<) (map r_Seq (rs @ take j extra))"
  proof -
    have "sorted_wrt (<) (take (length rs + j) (map r_Seq (rs @ extra)))"
      using ord by (intro sorted_wrt_take) (simp add: ordered_segments_def)
    then show ?thesis by (simp add: take_map)
  qed
  then have "ordered_segments (segs @ [(s, rs @ take j extra)])"
    using ord by (auto simp: ordered_segments_def sorted_wrt_append dest: in_set_takeD)
  moreover have "wf_segments js (segs @ [(s, rs @ take j extra)])"
    using wf by (auto simp: wf_segments_def dest: in_set_takeD)
  moreover have "holds_segments js (crash_at k w d) (segs @ [(s, rs @ take j extra)]) [] tail"
    using h bs t seg wf_segments_distinct(2) [OF wf] length_segment_header
    by (auto simp: holds_segments_def crash_at_def segmentPaths_put_old seg_bytes_def)
  ultimately show ?thesis using j(2) by (auto simp: disk_log_def)
qed

section \<open>Opening the log again\<close>

lemma max_seq_ge: "m \<le> max_seq rs m" "r \<in> set rs \<Longrightarrow> r_Seq r \<le> max_seq rs m"
  "max_seq rs m = m \<or> (\<exists>r \<in> set rs. max_seq rs m = r_Seq r)"
proof (induction rs arbitrary: m)
  case (Cons r' rs)
  { case 1 then show ?case using Cons(1) [of "max m (r_Seq r')"] by (simp add: max_seq_def max_def split: if_splits)
  next case 2 then show ?case
      using Cons(1) [of "if r_Seq r' > m then r_Seq r' else m"] Cons(2) [of "if r_Seq r' > m then r_Seq r' else m"]
      by (auto simp: max_seq_def split: if_splits)
  next case 3 then show ?case
      using Cons(3) [of "if r_Seq r' > m then r_Seq r' else m"] by (auto simp: max_seq_def split: if_splits) }
qed (simp_all add: max_seq_def)

lemma scanSegment_log:
  assumes "disk_log js d segs tail"
  shows "scanSegment js d (segmentName (fst (last segs))) =
    (max_seq (snd (last segs)) 0, length (seg_bytes js (snd (last segs))), None)"
proof -
  have "segs \<noteq> []" using assms by (simp add: disk_log_def wf_segments_def)
  then have "(fst (last segs), snd (last segs)) \<in> set segs" by simp
  from disk_log_segment(2) [OF assms this] show ?thesis
    by (auto simp: scanSegment_def seg_bytes_def)
qed

lemma watermark_segmentName:
  assumes "seq_ok s" "0 \<le> m"
  shows "watermark (segmentName s) m = max (s - 1) m"
  using assms seqFromName_segmentName [OF assms(1)]
  by (simp add: watermark_def seq_ok_def max_i64_def sub64_def is_i64_def max_def)

lemma last_segment_max:
  assumes "disk_log js d segs tail"
  shows "\<And>r. r \<in> set (log_of segs) \<Longrightarrow> r_Seq r \<le> watermark (segmentName (fst (last segs))) (max_seq (snd (last segs)) 0)"
    "watermark (segmentName (fst (last segs))) (max_seq (snd (last segs)) 0) =
       max (fst (last segs) - 1) (max_seq (snd (last segs)) 0)"
proof -
  obtain pre s rs where e: "segs = pre @ [(s, rs)]"
    using assms by (cases segs rule: rev_cases) (auto simp: disk_log_def wf_segments_def)
  have s: "seq_ok s" using assms by (auto simp: e disk_log_def wf_segments_def)
  show w: "watermark (segmentName (fst (last segs))) (max_seq (snd (last segs)) 0) =
       max (fst (last segs) - 1) (max_seq (snd (last segs)) 0)"
    using watermark_segmentName [OF s max_seq_ge(1)] by (simp add: e)
  fix r assume "r \<in> set (log_of segs)"
  then consider "r \<in> set (log_of pre)" | "r \<in> set rs" by (auto simp: e)
  then show "r_Seq r \<le> watermark (segmentName (fst (last segs))) (max_seq (snd (last segs)) 0)"
  proof cases
    case 1
    then have "r_Seq r < s" using assms by (fastforce simp: e disk_log_def ordered_segments_def sorted_wrt_append log_of_def)
    then show ?thesis unfolding w by (simp add: e)
  next
    case 2
    then show ?thesis using max_seq_ge(2) [OF 2, of 0] unfolding w by (simp add: e)
  qed
qed

lemma OpenWriter_inv:
  assumes dl: "disk_log js d segs tail" and io: "write_ok d" "sync_ok d"
  shows "\<exists>w d'. OpenWriter js d = (d', Inr w) \<and> writer_inv js w d' segs \<and> w_buf w = [] \<and>
    write_ok d' \<and> sync_ok d' \<and> LastSeq w = max (fst (last segs) - 1) (max_seq (snd (last segs)) 0)"
proof -
  let ?path = "segmentName (fst (last segs))" and ?rs = "snd (last segs)"
  have wf: "wf_segments js segs" "ordered_segments segs" and h: "holds_segments js d segs [] tail"
    using dl by (auto simp: disk_log_def)
  have ne: "segs \<noteq> []" using wf by (simp add: wf_segments_def)
  obtain bs where bs: "map_of (files d) ?path = Some bs" "bs = seg_bytes js ?rs @ tail"
    using h by (auto simp: holds_segments_def)
  let ?d = "d\<lparr>files := gput ?path (seg_bytes js ?rs) (files d)\<rparr>"
  let ?w = "new_writer\<lparr>w_seg := Some ?path, segBytes := int (length (seg_bytes js ?rs)),
      lastSeq := watermark ?path (max_seq ?rs 0)\<rparr>"
  have paths: "segmentPaths d = map (segmentName \<circ> fst) segs" using h by (simp add: holds_segments_def)
  then have lp: "segmentPaths d \<noteq> []" "last (segmentPaths d) = ?path" using ne by (simp_all add: last_map)
  have open_eq: "OpenWriter js d = (?d, Inr ?w)"
    using io lp scanSegment_log [OF dl] bs
    by (cases "segmentPaths d") (simp_all add: OpenWriter_def Let_def)
  have "holds_segments js ?d segs [] []"
    using h bs wf_segments_distinct(2) [OF wf(1)]
    by (auto simp: holds_segments_def segmentPaths_put_old seg_bytes_def)
  moreover have "0 \<le> max_seq ?rs 0" by (rule max_seq_ge(1))
  moreover have "fst (last segs) \<le> watermark ?path (max_seq ?rs 0)" if "?rs \<noteq> []"
  proof -
    let ?r = "hd ?rs"
    have r: "?r \<in> set ?rs" using that by simp
    have "(fst (last segs), ?rs) \<in> set segs" using ne by simp
    then have "fst (last segs) \<le> r_Seq ?r" using wf(2) r by (auto simp: ordered_segments_def)
    with max_seq_ge(2) [OF r, of 0] show ?thesis unfolding last_segment_max(2) [OF dl] by simp
  qed
  ultimately have "writer_inv js ?w ?d segs"
    using wf last_segment_max(1) [OF dl] unfolding last_segment_max(2) [OF dl]
    by (auto simp: writer_inv_def new_writer_def)
  with open_eq io show ?thesis
    by (auto simp: LastSeq_def last_segment_max(2) [OF dl] new_writer_def)
qed

text \<open>A directory that has never been written to.\<close>

lemma OpenWriter_new:
  assumes "segmentPaths d = []" "gwf (files d)" "write_ok d" "sync_ok d"
  shows "\<exists>w d'. OpenWriter js d = (d', Inr w) \<and> writer_inv js w d' [(1, [])] \<and> LastSeq w = 0 \<and> write_ok d' \<and> sync_ok d'"
proof -
  let ?d = "d\<lparr>files := gput (segmentName 1) segment_header (files d)\<rparr>"
  have "segmentName 1 \<notin> fst ` set (files d)"
    using assms(1) set_segmentPaths [of d] by (metis (mono_tags) empty_iff has_suffix_segmentName list.set(1) mem_Collect_eq)
  then have p: "segmentPaths ?d = [segmentName 1]"
    using segmentPaths_put_new [of "segmentName 1" d segment_header] assms(1) by simp
  have "wf_segments js [(1, [])]" by (simp add: wf_segments_def seq_ok_def max_i64_def)
  with assms p show ?thesis
    by (auto simp: OpenWriter_def openSegment_def Let_def writer_inv_def holds_segments_def seg_bytes_def new_writer_def
        ordered_segments_def log_of_def LastSeq_def)
qed

end
