(* ===== verification/OMS_Book_Interface.thy ===== *)
theory OMS_Book_Interface
  imports OMS_Book_Props
begin

text \<open>
  The contract of the matching engine (interface \<open>OrderBook\<close> of \<open>types.go\<close>) as a locale, what a
  client that feeds it a sequence of mutations may rely on, and its two implementations: \<open>Book\<close>
  and the mutex-guarded \<open>MutexBook\<close> of \<open>book_mutex.go\<close>.
\<close>

section \<open>The contract\<close>

definition resting_ids :: "abook \<Rightarrow> SeqID set" where
  "resting_ids a = o_SeqID ` (set (a_buys a) \<union> set (a_sells a))"

definition spec_trades :: "abook \<times> MatchResult \<times> Err option \<Rightarrow> abook \<times> Trade list \<times> Err option" where
  "spec_trades = (\<lambda>(a, r, e). (a, mr_Trades r, e))"

locale order_book =
  fixes submit :: "(SeqID \<Rightarrow> Time) \<Rightarrow> 'b \<Rightarrow> Order \<Rightarrow> ('b \<times> Trade list \<times> Err option) option"
    and cancel :: "'b \<Rightarrow> SeqID \<Rightarrow> ('b \<times> Err option) option"
    and ok :: "'b \<Rightarrow> bool"
    and view :: "'b \<Rightarrow> abook"
  assumes submit_law: "ok b \<Longrightarrow> is_i64 (o_Quantity x) \<Longrightarrow> o_SeqID x \<notin> resting_ids (view b) \<Longrightarrow>
      \<exists>b' ts e. submit now b x = Some (b', ts, e) \<and> ok b' \<and> (view b', ts, e) = spec_trades (spec_submit now (view b) x)"
    and cancel_law: "ok b \<Longrightarrow>
      \<exists>b' e. cancel b i = Some (b', e) \<and> ok b' \<and> (view b', e) = spec_cancel (view b) i []"
begin

lemma submit_then_cancel_total:
  assumes "ok b" "is_i64 (o_Quantity x)" "o_SeqID x \<notin> resting_ids (view b)"
  shows "\<exists>b1 ts e b2 e'. submit now b x = Some (b1, ts, e) \<and> cancel b1 i = Some (b2, e') \<and> ok b2 \<and>
    view b2 = fst (spec_cancel (fst (spec_submit now (view b) x)) i [])"
proof -
  obtain b1 ts e where 1: "submit now b x = Some (b1, ts, e)" "ok b1"
    "(view b1, ts, e) = spec_trades (spec_submit now (view b) x)"
    using submit_law [OF assms] by blast
  obtain b2 e' where 2: "cancel b1 i = Some (b2, e')" "ok b2" "(view b2, e') = spec_cancel (view b1) i []"
    using cancel_law [OF 1(2)] by blast
  have "view b1 = fst (spec_submit now (view b) x)"
    using 1(3) by (simp add: spec_trades_def split: prod.splits)
  with 1 2 show ?thesis by (metis fst_conv)
qed

end

text \<open>The book the log is replayed into also checks who cancels.\<close>

locale owned_book = order_book submit cancel ok view
  for submit :: "(SeqID \<Rightarrow> Time) \<Rightarrow> 'b \<Rightarrow> Order \<Rightarrow> ('b \<times> Trade list \<times> Err option) option"
    and cancel :: "'b \<Rightarrow> SeqID \<Rightarrow> ('b \<times> Err option) option"
    and ok :: "'b \<Rightarrow> bool"
    and view :: "'b \<Rightarrow> abook" +
  fixes cancel_owned :: "'b \<Rightarrow> SeqID \<Rightarrow> string \<Rightarrow> ('b \<times> Err option) option"
  assumes cancel_owned_law: "ok b \<Longrightarrow>
      \<exists>b' e. cancel_owned b i by = Some (b', e) \<and> ok b' \<and> (view b', e) = spec_cancel (view b) i by"

section \<open>Sequences of mutations\<close>

datatype mutation = Placed Order | Cancelled SeqID string | Nothing

definition mutate ::
  "((SeqID \<Rightarrow> Time) \<Rightarrow> 'b \<Rightarrow> Order \<Rightarrow> ('b \<times> Trade list \<times> Err option) option)
     \<Rightarrow> ('b \<Rightarrow> SeqID \<Rightarrow> string \<Rightarrow> ('b \<times> Err option) option) \<Rightarrow> (SeqID \<Rightarrow> Time) \<Rightarrow> mutation \<Rightarrow> 'b \<Rightarrow> 'b option" where
  "mutate submit cancel_owned now m b = (case m of
     Placed x \<Rightarrow> map_option fst (submit now b x)
   | Cancelled i by \<Rightarrow> map_option fst (cancel_owned b i by)
   | Nothing \<Rightarrow> Some b)"

fun foldM :: "('m \<Rightarrow> 'b \<Rightarrow> 'b option) \<Rightarrow> 'm list \<Rightarrow> 'b \<Rightarrow> 'b option" where
  "foldM f [] b = Some b"
| "foldM f (m # ms) b = (case f m b of None \<Rightarrow> None | Some b' \<Rightarrow> foldM f ms b')"

text \<open>What a mutation does to the two queues. The clock is irrelevant to them.\<close>

definition spec_mutate :: "mutation \<Rightarrow> abook \<Rightarrow> abook" where
  "spec_mutate m a = (case m of
     Placed x \<Rightarrow> fst (spec_submit (\<lambda>_. 0) a x)
   | Cancelled i by \<Rightarrow> fst (spec_cancel a i by)
   | Nothing \<Rightarrow> a)"

lemma spec_submit_clock: "fst (spec_submit now a x) = fst (spec_submit (\<lambda>_. 0) a x)"
proof -
  let ?ms = "if o_Side x = Buy then a_sells a else a_buys a"
  obtain ts ids x' ms' tid where "spec_match now (o_Side x) (a_nextTradeID a) x ?ms = (ts, ids, x', ms', tid)"
    by (metis prod_cases5)
  moreover from spec_match_clock [OF this]
  have "spec_match (\<lambda>_. 0) (o_Side x) (a_nextTradeID a) x ?ms = (map untimed ts, ids, x', ms', tid)" .
  ultimately show ?thesis by (simp add: spec_submit_def Let_def)
qed

lemma set_spec_insert: "set (spec_insert s x ys) = insert x (set ys)"
  by (simp add: spec_insert_def) (metis Un_insert_left Un_insert_right set_takeWhile_dropWhile)

lemma spec_submit_ids: "resting_ids (fst (spec_submit now a x)) \<subseteq> insert (o_SeqID x) (resting_ids a)"
proof -
  obtain ts ids x' ms' tid where sm:
    "spec_match now (o_Side x) (a_nextTradeID a) x (if o_Side x = Buy then a_sells a else a_buys a) = (ts, ids, x', ms', tid)"
    by (metis prod_cases5)
  have i: "o_SeqID x' = o_SeqID x" by (subst spec_match_taker [OF sm, symmetric]) simp
  have "o_SeqID ` set (spec_insert s x' ys) = insert (o_SeqID x) (o_SeqID ` set ys)" for s ys
    using i by (simp add: set_spec_insert)
  moreover have "o_SeqID ` set ms' \<subseteq> o_SeqID ` set (if o_Side x = Buy then a_sells a else a_buys a)"
    by (rule spec_match_ids [OF sm])
  ultimately show ?thesis
    using sm unfolding spec_submit_def Let_def resting_ids_def image_Un
    by (cases "o_Side x = Buy") (simp_all, blast+)
qed

lemma spec_cancel_ids: "resting_ids (fst (spec_cancel a i by)) \<subseteq> resting_ids a"
  by (auto simp: spec_cancel_def resting_ids_def split: option.split)

definition placed_ids :: "mutation list \<Rightarrow> SeqID list" where
  "placed_ids ms = concat (map (\<lambda>m. case m of Placed x \<Rightarrow> [o_SeqID x] | _ \<Rightarrow> []) ms)"

definition i64_mutation :: "mutation \<Rightarrow> bool" where
  "i64_mutation m = (case m of Placed x \<Rightarrow> is_i64 (o_Quantity x) | _ \<Rightarrow> True)"

lemma placed_ids_Cons [simp]:
  "placed_ids [] = []" "placed_ids (m # ms) = (case m of Placed x \<Rightarrow> [o_SeqID x] | _ \<Rightarrow> []) @ placed_ids ms"
  by (simp_all add: placed_ids_def)

lemma spec_mutate_ids: "resting_ids (spec_mutate m a) \<subseteq> set (placed_ids [m]) \<union> resting_ids a"
  using spec_submit_ids spec_cancel_ids by (cases m) (fastforce simp: spec_mutate_def)+

context owned_book
begin

lemma mutate_law:
  assumes "ok b" "i64_mutation m" "set (placed_ids [m]) \<inter> resting_ids (view b) = {}"
  shows "\<exists>b'. mutate submit cancel_owned now m b = Some b' \<and> ok b' \<and> view b' = spec_mutate m (view b)"
proof (cases m)
  case (Placed x)
  have x: "is_i64 (o_Quantity x)" "o_SeqID x \<notin> resting_ids (view b)" using assms Placed by (auto simp: i64_mutation_def)
  obtain b' ts e where s: "submit now b x = Some (b', ts, e)" "ok b'"
    "(view b', ts, e) = spec_trades (spec_submit now (view b) x)"
    using submit_law [OF assms(1) x] by blast
  have "view b' = fst (spec_submit now (view b) x)" using s(3) by (simp add: spec_trades_def split: prod.splits)
  with s Placed spec_submit_clock [of now "view b" x] show ?thesis by (simp add: mutate_def spec_mutate_def)
next
  case (Cancelled i "by")
  obtain b' e where "cancel_owned b i by = Some (b', e)" "ok b'" "(view b', e) = spec_cancel (view b) i by"
    using cancel_owned_law [OF assms(1)] by blast
  with Cancelled show ?thesis by (auto simp: mutate_def spec_mutate_def dest: arg_cong [where f = fst])
next
  case Nothing
  with assms show ?thesis by (simp add: mutate_def spec_mutate_def)
qed

text \<open>Feeding a sequence of mutations never fails and has one outcome, whatever the clock.\<close>

lemma feed_law:
  assumes "ok b" "\<And>m. m \<in> set ms \<Longrightarrow> i64_mutation m" "distinct (placed_ids ms)"
    "set (placed_ids ms) \<inter> resting_ids (view b) = {}"
  shows "\<exists>b'. foldM (mutate submit cancel_owned now) ms b = Some b' \<and> ok b' \<and> view b' = fold spec_mutate ms (view b)"
  using assms
proof (induction ms arbitrary: b)
  case (Cons m ms)
  have "i64_mutation m" "set (placed_ids [m]) \<inter> resting_ids (view b) = {}" using Cons.prems(2,4) by auto
  then obtain b1 where b1: "mutate submit cancel_owned now m b = Some b1" "ok b1" "view b1 = spec_mutate m (view b)"
    using mutate_law [OF Cons.prems(1)] by blast
  have "set (placed_ids ms) \<inter> resting_ids (view b1) = {}"
    using Cons.prems(3,4) spec_mutate_ids [of m "view b"] unfolding b1(3) by (fastforce split: mutation.splits)
  then have "\<exists>b'. foldM (mutate submit cancel_owned now) ms b1 = Some b' \<and> ok b' \<and> view b' = fold spec_mutate ms (view b1)"
    by (intro Cons.IH) (use b1(2) Cons.prems(2,3) in auto)
  with b1 show ?case by auto
qed simp

end

section \<open>The book meets the contract\<close>

lemma resting_ids_abs: "wf_book b \<Longrightarrow> resting_ids (abs_book b) = fst ` set (index b)"
  using index_ids by (simp add: resting_ids_def abs_book_def)

interpretation book: owned_book Submit Cancel wf_book abs_book CancelOwned
proof unfold_locales
  fix b :: Book and x :: Order and now :: "SeqID \<Rightarrow> Time"
  assume "wf_book b" "is_i64 (o_Quantity x)" "o_SeqID x \<notin> resting_ids (abs_book b)"
  then show "\<exists>b' ts e. Submit now b x = Some (b', ts, e) \<and> wf_book b' \<and>
      (abs_book b', ts, e) = spec_trades (spec_submit now (abs_book b) x)"
    using SubmitOrder_refines [of b x now]
    by (auto simp: Submit_def spec_trades_def resting_ids_abs) (metis prod.case)
next
  fix b i
  assume "wf_book b"
  then show "\<exists>b' e. Cancel b i = Some (b', e) \<and> wf_book b' \<and> (abs_book b', e) = spec_cancel (abs_book b) i []"
    using CancelOwned_refines [of b i "[]"] by (simp add: Cancel_def)
next
  fix b i "by"
  assume "wf_book b"
  then show "\<exists>b' e. CancelOwned b i by = Some (b', e) \<and> wf_book b' \<and> (abs_book b', e) = spec_cancel (abs_book b) i by"
    by (rule CancelOwned_refines)
qed

section \<open>The mutex-guarded book\<close>

text \<open>
  A call locks, runs the book's method and unlocks on return. Locking a held mutex blocks, which
  is \<open>None\<close> here: no call ever leaves the mutex held.
\<close>

record MutexBook =
  mb_held :: bool
  mb_book :: Book

definition NewMutexBook :: MutexBook where
  "NewMutexBook = \<lparr>mb_held = False, mb_book = NewBook\<rparr>"

definition with_lock :: "(Book \<Rightarrow> (Book \<times> 'r) option) \<Rightarrow> MutexBook \<Rightarrow> (MutexBook \<times> 'r) option" where
  "with_lock f m =
     (if mb_held m then None
      else
        let m1 = m\<lparr>mb_held := True\<rparr>
        in do { (b, r) \<leftarrow> f (mb_book m1); Some (m1\<lparr>mb_book := b, mb_held := False\<rparr>, r) })"

definition MutexBook_Submit ::
  "(SeqID \<Rightarrow> Time) \<Rightarrow> MutexBook \<Rightarrow> Order \<Rightarrow> (MutexBook \<times> Trade list \<times> Err option) option" where
  "MutexBook_Submit now m x = with_lock (\<lambda>b. Submit now b x) m"

definition MutexBook_Cancel :: "MutexBook \<Rightarrow> SeqID \<Rightarrow> (MutexBook \<times> Err option) option" where
  "MutexBook_Cancel m i = with_lock (\<lambda>b. Cancel b i) m"

definition MutexBook_Snapshot :: "MutexBook \<Rightarrow> (MutexBook \<times> BookState) option" where
  "MutexBook_Snapshot m = with_lock (\<lambda>b. map_option (\<lambda>s. (b, s)) (Snapshot b)) m"

definition MutexBook_RestingCount :: "MutexBook \<Rightarrow> (MutexBook \<times> nat) option" where
  "MutexBook_RestingCount m = with_lock (\<lambda>b. Some (b, RestingCount b)) m"

interpretation mutex_book: order_book MutexBook_Submit MutexBook_Cancel
  "\<lambda>m. \<not> mb_held m \<and> wf_book (mb_book m)" "\<lambda>m. abs_book (mb_book m)"
proof unfold_locales
  fix m :: MutexBook and x :: Order and now :: "SeqID \<Rightarrow> Time"
  assume "\<not> mb_held m \<and> wf_book (mb_book m)" "is_i64 (o_Quantity x)" "o_SeqID x \<notin> resting_ids (abs_book (mb_book m))"
  then show "\<exists>m' ts e. MutexBook_Submit now m x = Some (m', ts, e) \<and> (\<not> mb_held m' \<and> wf_book (mb_book m')) \<and>
      (abs_book (mb_book m'), ts, e) = spec_trades (spec_submit now (abs_book (mb_book m)) x)"
    using book.submit_law [of "mb_book m" x now] by (auto simp: MutexBook_Submit_def with_lock_def)
next
  fix m :: MutexBook and i
  assume "\<not> mb_held m \<and> wf_book (mb_book m)"
  then show "\<exists>m' e. MutexBook_Cancel m i = Some (m', e) \<and> (\<not> mb_held m' \<and> wf_book (mb_book m')) \<and>
      (abs_book (mb_book m'), e) = spec_cancel (abs_book (mb_book m)) i []"
    using book.cancel_law [of "mb_book m" i] by (auto simp: MutexBook_Cancel_def with_lock_def)
qed

end
