(* ===== verification/OMS_Wal_Props.thy ===== *)
theory OMS_Wal_Props
  imports OMS_Wal_Recover OMS_Book_Interface
begin

text \<open>
  The contract of the durable log as a locale (append buffers, sync makes durable, positions
  increase), its interpretation on the segment writer, and the promises of the log: records
  read back, a torn tail is dropped, a changed byte is noticed, a crash loses at most what was
  not synced, and replay rebuilds the book.
\<close>

section \<open>The contract of a durable log\<close>

fun write_all :: "('r \<Rightarrow> 's \<Rightarrow> ('s \<times> Err option) option) \<Rightarrow> 'r list \<Rightarrow> 's \<Rightarrow> ('s \<times> Err option) option" where
  "write_all log_append [] s = Some (s, None)"
| "write_all log_append (r # rs) s = (case log_append r s of
     None \<Rightarrow> None
   | Some (s', Some e) \<Rightarrow> Some (s', Some e)
   | Some (s', None) \<Rightarrow> write_all log_append rs s')"

definition write_batch ::
  "('r \<Rightarrow> 's \<Rightarrow> ('s \<times> Err option) option) \<Rightarrow> ('s \<Rightarrow> ('s \<times> Err option) option)
     \<Rightarrow> 'r list \<Rightarrow> 's \<Rightarrow> ('s \<times> Err option) option" where
  "write_batch log_append log_sync rs s = (case write_all log_append rs s of
     Some (s', None) \<Rightarrow> log_sync s'
   | r \<Rightarrow> r)"

locale durable_log =
  fixes log_append :: "'r \<Rightarrow> 's \<Rightarrow> ('s \<times> Err option) option"
    and log_sync :: "'s \<Rightarrow> ('s \<times> Err option) option"
    and has_log :: "'s \<Rightarrow> 'r list \<Rightarrow> bool"
    and synced :: "'s \<Rightarrow> bool"
    and healthy :: "'s \<Rightarrow> bool"
    and last_pos :: "'s \<Rightarrow> int"
    and pos :: "'r \<Rightarrow> int"
    and fits :: "'r \<Rightarrow> bool"
  assumes append_law: "has_log s L \<Longrightarrow> healthy s \<Longrightarrow> fits r \<Longrightarrow> last_pos s < pos r \<Longrightarrow>
      \<exists>s'. log_append r s = Some (s', None) \<and> has_log s' (L @ [r]) \<and> healthy s' \<and> last_pos s' = pos r"
    and sync_law: "has_log s L \<Longrightarrow> healthy s \<Longrightarrow>
      \<exists>s'. log_sync s = Some (s', None) \<and> has_log s' L \<and> synced s' \<and> healthy s' \<and> last_pos s' = last_pos s"
begin

lemma write_all_law:
  assumes "has_log s L" "healthy s" "\<And>r. r \<in> set rs \<Longrightarrow> fits r" "sorted_wrt (<) (last_pos s # map pos rs)"
  shows "\<exists>s'. write_all log_append rs s = Some (s', None) \<and> has_log s' (L @ rs) \<and> healthy s' \<and>
    last_pos s' = last (last_pos s # map pos rs)"
  using assms
proof (induction rs arbitrary: s L)
  case (Cons r rs)
  obtain s1 where 1: "log_append r s = Some (s1, None)" "has_log s1 (L @ [r])" "healthy s1" "last_pos s1 = pos r"
    using append_law [OF Cons.prems(1,2), of r] Cons.prems(3,4) by auto
  have "\<exists>s'. write_all log_append rs s1 = Some (s', None) \<and> has_log s' ((L @ [r]) @ rs) \<and> healthy s' \<and>
    last_pos s' = last (last_pos s1 # map pos rs)"
    by (rule Cons.IH) (use 1 Cons.prems(3,4) in auto)
  with 1 show ?case by auto
qed auto

text \<open>A group commit: many appends, one sync, everything durable.\<close>

lemma write_batch_law:
  assumes "has_log s L" "healthy s" "\<And>r. r \<in> set rs \<Longrightarrow> fits r" "sorted_wrt (<) (last_pos s # map pos rs)"
  shows "\<exists>s'. write_batch log_append log_sync rs s = Some (s', None) \<and> has_log s' (L @ rs) \<and> synced s' \<and> healthy s' \<and>
    last_pos s' = last (last_pos s # map pos rs)"
proof -
  obtain s1 where 1: "write_all log_append rs s = Some (s1, None)" "has_log s1 (L @ rs)" "healthy s1"
    "last_pos s1 = last (last_pos s # map pos rs)"
    using write_all_law [OF assms] by blast
  with sync_law [OF 1(2,3)] show ?thesis by (auto simp: write_batch_def)
qed

end

section \<open>The segment writer meets it\<close>

type_synonym wal_state = "Writer \<times> Disk"

definition pair_result :: "wal_result \<Rightarrow> (wal_state \<times> Err option) option" where
  "pair_result r = map_option (\<lambda>(w, d, e). ((w, d), e)) r"

definition wal_append :: "Json \<Rightarrow> Record \<Rightarrow> wal_state \<Rightarrow> (wal_state \<times> Err option) option" where
  "wal_append js r s = pair_result (Append js r (fst s) (snd s))"

definition wal_sync :: "wal_state \<Rightarrow> (wal_state \<times> Err option) option" where
  "wal_sync s = pair_result (Sync (fst s) (snd s))"

definition wal_log :: "Json \<Rightarrow> wal_state \<Rightarrow> Record list \<Rightarrow> bool" where
  "wal_log js s L \<longleftrightarrow> (\<exists>segs. writer_inv js (fst s) (snd s) segs \<and> log_of segs = L)"

definition wal_healthy :: "wal_state \<Rightarrow> bool" where
  "wal_healthy s \<longleftrightarrow> write_ok (snd s) \<and> sync_ok (snd s)"

interpretation wal: durable_log "wal_append js" wal_sync "wal_log js" "\<lambda>s. w_buf (fst s) = []" wal_healthy
  "\<lambda>s. lastSeq (fst s)" r_Seq "loggable js" for js
proof unfold_locales
  fix s :: wal_state and L r
  assume a: "wal_log js s L" "wal_healthy s" "loggable js r" "lastSeq (fst s) < r_Seq r"
  then obtain segs where "writer_inv js (fst s) (snd s) segs" "log_of segs = L" by (auto simp: wal_log_def)
  with a Append_inv [of js "fst s" "snd s" segs r]
  show "\<exists>s'. wal_append js r s = Some (s', None) \<and> wal_log js s' (L @ [r]) \<and> wal_healthy s' \<and> lastSeq (fst s') = r_Seq r"
    by (fastforce simp: wal_append_def pair_result_def wal_healthy_def wal_log_def)
next
  fix s :: wal_state and L
  assume a: "wal_log js s L" "wal_healthy s"
  then obtain segs where "writer_inv js (fst s) (snd s) segs" "log_of segs = L" by (auto simp: wal_log_def)
  with a Sync_inv [of js "fst s" "snd s" segs]
  show "\<exists>s'. wal_sync s = Some (s', None) \<and> wal_log js s' L \<and> w_buf (fst s') = [] \<and> wal_healthy s' \<and>
      lastSeq (fst s') = lastSeq (fst s)"
    by (fastforce simp: wal_sync_def pair_result_def wal_healthy_def wal_log_def)
qed

section \<open>Replay\<close>

definition mutation_of :: "Record \<Rightarrow> mutation" where
  "mutation_of r = (case r_Kind r of
     RecordSubmit \<Rightarrow> Placed (r_Order r)
   | RecordCancel \<Rightarrow> Cancelled (r_CancelID r) (r_CancelBy r)
   | RecordUnknown \<Rightarrow> Nothing)"

lemma Apply_mutate: "Apply now r b = mutate Submit CancelOwned now (mutation_of r) b"
  by (cases "r_Kind r") (simp_all add: Apply_def mutate_def mutation_of_def)

text \<open>A log whose submissions carry distinct order identifiers and 64-bit quantities.\<close>

definition replayable :: "Record list \<Rightarrow> bool" where
  "replayable rs \<longleftrightarrow> distinct (placed_ids (map mutation_of rs)) \<and> (\<forall>r \<in> set rs. i64_mutation (mutation_of r))"

lemma replay_records_fold:
  "replay_records now a rs b s =
     map_option (\<lambda>b'. (b', max_seq rs s))
       (foldM (mutate Submit CancelOwned now) (map mutation_of (filter (\<lambda>r. r_Seq r > a) rs)) b)"
proof (induction rs arbitrary: b s)
  case (Cons r rs)
  have "max_seq (r # rs) s = max_seq rs (if r_Seq r > s then r_Seq r else s)" by (simp add: max_seq_def)
  with Cons show ?case by (simp add: Let_def Apply_mutate split: option.split)
qed (simp add: max_seq_def)

lemma distinct_placed_filter:
  "distinct (placed_ids (map mutation_of rs)) \<Longrightarrow> distinct (placed_ids (map mutation_of (filter P rs))) \<and>
   set (placed_ids (map mutation_of (filter P rs))) \<subseteq> set (placed_ids (map mutation_of rs))"
  by (induction rs) auto

lemma replay_log:
  assumes "replayable rs" "wf_book b" "set (placed_ids (map mutation_of rs)) \<inter> resting_ids (abs_book b) = {}"
  shows "\<exists>b'. replay_records now a rs b s = Some (b', max_seq rs s) \<and> wf_book b' \<and>
    abs_book b' = fold spec_mutate (map mutation_of (filter (\<lambda>r. r_Seq r > a) rs)) (abs_book b)"
proof -
  let ?ms = "map mutation_of (filter (\<lambda>r. r_Seq r > a) rs)"
  have "distinct (placed_ids ?ms)" "set (placed_ids ?ms) \<inter> resting_ids (abs_book b) = {}"
    using distinct_placed_filter [of rs "\<lambda>r. r_Seq r > a"] assms(1,3) by (auto simp: replayable_def)
  moreover have "\<And>m. m \<in> set ?ms \<Longrightarrow> i64_mutation m" using assms(1) by (auto simp: replayable_def)
  ultimately show ?thesis
    using book.feed_law [OF assms(2), of ?ms now] by (auto simp: replay_records_fold)
qed

lemma resting_ids_NewBook [simp]: "resting_ids (abs_book NewBook) = {}"
  by (simp add: resting_ids_def abs_book_def queue_def ladder_def NewBook_def)

section \<open>A concrete codec and log to evaluate the properties on\<close>

text \<open>
  A payload codec for the evaluations below: it reads back cancels without an owner and the
  sell orders of one account.
\<close>

definition demo_json :: Json where
  "demo_json = \<lparr>
     j_Marshal = (\<lambda>p. case wp_Order p of
        None \<Rightarrow> Some (0 # PutUint64 (to_u64 (wp_CancelID p)))
      | Some x \<Rightarrow> Some (1 # PutUint64 (to_u64 (o_SeqID x)) @ PutUint64 (to_u64 (o_Price x)) @
                        PutUint64 (to_u64 (o_Quantity x)))),
     j_Unmarshal = (\<lambda>bs. case bs of
        [] \<Rightarrow> None
      | b # rest \<Rightarrow>
          if b = 0 then Some \<lparr>wp_Kind = RecordCancel, wp_Order = None,
             wp_CancelID = of_u64 (Uint64 rest), wp_CancelBy = []\<rparr>
          else Some \<lparr>wp_Kind = RecordSubmit,
             wp_Order = Some (limit_order (of_u64 (Uint64 rest)) ''ram'' Sell (of_u64 (Uint64 (drop 8 rest)))
               (of_u64 (Uint64 (drop 16 rest)))), wp_CancelID = 0, wp_CancelBy = []\<rparr>)\<rparr>"

definition submit_record :: "int \<Rightarrow> Order \<Rightarrow> Record" where
  "submit_record n x = \<lparr>r_Seq = n, r_Kind = RecordSubmit, r_TS = 0, r_Order = x, r_CancelID = 0, r_CancelBy = []\<rparr>"

definition cancel_record :: "int \<Rightarrow> SeqID \<Rightarrow> Record" where
  "cancel_record n i = \<lparr>r_Seq = n, r_Kind = RecordCancel, r_TS = 0, r_Order = zero_Order, r_CancelID = i, r_CancelBy = []\<rparr>"

definition demo_log :: "Record list" where
  "demo_log = [submit_record 1 (limit_order 1 ''ram'' Sell 100 5), submit_record 2 (limit_order 2 ''ram'' Sell 101 7),
     cancel_record 3 1]"

lemma demo_submit_loggable:
  "is_i64 n \<Longrightarrow> is_i64 i \<Longrightarrow> is_i64 p \<Longrightarrow> is_i64 q \<Longrightarrow> loggable demo_json (submit_record n (limit_order i ''ram'' Sell p q))"
  by (simp add: loggable_def wf_record_def json_reads_back_def payload_bytes_def payload_of_def orderPtr_def
      submit_record_def demo_json_def limit_order_def maxRecordPayload_def)

lemma demo_cancel_loggable: "is_i64 n \<Longrightarrow> is_i64 i \<Longrightarrow> loggable demo_json (cancel_record n i)"
  by (simp add: loggable_def wf_record_def json_reads_back_def payload_bytes_def payload_of_def orderPtr_def
      cancel_record_def demo_json_def maxRecordPayload_def)

lemma demo_log_loggable: "r \<in> set demo_log \<Longrightarrow> loggable demo_json r"
  by (auto simp: demo_log_def demo_submit_loggable demo_cancel_loggable is_i64_def)

lemma demo_log_replayable: "replayable demo_log"
  by (simp add: replayable_def demo_log_def mutation_of_def submit_record_def cancel_record_def
      i64_mutation_def limit_order_def is_i64_def)

definition empty_disk :: Disk where
  "empty_disk = \<lparr>files = [], write_ok = True, sync_ok = True\<rparr>"

lemma demo_open:
  obtains w d where "OpenWriter demo_json empty_disk = (d, Inr w)" "writer_inv demo_json w d [(1, [])]"
    "lastSeq w = 0" "write_ok d" "sync_ok d"
  using OpenWriter_new [of empty_disk demo_json] by (auto simp: empty_disk_def segmentPaths_def LastSeq_def)

lemma demo_open_log:
  obtains w d where "OpenWriter demo_json empty_disk = (d, Inr w)" "wal_log demo_json (w, d) []"
    "wal_healthy (w, d)" "lastSeq w = 0"
proof -
  obtain w d where "OpenWriter demo_json empty_disk = (d, Inr w)" "writer_inv demo_json w d [(1, [])]"
    "lastSeq w = 0" "write_ok d" "sync_ok d" by (rule demo_open)
  moreover have "wal_log demo_json (w, d) []"
    unfolding wal_log_def using calculation(2)
    by (intro exI [of _ "[(1, [])]"]) (simp add: log_of_def)
  ultimately show ?thesis using that by (simp add: wal_healthy_def)
qed

section \<open>Properties of the log\<close>

text \<open>
  C37: Records read back: scanning a segment that holds any sequence of written records, followed
  by a record cut off at any byte, yields exactly those records and no error, and reports the
  offset just past the last whole record.
\<close>

theorem segment_reads_back:
  assumes "\<And>r. r \<in> set rs \<Longrightarrow> loggable js r" "torn_tail js tail"
  shows "Records js (enc_all js rs @ tail) off = (with_offsets js off rs, off + length (enc_all js rs), None) \<and>
    map fst (with_offsets js off rs) = rs"
  using Records_torn [OF assms] by simp

theorem segment_reads_back_witness:
  "map fst (fst (Records demo_json (enc_all demo_json demo_log @ take 9 (enc demo_json (cancel_record 4 2))) 8)) = demo_log"
proof -
  have "torn_tail demo_json (take 9 (enc demo_json (cancel_record 4 2)))"
    using demo_cancel_loggable [of 4 2]
    by (auto simp: torn_tail_def is_i64_def length_enc recHeaderSize_def intro!: exI [of _ "cancel_record 4 2"] exI [of _ 9])
  from segment_reads_back [OF demo_log_loggable this, where off = 8] show ?thesis by simp
qed

text \<open>
  C38: Damage is noticed: if one byte of a record behind its length prefix changes, the scan
  still yields every record before it, then reports a corrupt log and yields nothing more.
\<close>

theorem changed_byte_detected:
  assumes "\<And>r. r \<in> set rs \<Longrightarrow> loggable js r" "loggable js bad"
    "4 \<le> i" "i < length (enc js bad)" "b \<noteq> enc js bad ! i"
  shows "Records js (enc_all js rs @ (enc js bad)[i := b] @ rest) off =
    (with_offsets js off rs, off + length (enc_all js rs), Some ErrCorruptWAL)"
proof -
  have "Records js ((enc js bad)[i := b] @ rest) o' = ([], o', Some ErrCorruptWAL)" for o'
    using next_record_changed [OF assms(2-5)] by (simp add: Records.simps)
  then show ?thesis by (simp add: Records_enc_all [OF assms(1)])
qed

theorem changed_byte_detected_witness:
  "\<exists>b. Records demo_json (enc_all demo_json demo_log @ (enc demo_json (cancel_record 4 2))[5 := b]) 8 =
    (with_offsets demo_json 8 demo_log, 8 + length (enc_all demo_json demo_log), Some ErrCorruptWAL)"
proof -
  let ?bad = "cancel_record 4 2" and ?b = "enc demo_json (cancel_record 4 2) ! 5 + 1"
  have l: "loggable demo_json ?bad" "5 < length (enc demo_json ?bad)"
    by (simp_all add: demo_cancel_loggable is_i64_def length_enc recHeaderSize_def)
  have "?b \<noteq> enc demo_json ?bad ! 5" by simp
  from changed_byte_detected [of demo_log demo_json ?bad 5 ?b "[]" 8, OF demo_log_loggable l(1) _ l(2) this]
  have "Records demo_json (enc_all demo_json demo_log @ (enc demo_json ?bad)[5 := ?b] @ []) 8 =
    (with_offsets demo_json 8 demo_log, 8 + length (enc_all demo_json demo_log), Some ErrCorruptWAL)" by simp
  then show ?thesis by (metis append_Nil2)
qed



text \<open>
  C22: Replay rebuilds the book. Recovering a directory a crash left behind into an empty book
  always returns without error or panic; the recovered book is well-formed and its queues are
  those of applying the surviving records one by one, and the reported position is the highest.
\<close>

theorem recover_rebuilds_book:
  assumes "disk_log js d segs tail" "replayable (log_of segs)"
  shows "\<exists>b. Recover js now d NewBook 0 = Some (b, max_seq (log_of segs) 0, None) \<and> wf_book b \<and>
    abs_book b = fold spec_mutate (map mutation_of (filter (\<lambda>r. r_Seq r > 0) (log_of segs))) (abs_book NewBook)"
  using replay_log [OF assms(2) wf_NewBook] Recover_log [OF assms(1), of now NewBook 0] by fastforce

theorem recover_rebuilds_book_witness:
  "\<exists>d b. Recover demo_json demo_clock d NewBook 0 = Some (b, 3, None) \<and> wf_book b \<and>
    abs_book b = fold spec_mutate (map mutation_of (filter (\<lambda>r. r_Seq r > 0) demo_log)) (abs_book NewBook)"
proof -
  obtain w d where w: "OpenWriter demo_json empty_disk = (d, Inr w)" "wal_log demo_json (w, d) []"
    "wal_healthy (w, d)" "lastSeq w = 0" by (rule demo_open_log)
  have "sorted_wrt (<) (lastSeq (fst (w, d)) # map r_Seq demo_log)"
    by (simp add: w(4) demo_log_def submit_record_def cancel_record_def)
  from wal.write_batch_law [OF w(2,3) demo_log_loggable this] obtain s where
    s: "wal_log demo_json s demo_log" "w_buf (fst s) = []" by auto
  then obtain segs where segs: "writer_inv demo_json (fst s) (snd s) segs" "log_of segs = demo_log"
    by (auto simp: wal_log_def)
  then have "disk_log demo_json (snd s) segs []" using s(2) by (simp add: disk_log_def writer_inv_def torn_tail_def)
  moreover have "max_seq demo_log 0 = 3" by (simp add: max_seq_def demo_log_def submit_record_def cancel_record_def)
  ultimately show ?thesis
    using recover_rebuilds_book [of demo_json "snd s" segs "[]" demo_clock] demo_log_replayable by (auto simp: segs(2))
qed

text \<open>
  Segment names sort in log order: for positions in range, the fixed-width names compare as
  strings exactly as the positions compare as numbers, and a name gives its position back.
\<close>

lemma segment_names_ordered:
  assumes "seq_ok a" "seq_ok b"
  shows "(segmentName a < segmentName b \<longleftrightarrow> a < b) \<and> seqFromName (segmentName a) = Some a"
  using segmentName_less [OF assms] segmentName_less [OF assms(2,1)] seqFromName_segmentName [OF assms(1)]
  by (metis less_asym linorder_neqE)

lemma segment_names_ordered_witness:
  "segmentName 99 < segmentName 1000 \<and> seqFromName (segmentName 99) = Some 99"
  using segment_names_ordered [of 99 1000] by (simp add: seq_ok_def max_i64_def)

end
