(* ===== verification/OMS_Sequencer.thy ===== *)
theory OMS_Sequencer
  imports OMS_Wal OMS_Accounts
begin

text \<open>
  The single-writer sequencer of \<open>internal/oms/sequencer.go\<close>. One goroutine owns the book, the
  log writer and the counters; it takes a batch of waiting requests, assigns order
  identifiers, reserves funds, logs and syncs the batch, and only then applies it.

  The goroutine's own fields are the record \<open>Sequencer\<close>; what it shares with the rest of the
  process (the account store, the log directory, the trade callback) is the record \<open>Venue\<close>,
  which every step takes and returns. The readings of \<open>time.Now\<close> are a parameter.
  \<open>None\<close> is a panic.
\<close>

section \<open>Requests and results\<close>

datatype reqKind = reqSubmit | reqCancel | reqSnapshot

record request =
  rq_kind :: reqKind
  rq_order :: Order
  rq_cancelID :: SeqID
  rq_cancelBy :: string
  rq_seq :: int
  rq_orderID :: SeqID
  rq_preErr :: "Err option"

record result =
  rs_state :: "BookState option"
  rs_seq :: int
  rs_orderID :: SeqID
  rs_trades :: "Trade list"
  rs_selfPrevented :: "SeqID list"
  rs_restingQty :: int
  rs_err :: "Err option"
  rs_pickedUpAt :: Time
  rs_respondedAt :: Time

definition zero_request :: request where
  "zero_request = \<lparr>rq_kind = reqSubmit, rq_order = zero_Order, rq_cancelID = 0, rq_cancelBy = [], rq_seq = 0,
     rq_orderID = 0, rq_preErr = None\<rparr>"

definition zero_result :: result where
  "zero_result = \<lparr>rs_state = None, rs_seq = 0, rs_orderID = 0, rs_trades = [], rs_selfPrevented = [],
     rs_restingQty = 0, rs_err = None, rs_pickedUpAt = zero_Time, rs_respondedAt = zero_Time\<rparr>"

section \<open>State\<close>

text \<open>
  \<open>s_accounts\<close> says whether an account store is attached, \<open>s_onTrades\<close> holds the symbol the
  attached callback reports under. \<open>s_once\<close> and \<open>s_done\<close> are the closing of the two channels.
\<close>

record Sequencer =
  s_book :: Book
  s_wal :: "Writer option"
  s_once :: bool
  s_done :: bool
  s_symbol :: string
  s_accounts :: bool
  s_onTrades :: "string option"
  s_seq :: int
  s_nextOrderID :: SeqID
  s_walErr :: "Err option"
  s_commits :: int
  s_batched :: int
  s_resting :: int
  s_lastPos :: int
  s_shutdownErr :: "Err option"

record Venue =
  v_accounts :: Accounts
  v_disk :: Disk
  v_feed :: "(string \<times> Trade list) list"

text \<open>The clock readings of one commit: at its start, per request served, per trade.\<close>

record Clock =
  ck_pickedUp :: Time
  ck_responded :: "nat \<Rightarrow> Time"
  ck_trade :: "SeqID \<Rightarrow> Time"

definition maxBatch :: nat where
  "maxBatch = 256"

definition NewSequencerWithWAL :: "Book \<Rightarrow> Writer option \<Rightarrow> Sequencer" where
  "NewSequencerWithWAL book wal =
     \<lparr>s_book = book, s_wal = wal, s_once = False, s_done = False, s_symbol = [], s_accounts = False,
      s_onTrades = None, s_seq = (case wal of None \<Rightarrow> 0 | Some w \<Rightarrow> LastSeq w), s_nextOrderID = MaxOrderID book,
      s_walErr = None, s_commits = 0, s_batched = 0, s_resting = 0, s_lastPos = 0, s_shutdownErr = None\<rparr>"

definition NewSequencer :: "Book \<Rightarrow> Sequencer" where
  "NewSequencer book = NewSequencerWithWAL book None"

definition attach :: "string \<Rightarrow> bool \<Rightarrow> string option \<Rightarrow> Sequencer \<Rightarrow> Sequencer" where
  "attach symbol accounts onTrades s = s\<lparr>s_symbol := symbol, s_accounts := accounts, s_onTrades := onTrades\<rparr>"

section \<open>Committing a batch\<close>

text \<open>The first loop of \<open>commit\<close>: identifiers and the symbol.\<close>

definition assign_id :: "request \<Rightarrow> Sequencer \<Rightarrow> request \<times> Sequencer" where
  "assign_id r s =
     (if rq_kind r \<noteq> reqSubmit then (r, s)
      else
        let (r1, s1) =
              (if o_SeqID (rq_order r) = 0 then
                 let n = add64 (s_nextOrderID s) 1
                 in (r\<lparr>rq_order := (rq_order r)\<lparr>o_SeqID := n\<rparr>\<rparr>, s\<lparr>s_nextOrderID := n\<rparr>)
               else (r, s));
            r2 = r1\<lparr>rq_orderID := o_SeqID (rq_order r1)\<rparr>
        in (if s_symbol s \<noteq> [] then r2\<lparr>rq_order := (rq_order r2)\<lparr>o_Symbol := s_symbol s\<rparr>\<rparr> else r2, s1))"

fun assign_ids :: "request list \<Rightarrow> Sequencer \<Rightarrow> request list \<times> Sequencer" where
  "assign_ids [] s = ([], s)"
| "assign_ids (r # rs) s =
     (let (r', s1) = assign_id r s; (rs', s2) = assign_ids rs s1 in (r' # rs', s2))"

text \<open>The second loop: check and reserve.\<close>

definition reserve_one :: "request \<Rightarrow> Accounts \<Rightarrow> request \<times> Accounts" where
  "reserve_one r a =
     (if rq_kind r \<noteq> reqSubmit then (r, a)
      else
        let (a', e) = Reserve (rq_order r) a
        in (case e of None \<Rightarrow> (r, a') | Some err \<Rightarrow> (r\<lparr>rq_preErr := Some err\<rparr>, a')))"

fun reserve_all :: "request list \<Rightarrow> Accounts \<Rightarrow> request list \<times> Accounts" where
  "reserve_all [] a = ([], a)"
| "reserve_all (r # rs) a =
     (let (r', a1) = reserve_one r a; (rs', a2) = reserve_all rs a1 in (r' # rs', a2))"

text \<open>
  \<open>logBatch\<close>: one record per accepted mutation, then one sync. An append that fails ends the
  loop; the positions handed out so far stay in the batch.
\<close>

definition skipped :: "request \<Rightarrow> bool" where
  "skipped r \<longleftrightarrow> rq_preErr r \<noteq> None \<or> rq_kind r = reqSnapshot"

definition record_of :: "request \<Rightarrow> int \<Rightarrow> Time \<Rightarrow> Record" where
  "record_of r seq ts =
     (if rq_kind r = reqCancel
      then \<lparr>r_Seq = seq, r_Kind = RecordCancel, r_TS = ts, r_Order = zero_Order,
            r_CancelID = rq_cancelID r, r_CancelBy = rq_cancelBy r\<rparr>
      else \<lparr>r_Seq = seq, r_Kind = RecordSubmit, r_TS = ts, r_Order = rq_order r, r_CancelID = 0, r_CancelBy = []\<rparr>)"

fun log_requests ::
  "Json \<Rightarrow> Time \<Rightarrow> request list \<Rightarrow> int \<Rightarrow> Writer \<Rightarrow> Disk
     \<Rightarrow> (request list \<times> int \<times> Writer \<times> Disk \<times> Err option) option" where
  "log_requests js ts [] seq w d = Some ([], seq, w, d, None)"
| "log_requests js ts (r # rs) seq w d =
     (if skipped r then do {
        (rs', seq', w', d', e) \<leftarrow> log_requests js ts rs seq w d;
        Some (r # rs', seq', w', d', e) }
      else do {
        let seq1 = add64 seq 1;
        let r1 = r\<lparr>rq_seq := seq1\<rparr>;
        (w1, d1, e) \<leftarrow> Append js (record_of r seq1 ts) w d;
        (case e of
           Some err \<Rightarrow> Some (r1 # rs, seq1, w1, d1, Some err)
         | None \<Rightarrow> do {
             (rs', seq', w', d', e') \<leftarrow> log_requests js ts rs seq1 w1 d1;
             Some (r1 # rs', seq', w', d', e') }) })"

definition logBatch ::
  "Json \<Rightarrow> Time \<Rightarrow> request list \<Rightarrow> int \<Rightarrow> Writer \<Rightarrow> Disk
     \<Rightarrow> (request list \<times> int \<times> Writer \<times> Disk \<times> Err option) option" where
  "logBatch js ts batch seq w d = do {
     (batch', seq', w', d', e) \<leftarrow> log_requests js ts batch seq w d;
     (case e of
        Some err \<Rightarrow> Some (batch', seq', w', d', Some err)
      | None \<Rightarrow> do { (w'', d'', e') \<leftarrow> Sync w' d'; Some (batch', seq', w'', d'', e') }) }"

text \<open>The guarded call of it: a failure is sticky and takes the position back.\<close>

definition log_phase ::
  "Json \<Rightarrow> Time \<Rightarrow> request list \<Rightarrow> Sequencer \<Rightarrow> Disk \<Rightarrow> (request list \<times> Sequencer \<times> Disk) option" where
  "log_phase js ts batch s d = (case (s_wal s, s_walErr s) of
     (Some w, None) \<Rightarrow> do {
       (batch', seq', w', d', e) \<leftarrow> logBatch js ts batch (s_seq s) w d;
       (case e of
          None \<Rightarrow> Some (batch', s\<lparr>s_seq := seq', s_wal := Some w'\<rparr>, d')
        | Some err \<Rightarrow> Some (batch', s\<lparr>s_wal := Some w', s_walErr := Some err\<rparr>, d')) }
   | _ \<Rightarrow> Some (batch, s, d))"

definition release :: "Sequencer \<Rightarrow> request \<Rightarrow> Accounts \<Rightarrow> Accounts" where
  "release s r a = (if s_accounts s \<and> rq_kind r = reqSubmit then Release (s_symbol s) (rq_orderID r) a else a)"

definition publish :: "Sequencer \<Rightarrow> Trade list \<Rightarrow> Venue \<Rightarrow> Venue" where
  "publish s ts v = (case s_onTrades s of
     None \<Rightarrow> v
   | Some symbol \<Rightarrow> if ts = [] then v else v\<lparr>v_feed := v_feed v @ [(symbol, ts)]\<rparr>)"

text \<open>The body of the last loop: one request is served and answered.\<close>

definition serve_submit ::
  "(SeqID \<Rightarrow> Time) \<Rightarrow> request \<Rightarrow> result \<Rightarrow> Sequencer \<Rightarrow> Venue \<Rightarrow> (result \<times> Sequencer \<times> Venue) option" where
  "serve_submit now r res s v = do {
     (b, mr, e) \<leftarrow> SubmitOrder now (s_book s) (rq_order r);
     let res1 = res\<lparr>rs_trades := mr_Trades mr, rs_selfPrevented := mr_SelfPrevented mr,
                   rs_restingQty := mr_RestingQuantity mr, rs_err := e\<rparr>;
     let a1 = (if \<not> s_accounts s then v_accounts v
               else if e \<noteq> None then release s r (v_accounts v)
               else Complete (s_symbol s) (rq_orderID r) (mr_Trades mr) (mr_RestingQuantity mr)
                      (mr_SelfPrevented mr) (v_accounts v));
     Some (res1, s\<lparr>s_book := b\<rparr>, publish s (mr_Trades mr) (v\<lparr>v_accounts := a1\<rparr>)) }"

definition serve_cancel ::
  "request \<Rightarrow> result \<Rightarrow> Sequencer \<Rightarrow> Venue \<Rightarrow> (result \<times> Sequencer \<times> Venue) option" where
  "serve_cancel r res s v = do {
     (b, e) \<leftarrow> CancelOwned (s_book s) (rq_cancelID r) (rq_cancelBy r);
     let a1 = (if e = None \<and> s_accounts s then Release (s_symbol s) (rq_cancelID r) (v_accounts v)
               else v_accounts v);
     Some (res\<lparr>rs_err := e\<rparr>, s\<lparr>s_book := b\<rparr>, v\<lparr>v_accounts := a1\<rparr>) }"

definition serve ::
  "Clock \<Rightarrow> nat \<Rightarrow> request \<Rightarrow> Sequencer \<Rightarrow> Venue \<Rightarrow> (result \<times> Sequencer \<times> Venue) option" where
  "serve ck i r s v = do {
     let res = zero_result\<lparr>rs_seq := rq_seq r, rs_orderID := rq_orderID r, rs_pickedUpAt := ck_pickedUp ck\<rparr>;
     (res1, s1, v1) \<leftarrow>
       (if rq_kind r = reqSnapshot then do {
          st \<leftarrow> Snapshot (s_book s);
          Some (res\<lparr>rs_state := Some st, rs_seq := s_seq s\<rparr>, s, v) }
        else if rq_preErr r \<noteq> None then Some (res\<lparr>rs_err := rq_preErr r\<rparr>, s, v)
        else if s_walErr s \<noteq> None then
          Some (res\<lparr>rs_err := s_walErr s\<rparr>, s, v\<lparr>v_accounts := release s r (v_accounts v)\<rparr>)
        else if rq_kind r = reqCancel then serve_cancel r res s v
        else serve_submit (ck_trade ck) r res s v);
     Some (res1\<lparr>rs_respondedAt := ck_responded ck i\<rparr>, s1, v1) }"

fun serve_all ::
  "Clock \<Rightarrow> nat \<Rightarrow> request list \<Rightarrow> Sequencer \<Rightarrow> Venue \<Rightarrow> (result list \<times> Sequencer \<times> Venue) option" where
  "serve_all ck i [] s v = Some ([], s, v)"
| "serve_all ck i (r # rs) s v = do {
     (res, s1, v1) \<leftarrow> serve ck i r s v;
     (ress, s2, v2) \<leftarrow> serve_all ck (Suc i) rs s1 v1;
     Some (res # ress, s2, v2) }"

definition commit ::
  "Json \<Rightarrow> Clock \<Rightarrow> request list \<Rightarrow> Sequencer \<Rightarrow> Venue \<Rightarrow> (result list \<times> Sequencer \<times> Venue) option" where
  "commit js ck batch s v = do {
     let s1 = s\<lparr>s_commits := add64 (s_commits s) 1, s_batched := add64 (s_batched s) (i64 (int (length batch)))\<rparr>;
     let (batch1, s2) = assign_ids batch s1;
     let (batch2, a2) = (if s_accounts s2 then reserve_all batch1 (v_accounts v) else (batch1, v_accounts v));
     (batch3, s3, d3) \<leftarrow> log_phase js (ck_pickedUp ck) batch2 s2 (v_disk v);
     (ress, s4, v4) \<leftarrow> serve_all ck 0 batch3 s3 (v\<lparr>v_accounts := a2, v_disk := d3\<rparr>);
     Some (ress, s4\<lparr>s_resting := i64 (int (RestingCount (s_book s4))), s_lastPos := s_seq s4\<rparr>, v4) }"

section \<open>The goroutine\<close>

text \<open>
  \<open>drain\<close> with the requests that are ready on the channel, in the order it delivers them: the
  batch and those left waiting.
\<close>

fun drain :: "request list \<Rightarrow> request list \<Rightarrow> request list \<times> request list" where
  "drain batch [] = (batch, [])"
| "drain batch (r # ready) =
     (if length batch < maxBatch then drain (batch @ [r]) ready else (batch, r # ready))"

definition closeWAL :: "Sequencer \<Rightarrow> Disk \<Rightarrow> (Sequencer \<times> Disk \<times> Err option) option" where
  "closeWAL s d = (case s_wal s of
     None \<Rightarrow> Some (s, d, None)
   | Some w \<Rightarrow> do { (w', d', e) \<leftarrow> Close w d; Some (s\<lparr>s_wal := Some w'\<rparr>, d', e) })"

text \<open>One turn of \<open>run\<close>: a batch is committed, or the loop ends because it was told to.\<close>

datatype wake = Received request "request list" | Stopped

definition run_turn ::
  "Json \<Rightarrow> Clock \<Rightarrow> wake \<Rightarrow> Sequencer \<Rightarrow> Venue
     \<Rightarrow> (result list \<times> request list \<times> Sequencer \<times> Venue) option" where
  "run_turn js ck e s v = (case e of
     Received r ready \<Rightarrow> do {
       let (batch, waiting) = drain [r] ready;
       (ress, s', v') \<leftarrow> commit js ck batch s v;
       Some (ress, waiting, s', v') }
   | Stopped \<Rightarrow> do {
       (s', d', err) \<leftarrow> closeWAL s (v_disk v);
       Some ([], [], s'\<lparr>s_shutdownErr := err, s_done := True\<rparr>, v\<lparr>v_disk := d'\<rparr>) })"

section \<open>The callers\<close>

text \<open>
  What \<open>do\<close> can observe: the request was never handed over because the sequencer had stopped or
  the caller gave up, it was handed over but the caller gave up, or the reply arrived.
\<close>

datatype handover = SequencerStopped | GaveUpBefore ContextErr | GaveUpAfter ContextErr | Reply result

definition seq_do :: "handover \<Rightarrow> result \<times> Err option" where
  "seq_do h = (case h of
     SequencerStopped \<Rightarrow> (zero_result, Some ErrSequencerClosed)
   | GaveUpBefore c \<Rightarrow> (zero_result, Some (ErrContext c))
   | GaveUpAfter c \<Rightarrow> (zero_result, Some (ErrContext c))
   | Reply res \<Rightarrow> (res, rs_err res))"

record OrderResponse =
  or_Seq :: int
  or_OrderID :: SeqID
  or_Trades :: "Trade list"
  or_SelfPrevented :: "SeqID list"
  or_RestingQuantity :: int
  or_QueueLatency :: int
  or_TotalLatency :: int

definition zero_OrderResponse :: OrderResponse where
  "zero_OrderResponse = \<lparr>or_Seq = 0, or_OrderID = 0, or_Trades = [], or_SelfPrevented = [],
     or_RestingQuantity = 0, or_QueueLatency = 0, or_TotalLatency = 0\<rparr>"

definition submit_request :: "Order \<Rightarrow> request" where
  "submit_request x = zero_request\<lparr>rq_kind := reqSubmit, rq_order := x\<rparr>"

definition cancel_request :: "SeqID \<Rightarrow> string \<Rightarrow> request" where
  "cancel_request i account = zero_request\<lparr>rq_kind := reqCancel, rq_cancelID := i, rq_cancelBy := account\<rparr>"

definition snapshot_request :: request where
  "snapshot_request = zero_request\<lparr>rq_kind := reqSnapshot\<rparr>"

text \<open>The exported calls: the request each one sends is above, this is what each makes of the reply.\<close>

definition Sequencer_Submit :: "Time \<Rightarrow> handover \<Rightarrow> OrderResponse \<times> Err option" where
  "Sequencer_Submit sentAt h = (case seq_do h of
     (_, Some e) \<Rightarrow> (zero_OrderResponse, Some e)
   | (res, None) \<Rightarrow>
       (\<lparr>or_Seq = rs_seq res, or_OrderID = rs_orderID res, or_Trades = rs_trades res,
         or_SelfPrevented = rs_selfPrevented res, or_RestingQuantity = rs_restingQty res,
         or_QueueLatency = rs_pickedUpAt res - sentAt, or_TotalLatency = rs_respondedAt res - sentAt\<rparr>, None))"

definition Sequencer_Cancel :: "handover \<Rightarrow> Err option" where
  "Sequencer_Cancel h = snd (seq_do h)"

definition CancelFor :: "handover \<Rightarrow> int \<times> Err option" where
  "CancelFor h = (let (res, e) = seq_do h in (rs_seq res, e))"

definition Sequencer_Snapshot :: "handover \<Rightarrow> BookState option \<times> int \<times> Err option" where
  "Sequencer_Snapshot h = (case seq_do h of
     (_, Some e) \<Rightarrow> (None, 0, Some e)
   | (res, None) \<Rightarrow> (rs_state res, rs_seq res, None))"

text \<open>\<open>Close\<close> closes \<open>quit\<close> once, waits for the goroutine, and reports how the log closed.\<close>

definition Sequencer_Close :: "Sequencer \<Rightarrow> Disk \<Rightarrow> (Sequencer \<times> Disk \<times> Err option) option" where
  "Sequencer_Close s d =
     (let s1 = s\<lparr>s_once := True\<rparr>
      in if s_done s1 then Some (s1, d, s_shutdownErr s1)
         else do {
           (s2, d2, e) \<leftarrow> closeWAL s1 d;
           Some (s2\<lparr>s_shutdownErr := e, s_done := True\<rparr>, d2, e) })"

definition CommitStats :: "Sequencer \<Rightarrow> int \<times> int" where
  "CommitStats s = (s_commits s, s_batched s)"

definition Sequencer_RestingOrders :: "Sequencer \<Rightarrow> int" where
  "Sequencer_RestingOrders s = s_resting s"

definition Sequencer_LastPosition :: "Sequencer \<Rightarrow> int" where
  "Sequencer_LastPosition s = s_lastPos s"

definition Done :: "Sequencer \<Rightarrow> bool" where
  "Done s = s_done s"

end
