(* ===== verification/OMS_Sequencer_Inv.thy ===== *)
theory OMS_Sequencer_Inv
  imports OMS_Sequencer OMS_Wal_Props OMS_Accounts_Inv
begin

text \<open>
  What the phases of a commit do. Assigning identifiers gives fresh, increasing ones; logging
  writes one record per accepted mutation at consecutive positions; serving applies exactly
  the logged mutations to the book. Together: the live book is the replay of the log.
\<close>

section \<open>The mutations of a batch\<close>

fun records_for :: "request list \<Rightarrow> int \<Rightarrow> Time \<Rightarrow> Record list" where
  "records_for [] seq ts = []"
| "records_for (r # rs) seq ts =
     (if skipped r then records_for rs seq ts else record_of r (seq + 1) ts # records_for rs (seq + 1) ts)"

text \<open>The batch with the positions filled in.\<close>

fun numbered :: "request list \<Rightarrow> int \<Rightarrow> request list" where
  "numbered [] seq = []"
| "numbered (r # rs) seq = (if skipped r then r # numbered rs seq else r\<lparr>rq_seq := seq + 1\<rparr> # numbered rs (seq + 1))"

definition request_mutation :: "request \<Rightarrow> mutation" where
  "request_mutation r = (if rq_kind r = reqCancel then Cancelled (rq_cancelID r) (rq_cancelBy r) else Placed (rq_order r))"

definition batch_mutations :: "request list \<Rightarrow> mutation list" where
  "batch_mutations rs = map request_mutation (filter (\<lambda>r. \<not> skipped r) rs)"

lemma batch_mutations_simps [simp]:
  "batch_mutations [] = []"
  "batch_mutations (r # rs) = (if skipped r then batch_mutations rs else request_mutation r # batch_mutations rs)"
  by (simp_all add: batch_mutations_def)

lemma mutation_of_record_of [simp]: "mutation_of (record_of r seq ts) = request_mutation r"
  by (simp add: mutation_of_def record_of_def request_mutation_def)

lemma r_Seq_record_of [simp]: "r_Seq (record_of r seq ts) = seq"
  by (simp add: record_of_def)

lemma mutations_of_records: "map mutation_of (records_for rs seq ts) = batch_mutations rs"
  by (induction rs arbitrary: seq) auto

lemma length_records_for: "length (records_for rs seq ts) = length (batch_mutations rs)"
  by (metis length_map mutations_of_records)

lemma length_batch_mutations: "length (batch_mutations rs) \<le> length rs"
  by (simp add: batch_mutations_def)

lemma positions_of_records:
  "map r_Seq (records_for rs seq ts) = [seq + 1..seq + int (length (batch_mutations rs))]"
proof (induction rs arbitrary: seq)
  case (Cons r rs)
  have "[seq + 1..seq + int (Suc n)] = (seq + 1) # [seq + 2..seq + int (Suc n)]" for n
    by (subst upto_rec1) (simp_all add: add.commute)
  with Cons show ?case by (simp add: add.assoc)
qed simp

lemma skipped_numbered_update [simp]: "skipped (r\<lparr>rq_seq := n\<rparr>) = skipped r"
  by (simp add: skipped_def)

lemma numbered_mutations [simp]: "batch_mutations (numbered rs seq) = batch_mutations rs"
  by (induction rs arbitrary: seq) (simp_all add: request_mutation_def)

lemma length_numbered [simp]: "length (numbered rs seq) = length rs"
  by (induction rs arbitrary: seq) simp_all

section \<open>Assigning identifiers\<close>

lemma assign_id_kind [simp]:
  "rq_kind (fst (assign_id r s)) = rq_kind r" "rq_preErr (fst (assign_id r s)) = rq_preErr r"
  "rq_cancelID (fst (assign_id r s)) = rq_cancelID r" "rq_cancelBy (fst (assign_id r s)) = rq_cancelBy r"
  "o_Quantity (rq_order (fst (assign_id r s))) = o_Quantity (rq_order r)"
  "o_Price (rq_order (fst (assign_id r s))) = o_Price (rq_order r)"
  "o_Side (rq_order (fst (assign_id r s))) = o_Side (rq_order r)"
  "o_Type (rq_order (fst (assign_id r s))) = o_Type (rq_order r)"
  by (auto simp: assign_id_def Let_def)

lemma assign_id_state: "snd (assign_id r s) = s\<lparr>s_nextOrderID := s_nextOrderID (snd (assign_id r s))\<rparr>"
  by (auto simp: assign_id_def Let_def)

lemma assign_ids_state:
  "snd (assign_ids rs s) = s\<lparr>s_nextOrderID := s_nextOrderID (snd (assign_ids rs s))\<rparr>"
proof (induction rs arbitrary: s)
  case (Cons r rs)
  show ?case
    using Cons.IH [of "snd (assign_id r s)"] assign_id_state [of r s]
    by (simp add: case_prod_beta Let_def) (metis Sequencer.update_convs(9) Sequencer.surjective)
qed simp

lemma length_assign_ids [simp]: "length (fst (assign_ids rs s)) = length rs"
  by (induction rs arbitrary: s) (simp_all add: case_prod_beta Let_def)

lemma assign_id_fresh:
  assumes "rq_kind r = reqSubmit" "o_SeqID (rq_order r) = 0" "0 \<le> s_nextOrderID s" "s_nextOrderID s < max_i64"
  shows "o_SeqID (rq_order (fst (assign_id r s))) = s_nextOrderID s + 1"
    "rq_orderID (fst (assign_id r s)) = s_nextOrderID s + 1"
    "s_nextOrderID (snd (assign_id r s)) = s_nextOrderID s + 1"
  using assms by (simp_all add: assign_id_def Let_def add64_def is_i64_def max_i64_def)

lemma assign_id_other: "rq_kind r \<noteq> reqSubmit \<Longrightarrow> assign_id r s = (r, s)"
  by (simp add: assign_id_def)

text \<open>An order the network layer lets through: a side, a type, a 64-bit quantity.\<close>

definition sane_order :: "Order \<Rightarrow> bool" where
  "sane_order x \<longleftrightarrow> o_Side x \<noteq> UnknownSide \<and> o_Type x \<noteq> UnknownType \<and> is_i64 (o_Quantity x)"

definition sane_mutation :: "mutation \<Rightarrow> bool" where
  "sane_mutation m = (case m of Placed x \<Rightarrow> sane_order x | _ \<Rightarrow> True)"

lemma sane_i64_mutation: "sane_mutation m \<Longrightarrow> i64_mutation m"
  by (auto simp: sane_mutation_def i64_mutation_def sane_order_def split: mutation.splits)

text \<open>A request as it comes off the network: no identifier chosen, nothing assigned yet.\<close>

definition incoming :: "request \<Rightarrow> bool" where
  "incoming r \<longleftrightarrow> rq_preErr r = None \<and> rq_seq r = 0 \<and> rq_orderID r = 0 \<and>
     (rq_kind r = reqSubmit \<longrightarrow> o_SeqID (rq_order r) = 0 \<and> sane_order (rq_order r))"

text \<open>The identifiers of the submissions of a batch.\<close>

definition submit_ids :: "request list \<Rightarrow> SeqID list" where
  "submit_ids rs = map (\<lambda>r. o_SeqID (rq_order r)) (filter (\<lambda>r. rq_kind r = reqSubmit) rs)"

lemma submit_ids_simps [simp]:
  "submit_ids [] = []"
  "submit_ids (r # rs) = (if rq_kind r = reqSubmit then [o_SeqID (rq_order r)] else []) @ submit_ids rs"
  by (simp_all add: submit_ids_def)

lemma assign_ids_fresh:
  assumes "\<And>r. r \<in> set rs \<Longrightarrow> incoming r" "0 \<le> s_nextOrderID s" "s_nextOrderID s + int (length rs) \<le> max_i64"
  shows "submit_ids (fst (assign_ids rs s)) = [s_nextOrderID s + 1..s_nextOrderID (snd (assign_ids rs s))] \<and>
    s_nextOrderID s \<le> s_nextOrderID (snd (assign_ids rs s)) \<and>
    s_nextOrderID (snd (assign_ids rs s)) \<le> s_nextOrderID s + int (length rs)"
  using assms
proof (induction rs arbitrary: s)
  case (Cons r rs)
  show ?case
  proof (cases "rq_kind r = reqSubmit")
    case True
    note f = assign_id_fresh [of r s]
    have z: "o_SeqID (rq_order r) = 0" using Cons.prems(1) [of r] True by (simp add: incoming_def)
    with True f Cons.prems(2,3) have n: "s_nextOrderID (snd (assign_id r s)) = s_nextOrderID s + 1"
      "o_SeqID (rq_order (fst (assign_id r s))) = s_nextOrderID s + 1" by auto
    from Cons.IH [of "snd (assign_id r s)"] n Cons.prems show ?thesis
      using True by (simp add: case_prod_beta Let_def upto_rec1)
  next
    case False
    with Cons.IH [of s] Cons.prems show ?thesis by (simp add: case_prod_beta Let_def assign_id_other)
  qed
qed simp

lemma assign_ids_incoming:
  assumes "\<And>r. r \<in> set rs \<Longrightarrow> incoming r" "r' \<in> set (fst (assign_ids rs s))"
  shows "rq_preErr r' = None" "rq_kind r' = reqSubmit \<Longrightarrow> sane_order (rq_order r')"
proof -
  have "rq_preErr r' = None \<and> (rq_kind r' = reqSubmit \<longrightarrow> sane_order (rq_order r'))"
    using assms
  proof (induction rs arbitrary: s)
    case (Cons r rs)
    then consider "r' = fst (assign_id r s)" | "r' \<in> set (fst (assign_ids rs (snd (assign_id r s))))"
      by (auto simp: case_prod_beta Let_def)
    then show ?case using Cons.IH [of "snd (assign_id r s)"] Cons.prems(1) by cases (auto simp: incoming_def sane_order_def)
  qed simp
  then show "rq_preErr r' = None" "rq_kind r' = reqSubmit \<Longrightarrow> sane_order (rq_order r')" by auto
qed

section \<open>Reserving\<close>

text \<open>Reserving changes nothing of a request but its \<open>preErr\<close>.\<close>

lemma reserve_one_frame [simp]:
  "rq_kind (fst (reserve_one r a)) = rq_kind r" "rq_order (fst (reserve_one r a)) = rq_order r"
  "rq_orderID (fst (reserve_one r a)) = rq_orderID r"
  "rq_cancelID (fst (reserve_one r a)) = rq_cancelID r" "rq_cancelBy (fst (reserve_one r a)) = rq_cancelBy r"
  by (auto simp: reserve_one_def Let_def split: prod.split option.split)

lemma reserve_all_frame:
  "map rq_kind (fst (reserve_all rs a)) = map rq_kind rs"
  "map rq_order (fst (reserve_all rs a)) = map rq_order rs"
  "submit_ids (fst (reserve_all rs a)) = submit_ids rs"
  by (induction rs arbitrary: a) (simp_all add: case_prod_beta Let_def)

lemma reserve_all_quantity:
  assumes "r' \<in> set (fst (reserve_all rs a))" "rq_kind r' = reqSubmit"
    "\<And>r. r \<in> set rs \<Longrightarrow> rq_kind r = reqSubmit \<Longrightarrow> sane_order (rq_order r)"
  shows "sane_order (rq_order r')"
  using assms by (induction rs arbitrary: a) (auto simp: case_prod_beta Let_def)

lemma placed_ids_batch:
  "set (placed_ids (batch_mutations rs)) \<subseteq> set (submit_ids rs) \<and>
   (distinct (submit_ids rs) \<longrightarrow> distinct (placed_ids (batch_mutations rs)))"
proof (induction rs)
  case (Cons r rs)
  then show ?case by (cases "rq_kind r") (auto simp: request_mutation_def skipped_def)
qed simp

section \<open>Logging\<close>

lemma log_requests_ok:
  assumes "write_all (wal_append js) (records_for rs seq ts) (w, d) = Some ((w', d'), None)"
    "0 \<le> seq" "seq + int (length (batch_mutations rs)) \<le> max_i64"
  shows "log_requests js ts rs seq w d =
    Some (numbered rs seq, seq + int (length (batch_mutations rs)), w', d', None)"
  using assms
proof (induction rs arbitrary: seq w d)
  case (Cons r rs)
  show ?case
  proof (cases "skipped r")
    case True
    with Cons.IH [of seq w d] Cons.prems show ?thesis by simp
  next
    case False
    have s: "add64 seq 1 = seq + 1" using False Cons.prems(2,3) by (intro add64_exact) (simp add: is_i64_def max_i64_def)
    obtain w1 d1 where a: "Append js (record_of r (seq + 1) ts) w d = Some (w1, d1, None)"
      "write_all (wal_append js) (records_for rs (seq + 1) ts) (w1, d1) = Some ((w', d'), None)"
      using Cons.prems(1) False
      by (auto simp: wal_append_def [of js "record_of r (seq + 1) ts"] pair_result_def split: option.splits)
    with False s Cons.IH [of "seq + 1" w1 d1] Cons.prems(2,3) show ?thesis
      by (simp add: Let_def add.assoc)
  qed
qed simp

lemma last_upto_int: "i \<le> j \<Longrightarrow> last [i..j] = (j::int)"
  by (simp add: upto_rec2)

lemma logBatch_ok:
  assumes "wal_log js (w, d) L" "wal_healthy (w, d)" "\<And>r. r \<in> set (records_for rs (lastSeq w) ts) \<Longrightarrow> loggable js r"
    "0 \<le> lastSeq w" "lastSeq w + int (length (batch_mutations rs)) \<le> max_i64"
  shows "\<exists>w' d'. logBatch js ts rs (lastSeq w) w d =
      Some (numbered rs (lastSeq w), lastSeq w + int (length (batch_mutations rs)), w', d', None) \<and>
    wal_log js (w', d') (L @ records_for rs (lastSeq w) ts) \<and> wal_healthy (w', d') \<and> w_buf w' = [] \<and>
    lastSeq w' = lastSeq w + int (length (batch_mutations rs))"
proof -
  let ?recs = "records_for rs (lastSeq w) ts" and ?n = "int (length (batch_mutations rs))"
  have "sorted_wrt (<) (lastSeq (fst (w, d)) # map r_Seq ?recs)"
    unfolding positions_of_records by (simp add: sorted_wrt_upto)
  from wal.write_batch_law [OF assms(1,2,3) this] obtain s' where
    s': "write_batch (wal_append js) wal_sync ?recs (w, d) = Some (s', None)" "wal_log js s' (L @ ?recs)"
      "w_buf (fst s') = []" "wal_healthy s'" "lastSeq (fst s') = last (lastSeq w # map r_Seq ?recs)"
    by (metis fst_conv)
  then obtain w1 d1 where w1: "write_all (wal_append js) ?recs (w, d) = Some ((w1, d1), None)"
    "wal_sync (w1, d1) = Some (s', None)"
    by (auto simp: write_batch_def split: option.splits prod.splits)
  have "Sync w1 d1 = Some (fst s', snd s', None)"
    using w1(2) by (auto simp: wal_sync_def pair_result_def)
  moreover have "last (lastSeq w # map r_Seq ?recs) = lastSeq w + ?n"
    unfolding positions_of_records using last_upto_int [of "lastSeq w + 1" "lastSeq w + ?n"]
    by (cases "batch_mutations rs") auto
  ultimately show ?thesis
    using log_requests_ok [OF w1(1) assms(4,5)] s' by (simp add: logBatch_def)
qed

section \<open>Serving\<close>

lemma Snapshot_defined:
  assumes "wf_book b"
  shows "\<exists>st. Snapshot b = Some st"
proof -
  have "\<exists>lvl. map_of (levels b) p = Some lvl" if "p \<in> set (ladder b s)" "s \<in> {Buy, Sell}" for p s
    using wf_level_exists [OF assms] that by blast
  then have "\<exists>ds. depth b (ladder b s) = Some ds" if "s \<in> {Buy, Sell}" for s
    using depth_rows [of "ladder b s" b] that by blast
  from this [of Buy] this [of Sell] show ?thesis by (auto simp: Snapshot_def ladder_def)
qed

lemma publish_frame [simp]: "v_disk (publish s ts v) = v_disk v" "v_accounts (publish s ts v) = v_accounts v"
  by (auto simp: publish_def split: option.split)

lemma serve_ok:
  assumes "wf_book (s_book s)" "s_walErr s = None" "\<not> skipped r \<Longrightarrow> i64_mutation (request_mutation r)"
    "\<not> skipped r \<Longrightarrow> set (placed_ids [request_mutation r]) \<inter> resting_ids (abs_book (s_book s)) = {}"
  shows "\<exists>res b v'. serve ck i r s v = Some (res, s\<lparr>s_book := b\<rparr>, v') \<and> wf_book b \<and> v_disk v' = v_disk v \<and>
    abs_book b = fold spec_mutate (batch_mutations [r]) (abs_book (s_book s))"
proof (cases "skipped r")
  case True
  then consider "rq_kind r = reqSnapshot" | "rq_kind r \<noteq> reqSnapshot" "rq_preErr r \<noteq> None" by (auto simp: skipped_def)
  moreover have "\<exists>b. s = s\<lparr>s_book := b\<rparr> \<and> wf_book b \<and> abs_book b = abs_book (s_book s)"
    using assms(1) by (intro exI [of _ "s_book s"]) simp
  ultimately show ?thesis
    using True Snapshot_defined [OF assms(1)] by cases (auto simp: serve_def)
next
  case False
  note m = book.mutate_law [OF assms(1) assms(3,4) [OF False], of "ck_trade ck"]
  show ?thesis
  proof (cases "rq_kind r = reqCancel")
    case True
    with m obtain b e where "CancelOwned (s_book s) (rq_cancelID r) (rq_cancelBy r) = Some (b, e)" "wf_book b"
      "abs_book b = spec_mutate (request_mutation r) (abs_book (s_book s))"
      by (auto simp: mutate_def request_mutation_def)
    with True False assms(2) show ?thesis by (auto simp: serve_def skipped_def serve_cancel_def Let_def)
  next
    case c: False
    with m obtain b mr e where "SubmitOrder (ck_trade ck) (s_book s) (rq_order r) = Some (b, mr, e)" "wf_book b"
      "abs_book b = spec_mutate (request_mutation r) (abs_book (s_book s))"
      by (auto simp: mutate_def request_mutation_def Submit_def)
    with c False assms(2) show ?thesis by (auto simp: serve_def skipped_def serve_submit_def Let_def)
  qed
qed

lemma serve_all_ok:
  assumes "wf_book (s_book s)" "s_walErr s = None" "\<And>m. m \<in> set (batch_mutations rs) \<Longrightarrow> i64_mutation m"
    "distinct (placed_ids (batch_mutations rs))"
    "set (placed_ids (batch_mutations rs)) \<inter> resting_ids (abs_book (s_book s)) = {}"
  shows "\<exists>ress b v'. serve_all ck i rs s v = Some (ress, s\<lparr>s_book := b\<rparr>, v') \<and> wf_book b \<and> v_disk v' = v_disk v \<and>
    length ress = length rs \<and> abs_book b = fold spec_mutate (batch_mutations rs) (abs_book (s_book s))"
  using assms
proof (induction rs arbitrary: s v i)
  case (Cons r rs)
  have f: "\<not> skipped r \<Longrightarrow> i64_mutation (request_mutation r)"
    "\<not> skipped r \<Longrightarrow> set (placed_ids [request_mutation r]) \<inter> resting_ids (abs_book (s_book s)) = {}"
    using Cons.prems(3,5) by (simp, cases "request_mutation r") auto
  obtain res b1 v1 where 1: "serve ck i r s v = Some (res, s\<lparr>s_book := b1\<rparr>, v1)" "wf_book b1" "v_disk v1 = v_disk v"
    "abs_book b1 = fold spec_mutate (batch_mutations [r]) (abs_book (s_book s))"
    using serve_ok [OF Cons.prems(1,2) f, of ck i v] by metis
  have "set (placed_ids (batch_mutations rs)) \<inter> resting_ids (abs_book b1) = {}"
    using Cons.prems(4,5) spec_mutate_ids [of "request_mutation r" "abs_book (s_book s)"] unfolding 1(4)
    by (cases "skipped r") (auto split: mutation.splits)
  then have "\<exists>ress b v'. serve_all ck (Suc i) rs (s\<lparr>s_book := b1\<rparr>) v1 = Some (ress, s\<lparr>s_book := b1\<rparr>\<lparr>s_book := b\<rparr>, v') \<and>
      wf_book b \<and> v_disk v' = v_disk v1 \<and> length ress = length rs \<and>
      abs_book b = fold spec_mutate (batch_mutations rs) (abs_book (s_book (s\<lparr>s_book := b1\<rparr>)))"
    by (intro Cons.IH) (use 1(2) Cons.prems(2,3,4) in \<open>auto split: if_splits\<close>)
  with 1 show ?case by fastforce
next
  case Nil
  then show ?case by (auto intro!: exI [of _ "s_book s"])
qed

section \<open>The live book is the replay of the log\<close>

text \<open>
  A sequencer with a working log: the log on disk holds \<open>L\<close>, fully synced, at positions 1 to
  \<open>s_seq\<close>, and the book is \<open>L\<close> applied to an empty book.
\<close>

definition live :: "Json \<Rightarrow> Sequencer \<Rightarrow> Disk \<Rightarrow> Record list \<Rightarrow> bool" where
  "live js s d L \<longleftrightarrow> wf_book (s_book s) \<and> s_walErr s = None \<and>
     (\<exists>w. s_wal s = Some w \<and> wal_log js (w, d) L \<and> w_buf w = [] \<and> lastSeq w = s_seq s) \<and>
     0 \<le> s_seq s \<and> map r_Seq L = [1..s_seq s] \<and> replayable L \<and>
     (\<forall>r \<in> set L. sane_mutation (mutation_of r)) \<and>
     set (placed_ids (map mutation_of L)) \<subseteq> {1..s_nextOrderID s} \<and> 0 \<le> s_nextOrderID s \<and>
     abs_book (s_book s) = fold spec_mutate (map mutation_of L) (abs_book NewBook)"

lemma resting_ids_fold: "resting_ids (fold spec_mutate ms a) \<subseteq> set (placed_ids ms) \<union> resting_ids a"
proof (induction ms arbitrary: a)
  case (Cons m ms)
  with spec_mutate_ids [of m a] Cons.IH [of "spec_mutate m a"] show ?case by auto
qed simp

lemma placed_ids_append [simp]: "placed_ids (xs @ ys) = placed_ids xs @ placed_ids ys"
  by (simp add: placed_ids_def)

lemma sane_batch:
  assumes "\<And>r. r \<in> set rs \<Longrightarrow> rq_kind r = reqSubmit \<Longrightarrow> sane_order (rq_order r)" "m \<in> set (batch_mutations rs)"
  shows "sane_mutation m"
proof -
  obtain r where r: "r \<in> set rs" "\<not> skipped r" "m = request_mutation r" using assms(2) by (auto simp: batch_mutations_def)
  then show ?thesis using assms(1) [of r]
    by (cases "rq_kind r") (auto simp: sane_mutation_def request_mutation_def skipped_def)
qed

text \<open>What the first two phases of a commit make of a batch of incoming requests.\<close>

definition prepared :: "Sequencer \<Rightarrow> request list \<Rightarrow> Accounts \<Rightarrow> request list" where
  "prepared s batch a =
     (let b1 = fst (assign_ids batch s) in if s_accounts s then fst (reserve_all b1 a) else b1)"

lemma assign_ids_counters:
  "assign_ids rs (s\<lparr>s_commits := c, s_batched := n\<rparr>) =
     (fst (assign_ids rs s), (snd (assign_ids rs s))\<lparr>s_commits := c, s_batched := n\<rparr>)"
proof (induction rs arbitrary: s)
  case (Cons r rs)
  have "assign_id r (s\<lparr>s_commits := c, s_batched := n\<rparr>) =
      (fst (assign_id r s), (snd (assign_id r s))\<lparr>s_commits := c, s_batched := n\<rparr>)"
    by (auto simp: assign_id_def Let_def)
  with Cons show ?case by (simp add: case_prod_beta Let_def)
qed simp

lemma prepared_ids:
  assumes "\<And>r. r \<in> set batch \<Longrightarrow> incoming r" "0 \<le> s_nextOrderID s" "s_nextOrderID s + int (length batch) \<le> max_i64"
  shows "submit_ids (prepared s batch a) = [s_nextOrderID s + 1..s_nextOrderID (snd (assign_ids batch s))]"
    "s_nextOrderID s \<le> s_nextOrderID (snd (assign_ids batch s))"
    "r \<in> set (prepared s batch a) \<Longrightarrow> rq_kind r = reqSubmit \<Longrightarrow> sane_order (rq_order r)"
    "length (prepared s batch a) = length batch"
proof -
  note f = assign_ids_fresh [OF assms]
  show "submit_ids (prepared s batch a) = [s_nextOrderID s + 1..s_nextOrderID (snd (assign_ids batch s))]"
    "s_nextOrderID s \<le> s_nextOrderID (snd (assign_ids batch s))"
    using f by (simp_all add: prepared_def Let_def reserve_all_frame(3))
  show "length (prepared s batch a) = length batch"
    using reserve_all_frame(1) [of "fst (assign_ids batch s)" a]
    by (auto simp: prepared_def Let_def dest: map_eq_imp_length_eq)
  assume "r \<in> set (prepared s batch a)" "rq_kind r = reqSubmit"
  then show "sane_order (rq_order r)"
    using assign_ids_incoming(2) [of batch _ s] assms(1)
      reserve_all_quantity [of r "fst (assign_ids batch s)" a]
    by (simp add: prepared_def Let_def split: if_splits)
qed

text \<open>One commit on a working log: everything is logged and synced, then applied.\<close>

definition fits_batch :: "Json \<Rightarrow> Clock \<Rightarrow> request list \<Rightarrow> Sequencer \<Rightarrow> Venue \<Rightarrow> bool" where
  "fits_batch js ck batch s v \<longleftrightarrow> (\<forall>r \<in> set batch. incoming r) \<and>
     s_nextOrderID s + int (length batch) \<le> max_i64 \<and> s_seq s + int (length batch) \<le> max_i64 \<and>
     write_ok (v_disk v) \<and> sync_ok (v_disk v) \<and>
     (\<forall>rec \<in> set (records_for (prepared s batch (v_accounts v)) (s_seq s) (ck_pickedUp ck)). loggable js rec)"

definition batch_records :: "Clock \<Rightarrow> request list \<Rightarrow> Sequencer \<Rightarrow> Venue \<Rightarrow> Record list" where
  "batch_records ck batch s v = records_for (prepared s batch (v_accounts v)) (s_seq s) (ck_pickedUp ck)"

lemma live_fresh:
  assumes "live js s d L" "\<And>r. r \<in> set batch \<Longrightarrow> incoming r" "s_nextOrderID s + int (length batch) \<le> max_i64"
  shows "distinct (placed_ids (batch_mutations (prepared s batch a)))"
    "set (placed_ids (batch_mutations (prepared s batch a))) \<inter> set (placed_ids (map mutation_of L)) = {}"
    "set (placed_ids (batch_mutations (prepared s batch a))) \<inter> resting_ids (abs_book (s_book s)) = {}"
    "set (placed_ids (batch_mutations (prepared s batch a))) \<subseteq> {1..s_nextOrderID (snd (assign_ids batch s))}"
proof -
  have n: "0 \<le> s_nextOrderID s" and L: "set (placed_ids (map mutation_of L)) \<subseteq> {1..s_nextOrderID s}"
    and b: "abs_book (s_book s) = fold spec_mutate (map mutation_of L) (abs_book NewBook)"
    using assms(1) by (auto simp: live_def)
  note p = prepared_ids(1) [OF assms(2) n assms(3), where a = a] and q = placed_ids_batch [of "prepared s batch a"]
  show 1: "distinct (placed_ids (batch_mutations (prepared s batch a)))" using p q by simp
  show 2: "set (placed_ids (batch_mutations (prepared s batch a))) \<inter> set (placed_ids (map mutation_of L)) = {}"
    using p q L by force
  show "set (placed_ids (batch_mutations (prepared s batch a))) \<inter> resting_ids (abs_book (s_book s)) = {}"
    using resting_ids_fold [of "map mutation_of L" "abs_book NewBook"] 2 unfolding b by auto
  show "set (placed_ids (batch_mutations (prepared s batch a))) \<subseteq> {1..s_nextOrderID (snd (assign_ids batch s))}"
    using p q n by force
qed

lemma commit_unfold:
  "commit js ck batch s v =
     (let s2 = (snd (assign_ids batch s))\<lparr>s_commits := add64 (s_commits s) 1,
                 s_batched := add64 (s_batched s) (i64 (int (length batch)))\<rparr>;
          a2 = (if s_accounts s then snd (reserve_all (fst (assign_ids batch s)) (v_accounts v)) else v_accounts v)
      in do {
        (batch3, s3, d3) \<leftarrow> log_phase js (ck_pickedUp ck) (prepared s batch (v_accounts v)) s2 (v_disk v);
        (ress, s4, v4) \<leftarrow> serve_all ck 0 batch3 s3 (v\<lparr>v_accounts := a2, v_disk := d3\<rparr>);
        Some (ress, s4\<lparr>s_resting := i64 (int (RestingCount (s_book s4))), s_lastPos := s_seq s4\<rparr>, v4) })"
proof -
  have "s_accounts (snd (assign_ids batch s)) = s_accounts s" by (subst assign_ids_state) simp
  then show ?thesis
    by (simp add: commit_def assign_ids_counters prepared_def Let_def case_prod_beta)
qed

lemma log_phase_ok:
  assumes l: "live js s d L" and s2: "s_wal s2 = s_wal s" "s_walErr s2 = None" "s_seq s2 = s_seq s"
    and h: "write_ok d" "sync_ok d" and n: "s_seq s + int (length (batch_mutations b)) \<le> max_i64"
    and lg: "\<And>r. r \<in> set (records_for b (s_seq s) ts) \<Longrightarrow> loggable js r"
  shows "\<exists>w' d'. log_phase js ts b s2 d = Some (numbered b (s_seq s),
      s2\<lparr>s_seq := s_seq s + int (length (batch_mutations b)), s_wal := Some w'\<rparr>, d') \<and>
    wal_log js (w', d') (L @ records_for b (s_seq s) ts) \<and> w_buf w' = [] \<and> write_ok d' \<and> sync_ok d' \<and>
    lastSeq w' = s_seq s + int (length (batch_mutations b))"
proof -
  obtain w where w: "s_wal s = Some w" "wal_log js (w, d) L" "lastSeq w = s_seq s" "0 \<le> s_seq s"
    using l by (auto simp: live_def)
  have "wal_healthy (w, d)" using h by (simp add: wal_healthy_def)
  from logBatch_ok [OF w(2) this, of b ts] lg n w(3,4) obtain w' d' where
    "logBatch js ts b (s_seq s) w d = Some (numbered b (s_seq s), s_seq s + int (length (batch_mutations b)), w', d', None)"
      "wal_log js (w', d') (L @ records_for b (s_seq s) ts)" "wal_healthy (w', d')" "w_buf w' = []"
      "lastSeq w' = s_seq s + int (length (batch_mutations b))"
    by fastforce
  with s2 w(1) show ?thesis by (auto simp: log_phase_def wal_healthy_def)
qed

text \<open>The invariant after the records of a batch are in the log and in the book.\<close>

lemma live_extend:
  assumes l: "live js s d L"
    and w: "s_wal s' = Some w'" "wal_log js (w', d') (L @ records_for b (s_seq s) ts)" "w_buf w' = []" "lastSeq w' = s_seq s'"
    and s': "s_seq s' = s_seq s + int (length (batch_mutations b))" "s_walErr s' = None" "wf_book (s_book s')"
      "abs_book (s_book s') = fold spec_mutate (batch_mutations b) (abs_book (s_book s))"
    and ids: "distinct (placed_ids (batch_mutations b))"
      "set (placed_ids (batch_mutations b)) \<inter> set (placed_ids (map mutation_of L)) = {}"
      "set (placed_ids (batch_mutations b)) \<subseteq> {1..s_nextOrderID s'}" "s_nextOrderID s \<le> s_nextOrderID s'"
    and sane: "\<And>m. m \<in> set (batch_mutations b) \<Longrightarrow> sane_mutation m"
  shows "live js s' d' (L @ records_for b (s_seq s) ts)"
proof -
  let ?recs = "records_for b (s_seq s) ts"
  have s: "0 \<le> s_seq s" "map r_Seq L = [1..s_seq s]" "replayable L" "\<forall>r \<in> set L. sane_mutation (mutation_of r)" "set (placed_ids (map mutation_of L)) \<subseteq> {1..s_nextOrderID s}"
    "0 \<le> s_nextOrderID s" "abs_book (s_book s) = fold spec_mutate (map mutation_of L) (abs_book NewBook)"
    using l by (auto simp: live_def)
  have m: "map mutation_of ?recs = batch_mutations b" by (rule mutations_of_records)
  have "map r_Seq (L @ ?recs) = [1..s_seq s']"
    using s(1,2) upto_split1 [of 1 "s_seq s + 1" "s_seq s'"] s'(1)
    by (cases "batch_mutations b") (simp_all add: positions_of_records)
  moreover have sn: "sane_mutation (mutation_of r)" if "r \<in> set ?recs" for r
    using that sane m by (metis image_eqI list.set_map)
  then have "replayable (L @ ?recs)"
    using s(3) ids(1,2) m by (auto simp: replayable_def sane_i64_mutation)
  ultimately show ?thesis using s w s' ids(3,4) m sn by (auto simp: live_def)
qed

subsection \<open>What a reply says\<close>

lemma serve_reply:
  assumes "serve ck i r s v = Some (res, s', v')" "rq_kind r \<noteq> reqSnapshot"
  shows "rs_seq res = rq_seq r \<and> rs_orderID res = rq_orderID r \<and> (rq_preErr r \<noteq> None \<longrightarrow> rs_err res \<noteq> None)"
  using assms
  by (auto simp: serve_def serve_cancel_def serve_submit_def zero_result_def Let_def split: if_splits bind_splits)

lemma serve_all_replies:
  assumes "serve_all ck i rs s v = Some (ress, s', v')"
  shows "list_all2 (\<lambda>r res. rq_kind r \<noteq> reqSnapshot \<longrightarrow>
    rs_seq res = rq_seq r \<and> rs_orderID res = rq_orderID r \<and> (rq_preErr r \<noteq> None \<longrightarrow> rs_err res \<noteq> None)) rs ress"
  using assms
proof (induction rs arbitrary: i s v ress)
  case (Cons r rs)
  obtain res s1 v1 ress1 where 1: "serve ck i r s v = Some (res, s1, v1)"
    "serve_all ck (Suc i) rs s1 v1 = Some (ress1, s', v')" "ress = res # ress1"
    using Cons.prems by (auto split: bind_splits)
  from Cons.IH [OF 1(2)] serve_reply [OF 1(1)] show ?case by (simp add: 1(3))
qed simp

lemma numbered_record:
  assumes "r \<in> set (numbered rs seq)" "\<not> skipped r"
  shows "record_of r (rq_seq r) ts \<in> set (records_for rs seq ts)"
  using assms
proof (induction rs arbitrary: seq)
  case (Cons r0 rs)
  then show ?case by (auto simp: record_of_def split: if_splits)
qed simp

lemma rq_orderID_assign_ids:
  "r \<in> set (fst (assign_ids rs s)) \<Longrightarrow> rq_kind r = reqSubmit \<Longrightarrow> rq_orderID r = o_SeqID (rq_order r)"
proof (induction rs arbitrary: s)
  case (Cons r0 rs)
  have "rq_kind (fst (assign_id r0 s)) = reqSubmit \<Longrightarrow>
      rq_orderID (fst (assign_id r0 s)) = o_SeqID (rq_order (fst (assign_id r0 s)))"
    by (auto simp: assign_id_def Let_def)
  with Cons show ?case by (auto simp: case_prod_beta Let_def)
qed simp

lemma rq_orderID_prepared:
  assumes "r \<in> set (prepared s rs a)" "rq_kind r = reqSubmit"
  shows "rq_orderID r = o_SeqID (rq_order r)"
proof -
  have "(\<And>r. r \<in> set xs \<Longrightarrow> rq_kind r = reqSubmit \<Longrightarrow> rq_orderID r = o_SeqID (rq_order r)) \<Longrightarrow>
      r \<in> set (fst (reserve_all xs a)) \<Longrightarrow> rq_kind r = reqSubmit \<Longrightarrow> rq_orderID r = o_SeqID (rq_order r)" for xs
    by (induction xs arbitrary: a) (auto simp: case_prod_beta Let_def)
  from this [of "fst (assign_ids rs s)"] assms rq_orderID_assign_ids [of _ rs s] show ?thesis
    by (simp add: prepared_def Let_def split: if_splits)
qed

lemma rq_orderID_numbered:
  "(\<And>r. r \<in> set rs \<Longrightarrow> rq_kind r = reqSubmit \<Longrightarrow> rq_orderID r = o_SeqID (rq_order r)) \<Longrightarrow>
   r \<in> set (numbered rs seq) \<Longrightarrow> rq_kind r = reqSubmit \<Longrightarrow> rq_orderID r = o_SeqID (rq_order r)"
  by (induction rs arbitrary: seq) (auto split: if_splits)

lemma map_kind_numbered: "map rq_kind (numbered rs seq) = map rq_kind rs"
  by (induction rs arbitrary: seq) simp_all

lemma map_kind_assign_ids: "map rq_kind (fst (assign_ids rs s)) = map rq_kind rs"
  by (induction rs arbitrary: s) (simp_all add: case_prod_beta Let_def)

lemma map_kind_prepared: "map rq_kind (prepared s rs a) = map rq_kind rs"
  by (simp add: prepared_def Let_def reserve_all_frame map_kind_assign_ids)

text \<open>What the client asked for; the sequencer only fills in the identifier and the symbol.\<close>

definition terms :: "Order \<Rightarrow> string \<times> OrderType \<times> Price \<times> int \<times> OrderSide" where
  "terms x = (o_Placer x, o_Type x, o_Price x, o_Quantity x, o_Side x)"

lemma map_terms_prepared: "map (\<lambda>r. terms (rq_order r)) (numbered (prepared s rs a) seq) = map (\<lambda>r. terms (rq_order r)) rs"
proof -
  have "map (\<lambda>r. terms (rq_order r)) (numbered xs seq) = map (\<lambda>r. terms (rq_order r)) xs" for xs
    by (induction xs arbitrary: seq) simp_all
  moreover have "map (\<lambda>r. terms (rq_order r)) (fst (reserve_all xs a)) = map (\<lambda>r. terms (rq_order r)) xs" for xs
    by (induction xs arbitrary: a) (simp_all add: case_prod_beta Let_def)
  moreover have "terms (rq_order (fst (assign_id r s))) = terms (rq_order r)" for r s
    by (simp add: assign_id_def terms_def Let_def)
  then have "map (\<lambda>r. terms (rq_order r)) (fst (assign_ids xs s)) = map (\<lambda>r. terms (rq_order r)) xs" for xs
    by (induction xs arbitrary: s) (simp_all add: case_prod_beta Let_def)
  ultimately show ?thesis by (simp add: prepared_def Let_def)
qed

text \<open>An order that was answered without an error is in the log, where the answer says.\<close>

lemma acknowledged_record:
  assumes sa: "serve_all ck 0 (numbered (prepared s batch a) seq) s3 v = Some (ress, s', v')"
    and i: "i < length batch" "rq_kind (batch ! i) = reqSubmit" "rs_err (ress ! i) = None"
    and len: "length (prepared s batch a) = length batch"
  shows "\<exists>rec \<in> set (records_for (prepared s batch a) seq ts). r_Kind rec = RecordSubmit \<and>
    r_Seq rec = rs_seq (ress ! i) \<and> o_SeqID (r_Order rec) = rs_orderID (ress ! i) \<and>
    terms (r_Order rec) = terms (rq_order (batch ! i))"
proof -
  let ?b = "prepared s batch a"
  let ?r = "numbered ?b seq ! i"
  have k: "rq_kind ?r = reqSubmit" "?r \<in> set (numbered ?b seq)"
  proof -
    have "rq_kind ?r = map rq_kind (numbered ?b seq) ! i" using i(1) len by simp
    also have "\<dots> = map rq_kind batch ! i" by (simp only: map_kind_numbered map_kind_prepared)
    finally show "rq_kind ?r = reqSubmit" using i by simp
    show "?r \<in> set (numbered ?b seq)" using i(1) len by simp
  qed
  have rep: "rs_seq (ress ! i) = rq_seq ?r" "rs_orderID (ress ! i) = rq_orderID ?r" "\<not> skipped ?r"
    using list_all2_nthD [OF serve_all_replies [OF sa], of i] i len k by (auto simp: skipped_def)
  have "rq_orderID ?r = o_SeqID (rq_order ?r)"
    by (rule rq_orderID_numbered [OF _ k(2,1)]) (rule rq_orderID_prepared)
  moreover have "terms (rq_order ?r) = terms (rq_order (batch ! i))"
    using arg_cong [OF map_terms_prepared [of s batch a seq], of "\<lambda>xs. xs ! i"] i(1) len by simp
  ultimately show ?thesis using numbered_record [OF k(2) rep(3), of ts] rep k(1)
    by (intro bexI [of _ "record_of ?r (rq_seq ?r) ts"]) (simp_all add: record_of_def)
qed

lemma commit_ok:
  assumes l: "live js s (v_disk v) L" and f: "fits_batch js ck batch s v"
  shows "\<exists>ress s' v'. commit js ck batch s v = Some (ress, s', v') \<and>
    live js s' (v_disk v') (L @ batch_records ck batch s v) \<and> write_ok (v_disk v') \<and> sync_ok (v_disk v') \<and>
    length ress = length batch \<and>
    (\<forall>i < length batch. rq_kind (batch ! i) = reqSubmit \<and> rs_err (ress ! i) = None \<longrightarrow>
      (\<exists>rec \<in> set (batch_records ck batch s v). r_Kind rec = RecordSubmit \<and>
         r_Seq rec = rs_seq (ress ! i) \<and> o_SeqID (r_Order rec) = rs_orderID (ress ! i) \<and>
         terms (r_Order rec) = terms (rq_order (batch ! i))))"
proof -
  let ?b = "prepared s batch (v_accounts v)" and ?ts = "ck_pickedUp ck"
  let ?a = "if s_accounts s then snd (reserve_all (fst (assign_ids batch s)) (v_accounts v)) else v_accounts v"
  let ?n = "int (length (batch_mutations (prepared s batch (v_accounts v))))"
  define s2 where "s2 = (snd (assign_ids batch s))\<lparr>s_commits := add64 (s_commits s) 1,
                 s_batched := add64 (s_batched s) (i64 (int (length batch)))\<rparr>"
  have inc: "\<And>r. r \<in> set batch \<Longrightarrow> incoming r" and nx: "s_nextOrderID s + int (length batch) \<le> max_i64"
    using f by (auto simp: fits_batch_def)
  have n0: "0 \<le> s_nextOrderID s" and wb: "wf_book (s_book s)" using l by (simp_all add: live_def)
  have s2: "s_book s2 = s_book s" "s_walErr s2 = None" "s_wal s2 = s_wal s" "s_seq s2 = s_seq s"
    "s_nextOrderID s2 = s_nextOrderID (snd (assign_ids batch s))"
    using l unfolding s2_def live_def by (subst assign_ids_state; simp)+
  have len: "length ?b = length batch" by (rule prepared_ids(4) [OF inc n0 nx])
  have "s_seq s + ?n \<le> max_i64" using length_batch_mutations [of ?b] len f by (simp add: fits_batch_def)
  from log_phase_ok [OF l s2(3,2,4) _ _ this, of ?ts] f obtain w' d' where
    lp: "log_phase js ?ts ?b s2 (v_disk v) = Some (numbered ?b (s_seq s), s2\<lparr>s_seq := s_seq s + ?n, s_wal := Some w'\<rparr>, d')"
    and w': "wal_log js (w', d') (L @ records_for ?b (s_seq s) ?ts)" "w_buf w' = []" "write_ok d'" "sync_ok d'"
      "lastSeq w' = s_seq s + ?n"
    unfolding fits_batch_def by blast
  note fr = live_fresh [OF l inc nx, of "v_accounts v"]
  have sane: "\<And>m. m \<in> set (batch_mutations ?b) \<Longrightarrow> sane_mutation m"
    using sane_batch [of ?b] prepared_ids(3) [OF inc n0 nx] by blast
  let ?s3 = "s2\<lparr>s_seq := s_seq s + ?n, s_wal := Some w'\<rparr>"
  obtain ress b v4 where sa: "serve_all ck 0 (numbered ?b (s_seq s)) ?s3 (v\<lparr>v_accounts := ?a, v_disk := d'\<rparr>) =
      Some (ress, ?s3\<lparr>s_book := b\<rparr>, v4)" "wf_book b" "v_disk v4 = d'" "length ress = length batch"
      "abs_book b = fold spec_mutate (batch_mutations ?b) (abs_book (s_book s))"
    using serve_all_ok [of ?s3 "numbered ?b (s_seq s)" ck 0 "v\<lparr>v_accounts := ?a, v_disk := d'\<rparr>"] s2 wb sane_i64_mutation [OF sane] fr(1,3) len
    by auto
  let ?s4 = "?s3\<lparr>s_book := b\<rparr>"
  let ?s5 = "?s4\<lparr>s_resting := i64 (int (RestingCount (s_book ?s4))), s_lastPos := s_seq ?s4\<rparr>"
  have c: "commit js ck batch s v = Some (ress, ?s5, v4)"
    unfolding commit_unfold Let_def s2_def [symmetric] using lp sa(1) by simp
  have "live js ?s5 d' (L @ records_for ?b (s_seq s) ?ts)"
    by (rule live_extend [OF l, where w' = w'])
      (use w' s2 sa fr sane prepared_ids(2) [OF inc n0 nx] in simp_all)
  moreover have "\<exists>rec \<in> set (records_for ?b (s_seq s) ?ts). r_Kind rec = RecordSubmit \<and>
         r_Seq rec = rs_seq (ress ! i) \<and> o_SeqID (r_Order rec) = rs_orderID (ress ! i) \<and>
         terms (r_Order rec) = terms (rq_order (batch ! i))"
    if "i < length batch" "rq_kind (batch ! i) = reqSubmit" "rs_err (ress ! i) = None" for i
    by (rule acknowledged_record [OF sa(1)]) (use that len in simp_all)
  ultimately show ?thesis using c sa w' unfolding batch_records_def by auto
qed

section \<open>When the log refuses\<close>

text \<open>With the sticky error set, serving answers errors and touches neither book nor log.\<close>

lemma serve_refused:
  assumes "serve ck i r s v = Some (res, s', v')" "s_walErr s \<noteq> None"
  shows "s' = s" "v_disk v' = v_disk v" "v_feed v' = v_feed v"
    "rq_kind r \<noteq> reqSnapshot \<Longrightarrow> rs_err res \<noteq> None \<and> rs_trades res = []"
    "v_accounts v' = (if rq_kind r \<noteq> reqSnapshot \<and> rq_preErr r = None then release s r (v_accounts v) else v_accounts v)"
  using assms by (auto simp: serve_def zero_result_def Let_def split: if_splits bind_splits)

lemma serve_all_refused:
  assumes "serve_all ck i rs s v = Some (ress, s', v')" "s_walErr s \<noteq> None"
  shows "s' = s \<and> v_disk v' = v_disk v \<and> v_feed v' = v_feed v \<and>
    list_all2 (\<lambda>r res. rq_kind r \<noteq> reqSnapshot \<longrightarrow> rs_err res \<noteq> None \<and> rs_trades res = []) rs ress"
  using assms
proof (induction rs arbitrary: i v ress)
  case (Cons r rs)
  obtain res s1 v1 ress1 where 1: "serve ck i r s v = Some (res, s1, v1)"
    "serve_all ck (Suc i) rs s1 v1 = Some (ress1, s', v')" "ress = res # ress1"
    using Cons.prems(1) by (auto split: bind_splits)
  note r = serve_refused [OF 1(1) Cons.prems(2)]
  from Cons.IH [of "Suc i" v1 ress1] 1(2) Cons.prems(2) r show ?case by (simp add: 1(3))
qed simp

text \<open>What an attempt to log leaves of the sequencer and of the batch.\<close>

lemma log_requests_kinds:
  "log_requests js ts rs seq w d = Some (rs', seq', w', d', e) \<Longrightarrow>
   map rq_kind rs' = map rq_kind rs \<and> map rq_preErr rs' = map rq_preErr rs \<and> map rq_orderID rs' = map rq_orderID rs"
proof (induction rs arbitrary: seq w d rs')
  case (Cons r rs)
  then show ?case by (fastforce simp: Let_def split: if_splits bind_splits option.splits)
qed simp

lemma log_phase_frame:
  assumes "log_phase js ts b s d = Some (b', s', d')"
  shows "s_book s' = s_book s" "s_accounts s' = s_accounts s" "s_symbol s' = s_symbol s"
    "map rq_kind b' = map rq_kind b" "map rq_preErr b' = map rq_preErr b" "map rq_orderID b' = map rq_orderID b"
    "s_walErr s' \<noteq> None \<Longrightarrow> s_seq s' = s_seq s" "s_walErr s \<noteq> None \<Longrightarrow> s_walErr s' = s_walErr s \<and> d' = d"
  using assms log_requests_kinds
  by (auto simp: log_phase_def logBatch_def split: option.splits bind_splits)

section \<open>Reservations of a refused batch go back\<close>

lemma msum_map_of_cong:
  assumes "gwf m" "gwf m'" "map_of m = map_of m'"
  shows "msum f m = msum f m'"
proof -
  have d: "distinct m" "distinct m'" using assms(1,2) by (auto simp: distinct_map)
  have "set m = set m'"
    using assms by (auto) (metis map_of_eq_Some_iff)+
  with d have "mset m = mset m'" by (simp add: set_eq_iff_mset_eq_distinct)
  then show ?thesis unfolding msum_def by (metis (no_types) mset_map sum_mset_sum_list)
qed

text \<open>Two stores that no caller can tell apart.\<close>

definition same_store :: "Accounts \<Rightarrow> Accounts \<Rightarrow> bool" where
  "same_store a b \<longleftrightarrow> cash a = cash b \<and> positions a = positions b \<and> map_of (holds a) = map_of (holds b) \<and>
     (\<forall>who. ReservedCash a who = ReservedCash b who) \<and> (\<forall>who symb. ReservedPosition a who symb = ReservedPosition b who symb)"

lemma same_storeI:
  assumes "wf_accounts a" "wf_accounts b" "cash a = cash b" "positions a = positions b" "map_of (holds a) = map_of (holds b)"
  shows "same_store a b"
proof -
  have "held_cash a = held_cash b" "held_shares a = held_shares b"
    using msum_map_of_cong [OF wf_accountsD(1) [OF assms(1)] wf_accountsD(1) [OF assms(2)] assms(5)]
    by (simp_all add: held_cash_def held_shares_def fun_eq_iff)
  with assms wf_accountsD(3,4) [OF assms(1)] wf_accountsD(3,4) [OF assms(2)] show ?thesis
    by (simp add: same_store_def ReservedCash_def ReservedPosition_def)
qed

definition order_key :: "request \<Rightarrow> holdKey" where
  "order_key r = (o_Symbol (rq_order r), o_SeqID (rq_order r))"

definition accepted :: "request list \<Rightarrow> holdKey list" where
  "accepted rs = map order_key (filter (\<lambda>r. rq_kind r = reqSubmit \<and> rq_preErr r = None) rs)"

lemma reserve_all_spec:
  assumes "wf_accounts a" "\<And>r. r \<in> set rs \<Longrightarrow> rq_preErr r = None \<and> (rq_kind r = reqSubmit \<longrightarrow> i64_order (rq_order r))"
    "reserve_all rs a = (rs', a')"
  shows "wf_accounts a' \<and> cash a' = cash a \<and> positions a' = positions a \<and>
    set (accepted rs') \<inter> fst ` set (holds a) = {} \<and>
    (\<forall>k. k \<notin> set (accepted rs') \<longrightarrow> map_of (holds a') k = map_of (holds a) k)"
  using assms
proof (induction rs arbitrary: a rs')
  case (Cons r rs)
  obtain r1 a1 where 1: "reserve_one r a = (r1, a1)" by fastforce
  obtain rs1 where 2: "reserve_all rs a1 = (rs1, a')" "rs' = r1 # rs1" using Cons.prems(3) 1 by (auto split: prod.splits)
  have r: "rq_preErr r = None" "rq_kind r = reqSubmit \<Longrightarrow> i64_order (rq_order r)" using Cons.prems(2) by auto
  have step: "wf_accounts a1 \<and> cash a1 = cash a \<and> positions a1 = positions a \<and>
      set (accepted [r1]) \<inter> fst ` set (holds a) = {} \<and>
      (\<forall>k. k \<notin> set (accepted [r1]) \<longrightarrow> map_of (holds a1) k = map_of (holds a) k) \<and>
      fst ` set (holds a) \<subseteq> fst ` set (holds a1)"
  proof (cases "rq_kind r = reqSubmit")
    case True
    obtain a2 e where R: "Reserve (rq_order r) a = (a2, e)" by fastforce
    show ?thesis
    proof (cases e)
      case None
      note k = Reserve_ok [OF Cons.prems(1) r(2) [OF True] R [unfolded None]]
      have "dom (map_of (holds a)) \<subseteq> dom (map_of (holds a1))"
        using 1 True R None k(4) by (auto simp: reserve_one_def)
      then have "fst ` set (holds a) \<subseteq> fst ` set (holds a1)" by (simp only: dom_map_of_conv_image_fst)
      with 1 True R None r(1) k(1,2,4,5,6) show ?thesis
        by (auto simp: reserve_one_def accepted_def order_key_def map_of_eq_None_iff)
    next
      case (Some err)
      with 1 True R Cons.prems(1) Reserve_rejected [OF R [unfolded Some]] show ?thesis
        by (auto simp: reserve_one_def accepted_def)
    qed
  qed (use 1 Cons.prems(1) in \<open>auto simp: reserve_one_def accepted_def\<close>)
  have IH: "wf_accounts a' \<and> cash a' = cash a1 \<and> positions a' = positions a1 \<and>
    set (accepted rs1) \<inter> fst ` set (holds a1) = {} \<and>
    (\<forall>k. k \<notin> set (accepted rs1) \<longrightarrow> map_of (holds a') k = map_of (holds a1) k)"
    by (rule Cons.IH [OF _ _ 2(1)]) (use step Cons.prems(2) in auto)
  have acc: "set (accepted rs') = set (accepted [r1]) \<union> set (accepted rs1)" by (auto simp: 2(2) accepted_def)
  have "set (accepted rs1) \<inter> fst ` set (holds a) = {}" using step IH by blast
  then show ?case unfolding acc using step IH by (simp add: Int_Un_distrib2)
qed (simp add: accepted_def)

lemma release_keys:
  assumes "wf_accounts a"
  shows "wf_accounts (fold releaseLocked ks a) \<and> cash (fold releaseLocked ks a) = cash a \<and>
    positions (fold releaseLocked ks a) = positions a \<and>
    map_of (holds (fold releaseLocked ks a)) k = (if k \<in> set ks then None else map_of (holds a) k)"
  using assms
proof (induction ks arbitrary: a)
  case (Cons k' ks)
  have 1: "map_of (holds (releaseLocked k' a)) = (map_of (holds a))(k' := None)"
    using releaseLocked_spec [OF Cons.prems, of k']
    by (cases "map_of (holds a) k'") (auto simp: shrunk_to_def fun_eq_iff)
  with Cons.IH [of "releaseLocked k' a"] Cons.prems releaseLocked_balances [OF Cons.prems] show ?case
    by (auto simp: wf_releaseLocked)
qed simp

definition keyed :: "string \<Rightarrow> request list \<Rightarrow> bool" where
  "keyed symb rs \<longleftrightarrow> (\<forall>r \<in> set rs. rq_kind r = reqSubmit \<longrightarrow> order_key r = (symb, rq_orderID r))"

lemma keyed_assign_ids: "s_symbol s \<noteq> [] \<Longrightarrow> keyed (s_symbol s) (fst (assign_ids rs s))"
proof (induction rs arbitrary: s)
  case (Cons r rs)
  have "keyed (s_symbol s) [fst (assign_id r s)]"
    using Cons.prems by (auto simp: keyed_def assign_id_def order_key_def Let_def)
  moreover have "s_symbol (snd (assign_id r s)) = s_symbol s" by (subst assign_id_state) simp
  ultimately show ?case using Cons.IH [of "snd (assign_id r s)"] Cons.prems
    by (auto simp: keyed_def case_prod_beta Let_def)
qed (simp add: keyed_def)

lemma keyed_reserve_all: "keyed symb rs \<Longrightarrow> keyed symb (fst (reserve_all rs a))"
  by (induction rs arbitrary: a) (auto simp: keyed_def order_key_def case_prod_beta Let_def)

lemma log_requests_accepted:
  "log_requests js ts rs seq w d = Some (rs', seq', w', d', e) \<Longrightarrow>
   accepted rs' = accepted rs \<and> (keyed symb rs \<longrightarrow> keyed symb rs')"
proof (induction rs arbitrary: seq w d rs')
  case (Cons r rs)
  have k: "order_key (r\<lparr>rq_seq := n\<rparr>) = order_key r" for n by (simp add: order_key_def)
  from Cons show ?case
    by (fastforce simp: Let_def accepted_def keyed_def k split: if_splits bind_splits option.splits)
qed simp

lemma log_phase_accepted:
  "log_phase js ts b s d = Some (b', s', d') \<Longrightarrow> accepted b' = accepted b \<and> (keyed symb b \<longrightarrow> keyed symb b')"
  using log_requests_accepted
  by (auto simp: log_phase_def logBatch_def split: option.splits bind_splits)

lemma serve_all_refused_accounts:
  assumes "serve_all ck i rs s v = Some (ress, s', v')" "s_walErr s \<noteq> None" "s_accounts s" "keyed (s_symbol s) rs"
  shows "v_accounts v' = fold releaseLocked (accepted rs) (v_accounts v)"
  using assms
proof (induction rs arbitrary: i v ress)
  case (Cons r rs)
  obtain res s1 v1 ress1 where 1: "serve ck i r s v = Some (res, s1, v1)"
    "serve_all ck (Suc i) rs s1 v1 = Some (ress1, s', v')" "ress = res # ress1"
    using Cons.prems(1) by (auto split: bind_splits)
  note r = serve_refused [OF 1(1) Cons.prems(2)]
  have k: "keyed (s_symbol s) rs" "rq_kind r = reqSubmit \<Longrightarrow> order_key r = (s_symbol s, rq_orderID r)"
    using Cons.prems(4) by (auto simp: keyed_def)
  have "v_accounts v1 = fold releaseLocked (accepted [r]) (v_accounts v)"
    using r(5) Cons.prems(3) k(2) by (cases "rq_kind r") (auto simp: accepted_def release_def Release_def)
  moreover have "accepted (r # rs) = accepted [r] @ accepted rs" by (simp add: accepted_def)
  ultimately show ?case using Cons.IH [of "Suc i" v1 ress1] 1(2) r(1) Cons.prems(2,3) k(1) by simp
qed (simp add: accepted_def)

lemma assign_ids_i64:
  assumes "\<And>r. r \<in> set rs \<Longrightarrow> incoming r" "\<And>r. r \<in> set rs \<Longrightarrow> is_i64 (o_Price (rq_order r))"
    "r' \<in> set (fst (assign_ids rs s))"
  shows "rq_preErr r' = None \<and> (rq_kind r' = reqSubmit \<longrightarrow> i64_order (rq_order r'))"
  using assms
proof (induction rs arbitrary: s)
  case (Cons r rs)
  then consider "r' = fst (assign_id r s)" | "r' \<in> set (fst (assign_ids rs (snd (assign_id r s))))"
    by (auto simp: case_prod_beta Let_def)
  then show ?case
  proof cases
    case 1
    have i: "incoming r" "is_i64 (o_Price (rq_order r))" using Cons.prems(1,2) by auto
    have "is_i64 (o_SeqID (rq_order r'))" if "rq_kind r' = reqSubmit"
      using 1 that i(1) by (auto simp: assign_id_def incoming_def Let_def split: if_splits)
    with 1 i show ?thesis by (auto simp: incoming_def i64_order_def sane_order_def)
  qed (use Cons.IH [of "snd (assign_id r s)"] Cons.prems(1,2) in auto)
qed simp

text \<open>Serving changes nothing of the sequencer but the book.\<close>

lemma serve_state: "serve ck i r s v = Some (res, s', v') \<Longrightarrow> s' = s\<lparr>s_book := s_book s'\<rparr>"
  by (auto simp: serve_def serve_cancel_def serve_submit_def Let_def split: if_splits bind_splits)

lemma serve_all_state: "serve_all ck i rs s v = Some (ress, s', v') \<Longrightarrow> s' = s\<lparr>s_book := s_book s'\<rparr>"
proof (induction rs arbitrary: i s v ress)
  case (Cons r rs)
  then obtain res s1 v1 ress1 where 1: "serve ck i r s v = Some (res, s1, v1)"
    "serve_all ck (Suc i) rs s1 v1 = Some (ress1, s', v')" by (auto split: bind_splits)
  from serve_state [OF 1(1)] Cons.IH [OF 1(2)] show ?case
    by (metis Sequencer.update_convs(1) Sequencer.surjective)
qed simp

text \<open>The parts of a commit.\<close>

lemma commit_cases:
  assumes "commit js ck batch s v = Some (ress, s', v')"
  obtains s2 a2 b3 s3 d3 s4 where
    "s2 = (snd (assign_ids batch s))\<lparr>s_commits := add64 (s_commits s) 1,
                 s_batched := add64 (s_batched s) (i64 (int (length batch)))\<rparr>"
    "a2 = (if s_accounts s then snd (reserve_all (fst (assign_ids batch s)) (v_accounts v)) else v_accounts v)"
    "log_phase js (ck_pickedUp ck) (prepared s batch (v_accounts v)) s2 (v_disk v) = Some (b3, s3, d3)"
    "serve_all ck 0 b3 s3 (v\<lparr>v_accounts := a2, v_disk := d3\<rparr>) = Some (ress, s4, v')"
    "s' = s4\<lparr>s_resting := i64 (int (RestingCount (s_book s4))), s_lastPos := s_seq s4\<rparr>"
    "s_book s2 = s_book s" "s_walErr s2 = s_walErr s" "s_seq s2 = s_seq s" "s_symbol s2 = s_symbol s"
    "s_accounts s2 = s_accounts s" "s_walErr s3 = s_walErr s'"
proof -
  define s2 where "s2 = (snd (assign_ids batch s))\<lparr>s_commits := add64 (s_commits s) 1,
                 s_batched := add64 (s_batched s) (i64 (int (length batch)))\<rparr>"
  define a2 where "a2 = (if s_accounts s then snd (reserve_all (fst (assign_ids batch s)) (v_accounts v)) else v_accounts v)"
  obtain b3 s3 d3 s4 where
    lp: "log_phase js (ck_pickedUp ck) (prepared s batch (v_accounts v)) s2 (v_disk v) = Some (b3, s3, d3)"
    and sa: "serve_all ck 0 b3 s3 (v\<lparr>v_accounts := a2, v_disk := d3\<rparr>) = Some (ress, s4, v')"
    and s': "s' = s4\<lparr>s_resting := i64 (int (RestingCount (s_book s4))), s_lastPos := s_seq s4\<rparr>"
    using assms unfolding commit_unfold Let_def s2_def [symmetric] a2_def [symmetric] by (auto split: bind_splits)
  have "s_book s2 = s_book s" "s_walErr s2 = s_walErr s" "s_seq s2 = s_seq s" "s_symbol s2 = s_symbol s"
    "s_accounts s2 = s_accounts s"
    unfolding s2_def by (subst assign_ids_state; simp)+
  moreover have "s_walErr s4 = s_walErr s3" by (subst serve_all_state [OF sa]) simp
  then have "s_walErr s3 = s_walErr s'" by (simp add: s')
  ultimately show thesis using that [OF s2_def a2_def lp sa s'] by blast
qed

text \<open>A commit whose log failed, now or earlier.\<close>

lemma commit_refused:
  assumes c: "commit js ck batch s v = Some (ress, s', v')" and e: "s_walErr s' \<noteq> None"
  shows "s_book s' = s_book s" "s_seq s' = s_seq s" "v_feed v' = v_feed v"
    "list_all2 (\<lambda>r res. rq_kind r \<noteq> reqSnapshot \<longrightarrow> rs_err res \<noteq> None \<and> rs_trades res = []) batch ress"
    "s_walErr s \<noteq> None \<Longrightarrow> v_disk v' = v_disk v"
proof -
  obtain s2 a2 b3 s3 d3 s4 where
    lp: "log_phase js (ck_pickedUp ck) (prepared s batch (v_accounts v)) s2 (v_disk v) = Some (b3, s3, d3)"
    and sa: "serve_all ck 0 b3 s3 (v\<lparr>v_accounts := a2, v_disk := d3\<rparr>) = Some (ress, s4, v')"
    and s': "s' = s4\<lparr>s_resting := i64 (int (RestingCount (s_book s4))), s_lastPos := s_seq s4\<rparr>"
    and s2: "s_book s2 = s_book s" "s_walErr s2 = s_walErr s" "s_seq s2 = s_seq s" "s_walErr s3 = s_walErr s'"
    by (rule commit_cases [OF c])
  note f = log_phase_frame [OF lp]
  have e3: "s_walErr s3 \<noteq> None" using e s2 by simp
  note r = serve_all_refused [OF sa e3]
  have s4: "s4 = s3" and v': "v_disk v' = d3" "v_feed v' = v_feed v" using r by simp_all
  show "s_book s' = s_book s" using f(1) s2(1) by (simp add: s' s4)
  show "s_seq s' = s_seq s" using f(7) [OF e3] s2(3) by (simp add: s' s4)
  show "v_feed v' = v_feed v" by (rule v')
  show "v_disk v' = v_disk v" if "s_walErr s \<noteq> None" using f(8) s2(2) that v'(1) by simp
  have "map rq_kind b3 = map rq_kind batch" using f(4) map_kind_prepared by simp
  moreover have "list_all2 (\<lambda>k res. k \<noteq> reqSnapshot \<longrightarrow> rs_err res \<noteq> None \<and> rs_trades res = []) (map rq_kind b3) ress"
    using r by (simp add: list_all2_map1)
  ultimately show "list_all2 (\<lambda>r res. rq_kind r \<noteq> reqSnapshot \<longrightarrow> rs_err res \<noteq> None \<and> rs_trades res = []) batch ress"
    by (simp add: list_all2_map1)
qed

lemma commit_refused_accounts:
  assumes c: "commit js ck batch s v = Some (ress, s', v')" and e: "s_walErr s' \<noteq> None"
    and a: "wf_accounts (v_accounts v)" "s_accounts s" "s_symbol s \<noteq> []"
    and b: "\<And>r. r \<in> set batch \<Longrightarrow> incoming r \<and> is_i64 (o_Price (rq_order r))"
  shows "same_store (v_accounts v') (v_accounts v)"
proof -
  obtain s2 a2 b3 s3 d3 s4 where
    a2: "a2 = (if s_accounts s then snd (reserve_all (fst (assign_ids batch s)) (v_accounts v)) else v_accounts v)"
    and lp: "log_phase js (ck_pickedUp ck) (prepared s batch (v_accounts v)) s2 (v_disk v) = Some (b3, s3, d3)"
    and sa: "serve_all ck 0 b3 s3 (v\<lparr>v_accounts := a2, v_disk := d3\<rparr>) = Some (ress, s4, v')"
    and s2: "s_symbol s2 = s_symbol s" "s_accounts s2 = s_accounts s" "s_walErr s3 = s_walErr s'"
    by (rule commit_cases [OF c])
  let ?b1 = "fst (assign_ids batch s)"
  let ?b2 = "fst (reserve_all ?b1 (v_accounts v))"
  have p: "prepared s batch (v_accounts v) = ?b2" using a(2) by (simp add: prepared_def)
  have k: "accepted b3 = accepted ?b2" "keyed (s_symbol s) b3"
    using log_phase_accepted [OF lp] keyed_reserve_all [OF keyed_assign_ids [OF a(3)]] p by auto
  have R: "wf_accounts a2 \<and> cash a2 = cash (v_accounts v) \<and> positions a2 = positions (v_accounts v) \<and>
    set (accepted ?b2) \<inter> fst ` set (holds (v_accounts v)) = {} \<and>
    (\<forall>k. k \<notin> set (accepted ?b2) \<longrightarrow> map_of (holds a2) k = map_of (holds (v_accounts v)) k)"
    by (rule reserve_all_spec [OF a(1), of ?b1]) (use assign_ids_i64 [of batch _ s] b a2 a(2) in auto)
  have v': "v_accounts v' = fold releaseLocked (accepted ?b2) a2"
    using serve_all_refused_accounts [OF sa] log_phase_frame(2,3) [OF lp] e s2 a(2) k by simp
  have None: "map_of (holds (v_accounts v)) x = None" if "x \<in> set (accepted ?b2)" for x
    using R that by (auto simp: map_of_eq_None_iff)
  have m: "map_of (holds (v_accounts v')) x = map_of (holds (v_accounts v)) x" for x
    using release_keys [of a2 "accepted ?b2" x] R None [of x] unfolding v' by (cases "x \<in> set (accepted ?b2)") simp_all
  show ?thesis
    by (rule same_storeI) (use release_keys [of a2 "accepted ?b2"] R a(1) m in \<open>auto simp: v' fun_eq_iff\<close>)
qed

end
