(* ===== verification/OMS_Registry.thy ===== *)
theory OMS_Registry
  imports OMS_Sequencer
begin

text \<open>
  The symbol registry of \<open>internal/oms/registry.go\<close>: which strings are symbols, the lazily
  created sequencer per symbol, recovery of its log and of its reservations, and shutdown.

  The registry shares with its sequencers one account store, one trade callback, and a root
  directory with one subdirectory per symbol; these make up the record \<open>System\<close>. A
  subdirectory that does not exist yet reads as empty and accepts writes as \<open>sys_root_ok\<close>
  says. A sequencer pointer is its symbol: the one object lives in \<open>reg_seqs\<close>.
\<close>

section \<open>Symbols\<close>

definition maxSymbolLen :: nat where
  "maxSymbolLen = 12"

definition MaxSymbols :: nat where
  "MaxSymbols = 512"

definition symbol_char :: "char \<Rightarrow> bool" where
  "symbol_char c \<longleftrightarrow>
     (of_char CHR ''A'' \<le> (of_char c :: nat) \<and> (of_char c :: nat) \<le> of_char CHR ''Z'') \<or>
     (of_char CHR ''0'' \<le> (of_char c :: nat) \<and> (of_char c :: nat) \<le> of_char CHR ''9'')"

definition validSymbol :: "string \<Rightarrow> bool" where
  "validSymbol s = (if length s = 0 \<or> length s > maxSymbolLen then False else list_all symbol_char s)"

section \<open>State\<close>

record Registry =
  reg_OnTrades :: bool
  reg_walDir :: bool
  reg_accounts :: bool
  reg_seqs :: "(string, Sequencer) gomap"

record System =
  sys_accounts :: Accounts
  sys_dirs :: "(string, Disk) gomap"
  sys_root_ok :: bool
  sys_feed :: "(string \<times> Trade list) list"

definition NewRegistry :: "bool \<Rightarrow> bool \<Rightarrow> Registry" where
  "NewRegistry walDir accounts = \<lparr>reg_OnTrades = False, reg_walDir = walDir, reg_accounts = accounts, reg_seqs = []\<rparr>"

definition dir_of :: "System \<Rightarrow> string \<Rightarrow> Disk" where
  "dir_of sys symbol = (case map_of (sys_dirs sys) symbol of
     Some d \<Rightarrow> d
   | None \<Rightarrow> \<lparr>files = [], write_ok = sys_root_ok sys, sync_ok = sys_root_ok sys\<rparr>)"

text \<open>Storing a directory; one that could not be created stays absent.\<close>

definition put_dir :: "string \<Rightarrow> Disk \<Rightarrow> System \<Rightarrow> System" where
  "put_dir symbol d sys =
     (if map_of (sys_dirs sys) symbol = None \<and> \<not> sys_root_ok sys then sys
      else sys\<lparr>sys_dirs := gput symbol d (sys_dirs sys)\<rparr>)"

text \<open>Writing to a directory that exists; a sequencer without a log has none.\<close>

definition update_dir :: "string \<Rightarrow> Disk \<Rightarrow> System \<Rightarrow> System" where
  "update_dir symbol d sys =
     (if map_of (sys_dirs sys) symbol = None then sys else sys\<lparr>sys_dirs := gput symbol d (sys_dirs sys)\<rparr>)"

section \<open>Creating a sequencer\<close>

definition registry_attach :: "string \<Rightarrow> Registry \<Rightarrow> Sequencer \<Rightarrow> System \<Rightarrow> Sequencer \<times> System" where
  "registry_attach symbol r s sys =
     (let onTrades = (if reg_OnTrades r then Some symbol else None);
          s1 = attach symbol (reg_accounts r) onTrades s
      in if reg_accounts r
         then (s1, sys\<lparr>sys_accounts := fold (RestoreHold symbol) (RestingOrders (s_book s1)) (sys_accounts sys)\<rparr>)
         else (s1, sys))"

definition newSequencer ::
  "Json \<Rightarrow> (SeqID \<Rightarrow> Time) \<Rightarrow> string \<Rightarrow> Registry \<Rightarrow> System \<Rightarrow> (System \<times> (Err + Sequencer)) option" where
  "newSequencer js now symbol r sys =
     (if \<not> reg_walDir r then
        let (s, sys') = registry_attach symbol r (NewSequencer NewBook) sys in Some (sys', Inr s)
      else do {
        (book, _, e) \<leftarrow> Recover js now (dir_of sys symbol) NewBook 0;
        (case e of
           Some err \<Rightarrow> Some (sys, Inl err)
         | None \<Rightarrow>
             let (d, res) = OpenWriter js (dir_of sys symbol); sys1 = put_dir symbol d sys
             in (case res of
                   Inl err \<Rightarrow> Some (sys1, Inl err)
                 | Inr w \<Rightarrow>
                     let (s, sys') = registry_attach symbol r (NewSequencerWithWAL book (Some w)) sys1
                     in Some (sys', Inr s))) })"

text \<open>
  \<open>Get\<close>: the lookup under the read lock, and the creation under the write lock, which looks
  again. Another caller may run between the two.
\<close>

definition get_locked ::
  "Json \<Rightarrow> (SeqID \<Rightarrow> Time) \<Rightarrow> string \<Rightarrow> Registry \<Rightarrow> System \<Rightarrow> (Registry \<times> System \<times> Err option) option" where
  "get_locked js now symbol r sys =
     (if map_of (reg_seqs r) symbol \<noteq> None then Some (r, sys, None)
      else if length (reg_seqs r) \<ge> MaxSymbols then Some (r, sys, Some ErrTooManySymbols)
      else do {
        (sys', res) \<leftarrow> newSequencer js now symbol r sys;
        (case res of
           Inl err \<Rightarrow> Some (r, sys', Some err)
         | Inr s \<Rightarrow> Some (r\<lparr>reg_seqs := gput symbol s (reg_seqs r)\<rparr>, sys', None)) })"

definition Get ::
  "Json \<Rightarrow> (SeqID \<Rightarrow> Time) \<Rightarrow> string \<Rightarrow> Registry \<Rightarrow> System \<Rightarrow> (Registry \<times> System \<times> Err option) option" where
  "Get js now symbol r sys =
     (if \<not> validSymbol symbol then Some (r, sys, Some ErrInvalidSymbol)
      else if map_of (reg_seqs r) symbol \<noteq> None then Some (r, sys, None)
      else get_locked js now symbol r sys)"

definition Symbols :: "Registry \<Rightarrow> string list" where
  "Symbols r = map fst (reg_seqs r)"

text \<open>\<open>Close\<close>: every sequencer is closed, all failures are reported, the map is emptied.\<close>

fun close_all ::
  "(string \<times> Sequencer) list \<Rightarrow> System \<Rightarrow> (System \<times> (string \<times> Err) list) option" where
  "close_all [] sys = Some (sys, [])"
| "close_all ((symbol, s) # rest) sys = do {
     (s', d, e) \<leftarrow> Sequencer_Close s (dir_of sys symbol);
     (sys', errs) \<leftarrow> close_all rest (update_dir symbol d sys);
     Some (sys', (case e of None \<Rightarrow> errs | Some err \<Rightarrow> (symbol, err) # errs)) }"

definition Registry_Close :: "Registry \<Rightarrow> System \<Rightarrow> (Registry \<times> System \<times> (string \<times> Err) list) option" where
  "Registry_Close r sys = do {
     (sys', errs) \<leftarrow> close_all (reg_seqs r) sys;
     Some (r\<lparr>reg_seqs := []\<rparr>, sys', errs) }"

section \<open>Work reaches the sequencer of its symbol\<close>

definition venue_of :: "System \<Rightarrow> string \<Rightarrow> Venue" where
  "venue_of sys symbol = \<lparr>v_accounts = sys_accounts sys, v_disk = dir_of sys symbol, v_feed = sys_feed sys\<rparr>"

definition with_venue :: "string \<Rightarrow> Venue \<Rightarrow> System \<Rightarrow> System" where
  "with_venue symbol v sys =
     update_dir symbol (v_disk v) (sys\<lparr>sys_accounts := v_accounts v, sys_feed := v_feed v\<rparr>)"

definition commit_symbol ::
  "Json \<Rightarrow> Clock \<Rightarrow> string \<Rightarrow> request list \<Rightarrow> Registry \<Rightarrow> System \<Rightarrow> (result list \<times> Registry \<times> System) option" where
  "commit_symbol js ck symbol batch r sys = do {
     s \<leftarrow> map_of (reg_seqs r) symbol;
     (ress, s', v') \<leftarrow> commit js ck batch s (venue_of sys symbol);
     Some (ress, r\<lparr>reg_seqs := gput symbol s' (reg_seqs r)\<rparr>, with_venue symbol v' sys) }"

end
