(* ===== verification/OMS_Registry_Inv.thy ===== *)
theory OMS_Registry_Inv
  imports OMS_Registry OMS_Sequencer_Inv
begin

text \<open>
  Starting a sequencer on the log an earlier run left behind: replay rebuilds the book, the
  writer resumes at the last surviving position, and order identifiers resume above every
  one in the log. The restored reservations are one per resting order.
\<close>

section \<open>Where positions and identifiers resume\<close>

text \<open>The records at positions 1 to \<open>n\<close>, in segments named no later than the next position.\<close>

definition gap_free :: "segments \<Rightarrow> int \<Rightarrow> bool" where
  "gap_free segs n \<longleftrightarrow> 0 \<le> n \<and> map r_Seq (log_of segs) = [1..n] \<and> fst (last segs) \<le> n + 1"

lemma max_seq_bounded:
  assumes "\<And>r. r \<in> set rs \<Longrightarrow> r_Seq r \<le> n" "m \<le> n"
  shows "max_seq rs m \<le> n"
  using assms by (induction rs arbitrary: m) (auto simp: max_seq_def)

lemma log_positions:
  assumes "map r_Seq rs = [1..n]" "r \<in> set rs"
  shows "1 \<le> r_Seq r \<and> r_Seq r \<le> n"
proof -
  have "r_Seq r \<in> set [1..n]" using assms by (metis image_eqI list.set_map)
  then show ?thesis by simp
qed

lemma max_seq_upto:
  assumes "map r_Seq rs = [1..n]" "0 \<le> n"
  shows "max_seq rs 0 = n"
proof (cases "n = 0")
  case True
  with assms show ?thesis by (simp add: max_seq_def)
next
  case False
  then have "n \<in> set (map r_Seq rs)" using assms by simp
  then obtain r where r: "r \<in> set rs" "r_Seq r = n" by auto
  have "max_seq rs 0 \<le> n" using log_positions [OF assms(1)] assms(2) by (intro max_seq_bounded) auto
  with max_seq_ge(2) [OF r(1), of 0] r(2) show ?thesis by simp
qed

lemma resume_position:
  assumes d: "disk_log js d segs tail" and g: "gap_free segs n"
  shows "max (fst (last segs) - 1) (max_seq (snd (last segs)) 0) = n"
proof -
  have ord: "ordered_segments segs" "segs \<noteq> []" using d by (auto simp: disk_log_def wf_segments_def)
  then obtain pre s rs where segs: "segs = pre @ [(s, rs)]" by (metis append_butlast_last_id prod.collapse)
  have n: "0 \<le> n" "map r_Seq (log_of pre @ rs) = [1..n]" "s \<le> n + 1"
    using g by (auto simp: gap_free_def segs)
  have le: "max_seq rs 0 \<le> n" using log_positions [OF n(2)] n(1) by (intro max_seq_bounded) auto
  have "n \<le> max (s - 1) (max_seq rs 0)"
  proof (cases "n = 0")
    case True
    then show ?thesis using max_seq_ge(1) [of 0 rs] by simp
  next
    case False
    then have "n \<in> set (map r_Seq (log_of pre @ rs))" using n by simp
    then obtain r where r: "r \<in> set (log_of pre) \<union> set rs" "r_Seq r = n" by auto
    show ?thesis
    proof (cases "r \<in> set rs")
      case True
      with max_seq_ge(2) [OF True, of 0] r(2) show ?thesis by simp
    next
      case False
      then have "r_Seq r < s" using r(1) ord(1) by (auto simp: segs ordered_segments_def sorted_wrt_append log_of_def)
      with r(2) show ?thesis by simp
    qed
  qed
  with le n(3) show ?thesis by (simp add: segs)
qed

lemma max_order_id:
  assumes "\<And>m. m \<in> set ms \<Longrightarrow> sane_mutation m"
  shows "i \<in> set (placed_ids ms) \<Longrightarrow> i \<le> a_maxOrderID (fold spec_mutate ms a)"
    "a_maxOrderID a \<le> a_maxOrderID (fold spec_mutate ms a)"
proof -
  have step: "a_maxOrderID a \<le> a_maxOrderID (spec_mutate m a) \<and>
      (sane_mutation m \<longrightarrow> (\<forall>i \<in> set (placed_ids [m]). i \<le> a_maxOrderID (spec_mutate m a)))" for m a
    by (cases m) (auto simp: spec_mutate_def spec_submit_def spec_cancel_def sane_mutation_def sane_order_def
        Let_def split: prod.splits option.splits)
  have mono: "a_maxOrderID a \<le> a_maxOrderID (fold spec_mutate ms a)" for ms a
  proof (induction ms arbitrary: a)
    case (Cons m ms)
    from Cons.IH [of "spec_mutate m a"] step [of a m] show ?case by simp
  qed simp
  then show "a_maxOrderID a \<le> a_maxOrderID (fold spec_mutate ms a)" .
  show "i \<in> set (placed_ids ms) \<Longrightarrow> i \<le> a_maxOrderID (fold spec_mutate ms a)"
    using assms
  proof (induction ms arbitrary: a)
    case (Cons m ms)
    from Cons.prems(1) consider "i \<in> set (placed_ids [m])" | "i \<in> set (placed_ids ms)" by auto
    then show ?case
    proof cases
      case 1
      with step [of a m] Cons.prems(2) mono [of "spec_mutate m a" ms] show ?thesis by fastforce
    qed (use Cons.IH Cons.prems(2) in auto)
  qed simp
qed

section \<open>Starting on an existing log\<close>

text \<open>A log this system wrote: sane orders with distinct positive identifiers.\<close>

definition own_log :: "Record list \<Rightarrow> bool" where
  "own_log L \<longleftrightarrow> replayable L \<and> (\<forall>r \<in> set L. sane_mutation (mutation_of r)) \<and>
     (\<forall>i \<in> set (placed_ids (map mutation_of L)). 1 \<le> i)"

lemma own_log_take: "own_log (L @ M) \<Longrightarrow> own_log (L @ take j M)"
proof -
  assume a: "own_log (L @ M)"
  have "take j M = take j M" "set (take j M) \<subseteq> set M" by (auto dest: in_set_takeD)
  moreover have "placed_ids (map mutation_of M) =
      placed_ids (map mutation_of (take j M)) @ placed_ids (map mutation_of (drop j M))"
    by (metis append_take_drop_id map_append placed_ids_append)
  ultimately show ?thesis using a by (auto simp: own_log_def replayable_def)
qed

lemma start_live:
  assumes d: "disk_log js d segs tail" and g: "gap_free segs n" and o: "own_log (log_of segs)"
    and io: "write_ok d" "sync_ok d"
  shows "\<exists>b w d'. Recover js now d NewBook 0 = Some (b, n, None) \<and> OpenWriter js d = (d', Inr w) \<and>
    write_ok d' \<and> sync_ok d' \<and> live js (NewSequencerWithWAL b (Some w)) d' (log_of segs)"
proof -
  let ?L = "log_of segs"
  have n: "0 \<le> n" "map r_Seq ?L = [1..n]" using g by (auto simp: gap_free_def)
  have all: "filter (\<lambda>r. r_Seq r > 0) ?L = ?L" using log_positions [OF n(2)] by (force simp: filter_id_conv)
  obtain b where b: "replay_records now 0 ?L NewBook 0 = Some (b, max_seq ?L 0)" "wf_book b"
    "abs_book b = fold spec_mutate (map mutation_of ?L) (abs_book NewBook)"
    using replay_log [of ?L NewBook now 0 0] o all by (auto simp: own_log_def)
  have r: "Recover js now d NewBook 0 = Some (b, n, None)"
    using Recover_log [OF d] b(1) max_seq_upto [OF n(2,1)] by simp
  obtain w d' where w: "OpenWriter js d = (d', Inr w)" "writer_inv js w d' segs" "w_buf w = []" "write_ok d'"
    "sync_ok d'" "LastSeq w = n"
    using OpenWriter_inv [OF d io] resume_position [OF d g] by auto
  have sane: "m \<in> set (map mutation_of ?L) \<Longrightarrow> sane_mutation m" for m using o by (auto simp: own_log_def)
  have mx: "maxOrderID b = a_maxOrderID (abs_book b)" "a_maxOrderID (abs_book NewBook) = 0"
    by (simp_all add: abs_book_def NewBook_def)
  have "i \<le> maxOrderID b" if "i \<in> set (placed_ids (map mutation_of ?L))" for i
    unfolding mx b(3) by (rule max_order_id(1) [OF sane that])
  moreover have "0 \<le> maxOrderID b"
    unfolding mx(1) b(3) using max_order_id(2) [of "map mutation_of ?L" "abs_book NewBook"] sane by (simp add: mx(2))
  ultimately have "live js (NewSequencerWithWAL b (Some w)) d' ?L"
    using b w n o
    by (auto simp: live_def NewSequencerWithWAL_def wal_log_def LastSeq_def MaxOrderID_def own_log_def)
  with r w show ?thesis by blast
qed

section \<open>A crash at any byte\<close>

lemma upto_prefix:
  assumes "xs @ ys = [1..n]"
  shows "xs = [1..int (length xs)]"
proof (rule nth_equalityI)
  fix k assume k: "k < length xs"
  have "length xs \<le> length [1..n]" using arg_cong [OF assms, of length] by simp
  then have "int (length xs) \<le> n" using k by simp
  have "xs ! k = (xs @ ys) ! k" using k by (simp add: nth_append)
  also have "\<dots> = 1 + int k" unfolding assms using k \<open>int (length xs) \<le> n\<close> by (simp add: nth_upto)
  also have "\<dots> = [1..int (length xs)] ! k" using k by (simp add: nth_upto)
  finally show "xs ! k = [1..int (length xs)] ! k" .
qed simp

lemma crash_gap_free:
  assumes w: "writer_inv js w d (segs @ [(s, rs @ extra)])"
    and p: "map r_Seq (log_of segs @ rs @ extra) = [1..lastSeq w]"
  shows "gap_free (segs @ [(s, rs @ take j extra)]) (int (length (log_of segs @ rs @ take j extra)))"
proof -
  let ?L = "log_of segs @ rs @ take j extra" and ?n = "lastSeq w"
  have ord: "ordered_segments (segs @ [(s, rs @ extra)])" and n: "s \<le> ?n + 1" "0 \<le> ?n"
    using w by (auto simp: writer_inv_def)
  have "map r_Seq ?L @ map r_Seq (drop j extra) = [1..?n]"
    unfolding p [symmetric] by (simp flip: map_append)
  from upto_prefix [OF this] have L: "map r_Seq ?L = [1..int (length ?L)]" by simp
  have "s \<le> int (length ?L) + 1"
  proof (cases "rs @ extra")
    case Nil
    then have "?n = int (length ?L)" using arg_cong [OF p, of length] n by simp
    with n show ?thesis by simp
  next
    case (Cons r more)
    have "map r_Seq (log_of segs) @ [r_Seq r] @ map r_Seq more = [1..?n]" using p Cons by simp
    then have "(map r_Seq (log_of segs) @ [r_Seq r]) @ map r_Seq more = [1..?n]" by simp
    from upto_prefix [OF this] have "map r_Seq (log_of segs) @ [r_Seq r] = [1..int (length (log_of segs)) + 1]"
      by (simp add: add.commute)
    then have "r_Seq r = int (length (log_of segs)) + 1" by (simp add: upto_rec2)
    moreover have "s \<le> r_Seq r" using ord Cons by (auto simp: ordered_segments_def)
    ultimately show ?thesis by simp
  qed
  with L show ?thesis by (simp add: gap_free_def)
qed

lemma crash_start_live:
  assumes w: "writer_inv js w d (segs @ [(s, rs @ extra)])" and k: "length (seg_bytes js rs) \<le> k"
    and p: "map r_Seq (log_of segs @ rs @ extra) = [1..lastSeq w]" and o: "own_log (log_of segs @ rs @ extra)"
    and io: "write_ok d" "sync_ok d"
  shows "\<exists>j b n w' d'. Recover js now (crash_at k w d) NewBook 0 = Some (b, n, None) \<and>
    OpenWriter js (crash_at k w d) = (d', Inr w') \<and> write_ok d' \<and> sync_ok d' \<and>
    live js (NewSequencerWithWAL b (Some w')) d' (log_of segs @ rs @ take j extra)"
proof -
  obtain j tail where j: "disk_log js (crash_at k w d) (segs @ [(s, rs @ take j extra)]) tail"
    using crash_disk_log [OF w k] by blast
  have io': "write_ok (crash_at k w d)" "sync_ok (crash_at k w d)"
    using io by (auto simp: crash_at_def split: option.split)
  have "own_log (log_of (segs @ [(s, rs @ take j extra)]))" using own_log_take [of "log_of segs @ rs" extra j] o by simp
  from start_live [OF j crash_gap_free [OF w p] this io'] show ?thesis by (simp only: log_of_snoc) blast
qed

lemma live_own_log: "live js s d L \<Longrightarrow> own_log L"
  by (force simp: live_def own_log_def)

section \<open>Reservations of the recovered orders\<close>

lemma RestingOrders_entry:
  assumes "wf_book b" "(i, ref) \<in> set (index b)"
  shows "\<exists>x. deref b ref = Some x \<and> o_SeqID x = i \<and> x \<in> set (queue b Buy) \<union> set (queue b Sell)"
proof -
  have "map_of (index b) i = Some ref" using assms by (simp add: wf_book_def wf_index_def)
  then obtain x where "deref b ref = Some x" "o_SeqID x = i" "x \<in> set (queue b (side_at b (ref_level ref)))"
    by (rule index_lookup [OF assms(1)])
  then show ?thesis by (auto simp: side_at_def split: if_splits)
qed

lemma RestingOrders_ids:
  assumes "wf_book b"
  shows "map o_SeqID (RestingOrders b) = map fst (index b)"
proof -
  have "map o_SeqID (List.map_filter (\<lambda>(_, r). deref b r) ys) = map fst ys" if "set ys \<subseteq> set (index b)" for ys
    using that
  proof (induction ys)
    case (Cons y ys)
    obtain i ref where y: "y = (i, ref)" by fastforce
    from RestingOrders_entry [OF assms, of i ref] Cons y show ?case by (auto simp: List.map_filter_simps)
  qed (simp add: List.map_filter_simps)
  then show ?thesis by (simp add: RestingOrders_def)
qed

lemma RestingOrders_set:
  assumes "wf_book b"
  shows "set (RestingOrders b) = set (queue b Buy) \<union> set (queue b Sell)"
proof -
  have sub: "x \<in> set (queue b Buy) \<union> set (queue b Sell)" if "x \<in> set (RestingOrders b)" for x
    using that RestingOrders_entry [OF assms] by (fastforce simp: RestingOrders_def List.map_filter_def)
  moreover have "x \<in> set (RestingOrders b)" if x: "x \<in> set (queue b Buy) \<union> set (queue b Sell)" for x
  proof -
    have "o_SeqID x \<in> set (map o_SeqID (RestingOrders b))"
      unfolding RestingOrders_ids [OF assms] using index_ids [OF assms] x by auto
    then obtain y where y: "y \<in> set (RestingOrders b)" "o_SeqID y = o_SeqID x" by auto
    from queue_id_unique [OF assms _ sub [OF y(1)]] x y(2) have "x = y" by auto
    with y show ?thesis by simp
  qed
  ultimately show ?thesis by blast
qed

lemma restore_all:
  assumes "wf_accounts a" "distinct (map o_SeqID xs)" "\<And>x. x \<in> set xs \<Longrightarrow> was_reservable x"
    "\<And>x. x \<in> set xs \<Longrightarrow> map_of (holds a) (symb, o_SeqID x) = None"
  shows "wf_accounts (fold (RestoreHold symb) xs a) \<and> cash (fold (RestoreHold symb) xs a) = cash a \<and>
    positions (fold (RestoreHold symb) xs a) = positions a \<and>
    (\<forall>x \<in> set xs. map_of (holds (fold (RestoreHold symb) xs a)) (symb, o_SeqID x) = Some (restored_hold symb x)) \<and>
    (\<forall>k. k \<notin> (\<lambda>x. (symb, o_SeqID x)) ` set xs \<longrightarrow> map_of (holds (fold (RestoreHold symb) xs a)) k = map_of (holds a) k)"
  using assms
proof (induction xs arbitrary: a)
  case (Cons x xs)
  note R = RestoreHold_spec [OF Cons.prems(1) Cons.prems(3) [of x] Cons.prems(4) [of x], simplified]
  have n: "o_SeqID x \<notin> o_SeqID ` set xs" using Cons.prems(2) by auto
  have "wf_accounts (fold (RestoreHold symb) xs (RestoreHold symb x a)) \<and>
    cash (fold (RestoreHold symb) xs (RestoreHold symb x a)) = cash (RestoreHold symb x a) \<and>
    positions (fold (RestoreHold symb) xs (RestoreHold symb x a)) = positions (RestoreHold symb x a) \<and>
    (\<forall>y \<in> set xs. map_of (holds (fold (RestoreHold symb) xs (RestoreHold symb x a))) (symb, o_SeqID y) = Some (restored_hold symb y)) \<and>
    (\<forall>k. k \<notin> (\<lambda>x. (symb, o_SeqID x)) ` set xs \<longrightarrow>
       map_of (holds (fold (RestoreHold symb) xs (RestoreHold symb x a))) k = map_of (holds (RestoreHold symb x a)) k)"
  proof (rule Cons.IH)
    fix y assume "y \<in> set xs"
    then have "o_SeqID y \<noteq> o_SeqID x" using n by (metis image_eqI)
    then show "map_of (holds (RestoreHold symb x a)) (symb, o_SeqID y) = None"
      using R Cons.prems(4) [of y] \<open>y \<in> set xs\<close> by simp
  qed (use R Cons.prems in auto)
  moreover have "(symb, o_SeqID x) \<notin> (\<lambda>x. (symb, o_SeqID x)) ` set xs" using n by auto
  ultimately show ?case using R by auto
qed simp

text \<open>One reservation per resting order of the symbol, and no other.\<close>

definition holds_book :: "string \<Rightarrow> Book \<Rightarrow> Accounts \<Rightarrow> bool" where
  "holds_book symb b a \<longleftrightarrow>
     (\<forall>x \<in> set (queue b Buy) \<union> set (queue b Sell). map_of (holds a) (symb, o_SeqID x) = Some (restored_hold symb x)) \<and>
     (\<forall>i. map_of (holds a) (symb, i) \<noteq> None \<longrightarrow> i \<in> resting_ids (abs_book b))"

lemma restore_book:
  assumes b: "wf_book b" and a: "wf_accounts a" "\<And>i. map_of (holds a) (symb, i) = None"
    and x: "\<And>x. x \<in> set (queue b Buy) \<union> set (queue b Sell) \<Longrightarrow> was_reservable x"
  defines "a' \<equiv> fold (RestoreHold symb) (RestingOrders b) a"
  shows "wf_accounts a'" "cash a' = cash a" "positions a' = positions a" "holds_book symb b a'"
    "\<And>k. fst k \<noteq> symb \<Longrightarrow> map_of (holds a') k = map_of (holds a) k"
proof -
  have d: "distinct (map o_SeqID (RestingOrders b))"
    unfolding RestingOrders_ids [OF b] using b by (simp add: wf_book_def wf_index_def)
  note S = RestingOrders_set [OF b]
  have R: "wf_accounts a' \<and> cash a' = cash a \<and> positions a' = positions a \<and>
    (\<forall>x \<in> set (RestingOrders b). map_of (holds a') (symb, o_SeqID x) = Some (restored_hold symb x)) \<and>
    (\<forall>k. k \<notin> (\<lambda>x. (symb, o_SeqID x)) ` set (RestingOrders b) \<longrightarrow> map_of (holds a') k = map_of (holds a) k)"
    unfolding a'_def by (rule restore_all [OF a(1) d]) (use a(2) x S in auto)
  show "wf_accounts a'" "cash a' = cash a" "positions a' = positions a" using R by simp_all
  show "map_of (holds a') k = map_of (holds a) k" if "fst k \<noteq> symb" for k
  proof -
    have "k \<notin> (\<lambda>x. (symb, o_SeqID x)) ` set (RestingOrders b)" using that by auto
    with R show ?thesis by blast
  qed
  have "i \<in> resting_ids (abs_book b)" if "map_of (holds a') (symb, i) \<noteq> None" for i
  proof -
    have "(symb, i) \<in> (\<lambda>x. (symb, o_SeqID x)) ` set (RestingOrders b)" using R a(2) that by metis
    then show ?thesis unfolding S by (auto simp: resting_ids_def abs_book_def)
  qed
  then show "holds_book symb b a'" using R unfolding S by (simp add: holds_book_def)
qed

section \<open>Creating the sequencer of a symbol\<close>

lemma dir_of_put_dir: "write_ok (dir_of sys symb) \<Longrightarrow> dir_of (put_dir symb d sys) symb = d"
  by (auto simp: dir_of_def put_dir_def split: option.splits)

lemma sys_accounts_put_dir [simp]: "sys_accounts (put_dir symb d sys) = sys_accounts sys"
  by (simp add: put_dir_def)

lemma dir_of_accounts [simp]: "dir_of (sys\<lparr>sys_accounts := a\<rparr>) symb = dir_of sys symb"
  by (simp add: dir_of_def split: option.split)

lemma live_attach [simp]: "live js (attach symb a f s) d L = live js s d L"
  by (simp add: live_def attach_def)

lemma newSequencer_recovers:
  assumes d: "disk_log js (dir_of sys symb) segs tail" "gap_free segs n" "own_log (log_of segs)"
    and io: "write_ok (dir_of sys symb)" "sync_ok (dir_of sys symb)"
    and r: "reg_walDir r" "reg_accounts r"
    and a: "wf_accounts (sys_accounts sys)" "\<And>i. map_of (holds (sys_accounts sys)) (symb, i) = None"
    and x: "\<And>x. x \<in> set (a_buys (fold spec_mutate (map mutation_of (log_of segs)) (abs_book NewBook))) \<union>
        set (a_sells (fold spec_mutate (map mutation_of (log_of segs)) (abs_book NewBook))) \<Longrightarrow> was_reservable x"
  shows "\<exists>s sys'. newSequencer js now symb r sys = Some (sys', Inr s) \<and> live js s (dir_of sys' symb) (log_of segs) \<and>
    s_symbol s = symb \<and> s_accounts s \<and> wf_accounts (sys_accounts sys') \<and> cash (sys_accounts sys') = cash (sys_accounts sys) \<and>
    positions (sys_accounts sys') = positions (sys_accounts sys) \<and> holds_book symb (s_book s) (sys_accounts sys') \<and>
    (\<forall>k. fst k \<noteq> symb \<longrightarrow> map_of (holds (sys_accounts sys')) k = map_of (holds (sys_accounts sys)) k)"
proof -
  obtain b w d' where b: "Recover js now (dir_of sys symb) NewBook 0 = Some (b, n, None)"
    "OpenWriter js (dir_of sys symb) = (d', Inr w)" "live js (NewSequencerWithWAL b (Some w)) d' (log_of segs)"
    using start_live [OF d io] by blast
  let ?s = "NewSequencerWithWAL b (Some w)"
  have B: "wf_book b" "abs_book b = fold spec_mutate (map mutation_of (log_of segs)) (abs_book NewBook)"
    using b(3) by (auto simp: live_def NewSequencerWithWAL_def)
  have q: "x \<in> set (queue b Buy) \<union> set (queue b Sell) \<Longrightarrow> was_reservable x" for x
    using x [of x] unfolding B(2) [symmetric] by (simp add: abs_book_def)
  note R = restore_book [OF B(1) a q]
  let ?s' = "attach symb True (if reg_OnTrades r then Some symb else None) ?s"
  have bk: "s_book ?s' = b" "s_symbol ?s' = symb" "s_accounts ?s'" by (simp_all add: attach_def NewSequencerWithWAL_def)
  show ?thesis
    using R b r io dir_of_put_dir [OF io(1)] bk
    by (intro exI [of _ ?s'] exI [of _ "(put_dir symb d' sys)\<lparr>sys_accounts :=
        fold (RestoreHold symb) (RestingOrders b) (sys_accounts sys)\<rparr>"])
      (simp add: newSequencer_def registry_attach_def Let_def)
qed

end
