(* ===== verification/OMS_Sequencer_Props.thy ===== *)
theory OMS_Sequencer_Props
  imports OMS_Registry_Inv OMS_Accounts_Props
begin

text \<open>
  The promises of the sequencer: the log is written first, the live book is always the replay
  of the log, positions have no gaps, order identifiers are fresh, a refused batch leaves
  book and account store as they were, and a crash at any byte loses only unsynced requests.
\<close>

section \<open>Runs of the goroutine\<close>

text \<open>The states a sequencer goes through by committing batches on a working disk.\<close>

inductive runs :: "Json \<Rightarrow> Sequencer \<Rightarrow> Venue \<Rightarrow> Record list \<Rightarrow> Sequencer \<Rightarrow> Venue \<Rightarrow> Record list \<Rightarrow> bool"
  for js s0 v0 L0 where
  start: "runs js s0 v0 L0 s0 v0 L0"
| step: "runs js s0 v0 L0 s v L \<Longrightarrow> fits_batch js ck batch s v \<Longrightarrow> commit js ck batch s v = Some (ress, s', v') \<Longrightarrow>
    runs js s0 v0 L0 s' v' (L @ batch_records ck batch s v)"
| others: "runs js s0 v0 L0 s v L \<Longrightarrow> runs js s0 v0 L0 s (v\<lparr>v_accounts := a, v_feed := f\<rparr>) L"

lemma runs_live:
  assumes "runs js s0 v0 L0 s v L" "live js s0 (v_disk v0) L0"
  shows "live js s (v_disk v) L"
  using assms
proof (induction rule: runs.induct)
  case (step s v L ck batch ress s' v')
  with commit_ok [of js s v L ck batch] show ?case by auto
qed simp_all

lemma runs_extends: "runs js s0 v0 L0 s v L \<Longrightarrow> \<exists>M. L = L0 @ M"
  by (induction rule: runs.induct) auto

lemma live_recover:
  assumes "live js s d L"
  shows "\<exists>b. Recover js now d NewBook 0 = Some (b, s_seq s, None) \<and> wf_book b \<and> abs_book b = abs_book (s_book s)"
proof -
  obtain w where w: "wal_log js (w, d) L" "w_buf w = []" using assms by (auto simp: live_def)
  then obtain segs where segs: "writer_inv js w d segs" "log_of segs = L" by (auto simp: wal_log_def)
  have d: "disk_log js d segs []" using segs w(2) by (simp add: disk_log_def writer_inv_def torn_tail_def)
  have p: "map r_Seq L = [1..s_seq s]" "0 \<le> s_seq s" "replayable L" using assms by (auto simp: live_def)
  have all: "filter (\<lambda>r. r_Seq r > 0) L = L" using log_positions [OF p(1)] by (force simp: filter_id_conv)
  obtain b where b: "replay_records now 0 L NewBook 0 = Some (b, max_seq L 0)" "wf_book b"
    "abs_book b = fold spec_mutate (map mutation_of L) (abs_book NewBook)"
    using replay_log [OF p(3) wf_NewBook, of now 0 0] all by auto
  with Recover_log [OF d, of now NewBook 0] max_seq_upto [OF p(1,2)] assms segs(2) show ?thesis
    by (auto simp: live_def)
qed

section \<open>A sequencer to evaluate the properties on\<close>

lemma demo_start:
  obtains w d where "OpenWriter demo_json empty_disk = (d, Inr w)"
    "live demo_json (NewSequencerWithWAL NewBook (Some w)) d []" "write_ok d" "sync_ok d"
proof -
  obtain w d where w: "OpenWriter demo_json empty_disk = (d, Inr w)" "writer_inv demo_json w d [(1, [])]"
    "lastSeq w = 0" "write_ok d" "sync_ok d" by (rule demo_open)
  have "w_buf w = []" using w(1)
    by (auto simp: OpenWriter_def empty_disk_def segmentPaths_def openSegment_def Let_def new_writer_def)
  moreover have "wal_log demo_json (w, d) []"
    unfolding wal_log_def using w(2) by (intro exI [of _ "[(1, [])]"]) (simp add: log_of_def)
  ultimately have "live demo_json (NewSequencerWithWAL NewBook (Some w)) d []"
    using w(3) by (simp add: live_def NewSequencerWithWAL_def LastSeq_def MaxOrderID_def replayable_def)
      (simp add: NewBook_def)
  with w that show thesis by blast
qed

definition demo_ck :: Clock where
  "demo_ck = \<lparr>ck_pickedUp = 0, ck_responded = (\<lambda>i. 8 + int i), ck_trade = (\<lambda>_. 9)\<rparr>"

definition demo_batch :: "request list" where
  "demo_batch = [submit_request (limit_order 0 ''ram'' Sell 100 5), snapshot_request, cancel_request 1 []]"

definition demo_venue :: "Disk \<Rightarrow> Venue" where
  "demo_venue d = \<lparr>v_accounts = NewAccounts, v_disk = d, v_feed = []\<rparr>"

text \<open>A sequencer whose log refuses every record, with a funded account.\<close>

definition deaf_json :: Json where
  "deaf_json = \<lparr>j_Marshal = (\<lambda>_. None), j_Unmarshal = (\<lambda>_. None)\<rparr>"

definition deaf_seq :: Sequencer where
  "deaf_seq = attach ''NABIL'' True None (NewSequencerWithWAL NewBook (Some (new_writer\<lparr>w_seg := Some (segmentName 1)\<rparr>)))"

definition deaf_batch :: "request list" where
  "deaf_batch = [submit_request (demo_order\<lparr>o_SeqID := 0\<rparr>), cancel_request 3 []]"

definition deaf_commit :: "(result list \<times> Sequencer \<times> Venue) option" where
  "deaf_commit = commit deaf_json demo_ck deaf_batch deaf_seq (demo_venue empty_disk\<lparr>v_accounts := demo_accounts\<rparr>)"

lemma demo_records:
  assumes "lastSeq w = 0"
  shows "batch_records demo_ck demo_batch (NewSequencerWithWAL NewBook (Some w)) (demo_venue d) =
    [submit_record 1 (limit_order 1 ''ram'' Sell 100 5), cancel_record 2 1]"
  using assms
  by (simp add: batch_records_def prepared_def demo_batch_def submit_request_def snapshot_request_def cancel_request_def
      NewSequencerWithWAL_def LastSeq_def MaxOrderID_def NewBook_def assign_id_def zero_request_def limit_order_def
      skipped_def record_of_def submit_record_def cancel_record_def demo_ck_def Let_def add64_def is_i64_def)

lemma demo_fits:
  assumes "lastSeq w = 0" "write_ok d" "sync_ok d"
  shows "fits_batch demo_json demo_ck demo_batch (NewSequencerWithWAL NewBook (Some w)) (demo_venue d)"
proof -
  have "\<forall>r \<in> set demo_batch. incoming r"
    by (simp add: demo_batch_def incoming_def submit_request_def snapshot_request_def cancel_request_def zero_request_def
        limit_order_def sane_order_def is_i64_def)
  moreover have "\<forall>rec \<in> set (batch_records demo_ck demo_batch (NewSequencerWithWAL NewBook (Some w)) (demo_venue d)).
      loggable demo_json rec"
    unfolding demo_records [OF assms(1)] by (simp add: demo_submit_loggable demo_cancel_loggable is_i64_def)
  ultimately show ?thesis
    using assms by (simp add: fits_batch_def batch_records_def demo_venue_def NewSequencerWithWAL_def LastSeq_def MaxOrderID_def
        NewBook_def demo_batch_def max_i64_def)
qed

lemma demo_run:
  obtains w d ress s' v' where "live demo_json (NewSequencerWithWAL NewBook (Some w)) d []"
    "fits_batch demo_json demo_ck demo_batch (NewSequencerWithWAL NewBook (Some w)) (demo_venue d)"
    "commit demo_json demo_ck demo_batch (NewSequencerWithWAL NewBook (Some w)) (demo_venue d) = Some (ress, s', v')"
    "lastSeq w = 0"
proof -
  obtain w d where w: "live demo_json (NewSequencerWithWAL NewBook (Some w)) d []" "write_ok d" "sync_ok d"
    by (rule demo_start)
  have z: "lastSeq w = 0" using w(1) by (auto simp: live_def NewSequencerWithWAL_def LastSeq_def)
  from commit_ok [of demo_json "NewSequencerWithWAL NewBook (Some w)" "demo_venue d" "[]" demo_ck demo_batch]
    w demo_fits [OF z w(2,3)] z that show thesis by (auto simp: demo_venue_def)
qed

section \<open>Properties of the sequencer\<close>





text \<open>
  C16: Log first, or nothing. If the log cannot be written (now or since an earlier failure),
  the commit leaves the book and the position as they were, executes and publishes no trade,
  answers every submission and cancel of the batch with an error, and gives back every
  reservation it made: the account store ends up indistinguishable from before.
\<close>

theorem refused_batch_changes_nothing:
  assumes "commit js ck batch s v = Some (ress, s', v')" "s_walErr s' \<noteq> None"
    "wf_accounts (v_accounts v)" "s_accounts s" "s_symbol s \<noteq> []"
    "\<And>r. r \<in> set batch \<Longrightarrow> incoming r \<and> is_i64 (o_Price (rq_order r))"
  shows "s_book s' = s_book s \<and> s_seq s' = s_seq s \<and> v_feed v' = v_feed v \<and>
    list_all2 (\<lambda>r res. rq_kind r \<noteq> reqSnapshot \<longrightarrow> rs_err res \<noteq> None \<and> rs_trades res = []) batch ress \<and>
    same_store (v_accounts v') (v_accounts v)"
  using commit_refused [OF assms(1,2)] commit_refused_accounts [OF assms] by blast

theorem refused_batch_changes_nothing_witness:
  "\<exists>ress s' v'. deaf_commit = Some (ress, s', v') \<and> s_walErr s' = Some ErrWALEncode \<and> s_book s' = NewBook \<and>
    same_store (v_accounts v') demo_accounts"
proof -
  have "case deaf_commit of None \<Rightarrow> False | Some (ress, s', v') \<Rightarrow> s_walErr s' = Some ErrWALEncode" by code_simp
  then obtain ress s' v' where c: "deaf_commit = Some (ress, s', v')" "s_walErr s' = Some ErrWALEncode"
    by (auto split: option.splits)
  have "list_all (\<lambda>r. incoming r \<and> is_i64 (o_Price (rq_order r))) deaf_batch" by code_simp
  then have b: "\<And>r. r \<in> set deaf_batch \<Longrightarrow> incoming r \<and> is_i64 (o_Price (rq_order r))" by (simp add: list_all_iff)
  have "wf_accounts (v_accounts (demo_venue empty_disk\<lparr>v_accounts := demo_accounts\<rparr>))"
    using reachable_wf_accounts [OF demo_accounts_reachable] by (simp add: demo_venue_def)
  moreover have "s_accounts deaf_seq" "s_symbol deaf_seq \<noteq> []" "s_book deaf_seq = NewBook"
    by (simp_all add: deaf_seq_def attach_def NewSequencerWithWAL_def)
  ultimately show ?thesis
    using refused_batch_changes_nothing [OF c(1) [unfolded deaf_commit_def] _ _ _ _ b] c
    by (intro exI [of _ ress] exI [of _ s'] exI [of _ v']) (simp add: demo_venue_def)
qed

text \<open>
  Draining keeps arrival order and is bounded: the batch is a prefix of what was waiting, in
  order and never empty, at most 256 requests long, and something is left behind only when
  the batch is full.
\<close>

lemma drain_takes_oldest_first:
  "drain [r] ready = (take maxBatch (r # ready), drop maxBatch (r # ready))"
proof -
  have "length b \<le> maxBatch \<Longrightarrow> drain b ready = (take maxBatch (b @ ready), drop maxBatch (b @ ready))" for b
    by (induction ready arbitrary: b) (simp_all add: maxBatch_def take_Cons' drop_Cons')
  from this [of "[r]"] show ?thesis by (simp add: maxBatch_def)
qed

text \<open>
  A crash at any byte is survivable. Whatever the writer had appended when the machine
  stopped, and however much of the unsynced bytes reached the disk, starting a sequencer on the
  remains succeeds: it holds every synced record and a prefix of the others, its book is their
  replay, and its positions and order identifiers resume right above them.
\<close>

lemma crash_restart_resumes:
  assumes "writer_inv js w d (segs @ [(s, rs @ extra)])" "length (seg_bytes js rs) \<le> k"
    "map r_Seq (log_of segs @ rs @ extra) = [1..lastSeq w]" "own_log (log_of segs @ rs @ extra)"
    "write_ok d" "sync_ok d"
  shows "\<exists>j b n w' d'. Recover js now (crash_at k w d) NewBook 0 = Some (b, n, None) \<and>
    OpenWriter js (crash_at k w d) = (d', Inr w') \<and>
    live js (NewSequencerWithWAL b (Some w')) d' (log_of segs @ rs @ take j extra)"
  using crash_start_live [OF assms] by metis

lemma crash_restart_resumes_witness:
  "\<exists>k w d b n w' d'. Recover demo_json demo_clock (crash_at k w d) NewBook 0 = Some (b, n, None) \<and>
    OpenWriter demo_json (crash_at k w d) = (d', Inr w') \<and>
    live demo_json (NewSequencerWithWAL b (Some w')) d' [submit_record 1 (limit_order 1 ''ram'' Sell 100 5)]"
proof -
  let ?r = "submit_record 1 (limit_order 1 ''ram'' Sell 100 5)"
  obtain w d where w: "writer_inv demo_json w d [(1, [])]" "lastSeq w = 0" "write_ok d" "sync_ok d" by (rule demo_open)
  have l: "loggable demo_json ?r" by (simp add: demo_submit_loggable is_i64_def)
  obtain w1 d1 segs where 1: "writer_inv demo_json w1 d1 segs" "log_of segs = [?r]" "lastSeq w1 = 1" "write_ok d1" "sync_ok d1"
    using Append_inv [OF w(1,3,4) l] w(2) by (auto simp: submit_record_def log_of_def)
  then have "segs \<noteq> []" by (auto simp: writer_inv_def wf_segments_def)
  then obtain pre s rs where segs: "segs = pre @ [(s, rs @ [])]" by (metis append_Nil2 append_butlast_last_id prod.collapse)
  have L: "log_of pre @ rs @ [] = [?r]" using 1(2) by (simp add: segs)
  have "own_log [?r]"
    by (simp add: own_log_def replayable_def mutation_of_def submit_record_def limit_order_def i64_mutation_def sane_mutation_def
        sane_order_def is_i64_def)
  moreover have "map r_Seq [?r] = [1..1]" by (simp add: submit_record_def)
  ultimately show ?thesis
    using crash_restart_resumes [OF 1(1) [unfolded segs] order.refl, of demo_clock, unfolded L 1(3), OF _ _ 1(4,5)] L
    by (simp only: take_Nil) blast
qed

end
