(* ===== verification/OMS_Registry_Props.thy ===== *)
theory OMS_Registry_Props
  imports OMS_Sequencer_Props
begin

text \<open>
  The promises of the registry: only harmless strings become symbols and at most 512 of them,
  two callers that race to create a symbol share one sequencer, and creating one on an
  existing log recovers book, positions and reservations.
\<close>

section \<open>Histories of a registry\<close>

inductive reachable_registry :: "Json \<Rightarrow> Registry \<Rightarrow> System \<Rightarrow> bool" for js where
  new: "reachable_registry js (NewRegistry wd ac) sys"
| callback: "reachable_registry js r sys \<Longrightarrow> reachable_registry js (r\<lparr>reg_OnTrades := f\<rparr>) sys"
| get: "reachable_registry js r sys \<Longrightarrow> Get js now symb r sys = Some (r', sys', e) \<Longrightarrow> reachable_registry js r' sys'"
| work: "reachable_registry js r sys \<Longrightarrow> commit_symbol js ck symb batch r sys = Some (ress, r', sys') \<Longrightarrow>
    reachable_registry js r' sys'"
| close: "reachable_registry js r sys \<Longrightarrow> Registry_Close r sys = Some (r', sys', errs) \<Longrightarrow> reachable_registry js r' sys'"
| others: "reachable_registry js r sys \<Longrightarrow> reachable_registry js r sys'"

definition bounded_registry :: "Registry \<Rightarrow> bool" where
  "bounded_registry r \<longleftrightarrow> gwf (reg_seqs r) \<and> length (reg_seqs r) \<le> MaxSymbols \<and> (\<forall>symb \<in> set (Symbols r). validSymbol symb)"

lemma length_gput_present: "map_of m k \<noteq> None \<Longrightarrow> length (gput k v m) = length m"
  by (induction m) auto

lemma length_gput_absent: "map_of m k = None \<Longrightarrow> length (gput k v m) = Suc (length m)"
  by (induction m) (auto split: if_splits)

lemma Symbols_gput: "set (Symbols (r\<lparr>reg_seqs := gput symb s (reg_seqs r)\<rparr>)) = insert symb (set (Symbols r))"
  using keys_gput [of symb s "reg_seqs r"] by (simp add: Symbols_def insert_absorb)

lemma Get_cases:
  assumes "Get js now symb r sys = Some (r', sys', e)"
  shows "(r' = r \<and> (e \<noteq> None \<or> map_of (reg_seqs r) symb \<noteq> None)) \<or>
    (\<exists>s. r' = r\<lparr>reg_seqs := gput symb s (reg_seqs r)\<rparr> \<and> e = None \<and> validSymbol symb \<and>
       map_of (reg_seqs r) symb = None \<and> length (reg_seqs r) < MaxSymbols)"
  using assms by (auto simp: Get_def get_locked_def split: if_splits bind_splits sum.splits)

lemma reachable_bounded: "reachable_registry js r sys \<Longrightarrow> bounded_registry r"
proof (induction rule: reachable_registry.induct)
  case (get r sys now symb r' sys' e)
  with Get_cases [OF get.hyps(2)] show ?case
    by (elim disjE exE conjE) (simp_all add: bounded_registry_def length_gput_absent Symbols_gput)
next
  case (work r sys ck symb batch ress r' sys')
  then obtain s s' where "map_of (reg_seqs r) symb = Some s" "r' = r\<lparr>reg_seqs := gput symb s' (reg_seqs r)\<rparr>"
    by (auto simp: commit_symbol_def split: bind_splits)
  moreover from this have "symb \<in> set (Symbols r)" by (auto simp: Symbols_def dest: map_of_SomeD intro: rev_image_eqI)
  ultimately show ?case using work.IH
    by (simp add: bounded_registry_def length_gput_present Symbols_gput)
qed (auto simp: bounded_registry_def NewRegistry_def Symbols_def Registry_Close_def split: bind_splits)

lemma symbol_char_safe: "symbol_char c \<Longrightarrow> c \<noteq> CHR ''/'' \<and> c \<noteq> CHR ''.'' \<and> of_char c < (128::nat)"
  by (auto simp: symbol_char_def)

section \<open>A recovered symbol to evaluate the properties on\<close>

definition demo_system :: "Disk \<Rightarrow> System" where
  "demo_system d = \<lparr>sys_accounts = demo_accounts, sys_dirs = [(''NABIL'', d)], sys_root_ok = True, sys_feed = []\<rparr>"

definition demo_registry :: Registry where
  "demo_registry = (NewRegistry True True)\<lparr>reg_OnTrades := True\<rparr>"

lemma demo_recovered:
  obtains d segs where "disk_log demo_json d segs []" "gap_free segs 3" "log_of segs = demo_log" "write_ok d" "sync_ok d"
proof -
  obtain w d where w: "wal_log demo_json (w, d) []" "wal_healthy (w, d)" "lastSeq w = 0" by (rule demo_open_log)
  have "sorted_wrt (<) (lastSeq (fst (w, d)) # map r_Seq demo_log)"
    by (simp add: w(3) demo_log_def submit_record_def cancel_record_def)
  from wal.write_batch_law [OF w(1,2) demo_log_loggable this] obtain s where
    s: "wal_log demo_json s demo_log" "w_buf (fst s) = []" "wal_healthy s" "lastSeq (fst s) = 3"
    by (auto simp: demo_log_def submit_record_def cancel_record_def)
  then obtain segs where segs: "writer_inv demo_json (fst s) (snd s) segs" "log_of segs = demo_log"
    by (auto simp: wal_log_def)
  have "disk_log demo_json (snd s) segs []" using segs s(2) by (simp add: disk_log_def writer_inv_def torn_tail_def)
  moreover have "map r_Seq demo_log = [1..3]" by (simp add: demo_log_def submit_record_def cancel_record_def upto_rec1)
  then have "gap_free segs 3" using segs s(4) by (simp add: gap_free_def writer_inv_def)
  ultimately show thesis using that [of "snd s" segs] segs(2) s(3) by (simp add: wal_healthy_def)
qed

lemma demo_log_own: "own_log demo_log"
  using demo_log_replayable
  by (simp add: own_log_def demo_log_def mutation_of_def submit_record_def cancel_record_def sane_mutation_def sane_order_def
      limit_order_def is_i64_def)

section \<open>Properties of the registry\<close>

text \<open>
  C28: The registry is bounded and its symbols are harmless. Whatever sequence of lookups, work
  and shutdowns it goes through, it holds at most 512 sequencers, one per symbol, and every
  symbol is 1 to 12 characters without a path separator or a dot, so that the directory made
  from it is a direct child of the log root; any other string is refused without effect.
\<close>

theorem registry_symbols_bounded_and_safe:
  assumes "reachable_registry js r sys"
  shows "length (Symbols r) \<le> 512 \<and> distinct (Symbols r) \<and>
    (\<forall>symb \<in> set (Symbols r). symb \<noteq> [] \<and> length symb \<le> 12 \<and> CHR ''/'' \<notin> set symb \<and> CHR ''.'' \<notin> set symb) \<and>
    (\<not> validSymbol symb \<longrightarrow> Get js now symb r sys = Some (r, sys, Some ErrInvalidSymbol))"
proof -
  have v: "symb \<noteq> [] \<and> length symb \<le> 12 \<and> CHR ''/'' \<notin> set symb \<and> CHR ''.'' \<notin> set symb" if "validSymbol symb" for symb
    using that symbol_char_safe by (auto simp: validSymbol_def maxSymbolLen_def list_all_iff split: if_splits)
  from reachable_bounded [OF assms] show ?thesis
    by (auto simp: bounded_registry_def Get_def MaxSymbols_def v) (auto simp: Symbols_def)
qed

theorem registry_symbols_bounded_and_safe_witness:
  "Get demo_json demo_clock ''../etc'' demo_registry (demo_system empty_disk) =
     Some (demo_registry, demo_system empty_disk, Some ErrInvalidSymbol)"
proof -
  have "reachable_registry demo_json demo_registry (demo_system empty_disk)"
    unfolding demo_registry_def by (intro reachable_registry.intros)
  moreover have "\<not> validSymbol ''../etc''" by code_simp
  ultimately show ?thesis using registry_symbols_bounded_and_safe by blast
qed

text \<open>
  Two callers that race to create the same symbol share one sequencer: if another caller's
  lookup succeeded after this one missed under the read lock, the creation under the write
  lock finds that sequencer and changes nothing.
\<close>

lemma racing_lookups_share_sequencer:
  assumes "Get js now symb r sys = Some (r', sys', None)"
  shows "get_locked js now' symb r' sys'' = Some (r', sys'', None) \<and> symb \<in> set (Symbols r') \<and>
    Get js now' symb r' sys'' = Some (r', sys'', None)"
proof -
  have "map_of (reg_seqs r') symb \<noteq> None"
    using assms by (auto simp: Get_def get_locked_def split: if_splits bind_splits sum.splits)
  moreover have "validSymbol symb" using assms by (simp add: Get_def split: if_splits)
  ultimately show ?thesis by (auto simp: get_locked_def Get_def Symbols_def dest: map_of_SomeD intro: rev_image_eqI)
qed

lemma racing_lookups_share_sequencer_witness:
  "\<exists>r' sys'. Get demo_json demo_clock ''NABIL'' (NewRegistry False True) (demo_system empty_disk) = Some (r', sys', None) \<and>
     get_locked demo_json demo_clock ''NABIL'' r' sys' = Some (r', sys', None) \<and> ''NABIL'' \<in> set (Symbols r')"
proof -
  have "validSymbol ''NABIL''" by code_simp
  then obtain r' sys' where "Get demo_json demo_clock ''NABIL'' (NewRegistry False True) (demo_system empty_disk) = Some (r', sys', None)"
    by (simp add: Get_def get_locked_def NewRegistry_def newSequencer_def registry_attach_def MaxSymbols_def Let_def)
  with racing_lookups_share_sequencer [OF this] show ?thesis by blast
qed

text \<open>
  C29: A restart restores book and reservations together. Creating a symbol's sequencer on the
  log an earlier run left behind succeeds, with the book the replay of the log and positions
  and identifiers resuming after it; the account store then holds exactly one reservation per
  resting order, for its owner, side, price and remaining quantity, no balance and no other
  symbol's reservation has changed, and the reserved totals are the sums of the reservations.
\<close>

theorem restart_restores_reservations:
  assumes "disk_log js (dir_of sys symb) segs tail" "gap_free segs n" "own_log (log_of segs)"
    "write_ok (dir_of sys symb)" "sync_ok (dir_of sys symb)" "reg_walDir r" "reg_accounts r"
    "wf_accounts (sys_accounts sys)" "\<And>i. map_of (holds (sys_accounts sys)) (symb, i) = None"
    "\<And>x. x \<in> set (a_buys (fold spec_mutate (map mutation_of (log_of segs)) (abs_book NewBook))) \<union>
        set (a_sells (fold spec_mutate (map mutation_of (log_of segs)) (abs_book NewBook))) \<Longrightarrow> was_reservable x"
  shows "\<exists>s sys'. newSequencer js now symb r sys = Some (sys', Inr s) \<and> live js s (dir_of sys' symb) (log_of segs) \<and>
    holds_book symb (s_book s) (sys_accounts sys') \<and> wf_accounts (sys_accounts sys') \<and>
    cash (sys_accounts sys') = cash (sys_accounts sys) \<and> positions (sys_accounts sys') = positions (sys_accounts sys) \<and>
    (\<forall>k. fst k \<noteq> symb \<longrightarrow> map_of (holds (sys_accounts sys')) k = map_of (holds (sys_accounts sys)) k)"
  using newSequencer_recovers [OF assms, of now] by blast

theorem restart_restores_reservations_witness:
  "\<exists>d s sys'. newSequencer demo_json demo_clock ''NABIL'' demo_registry (demo_system d) = Some (sys', Inr s) \<and>
    live demo_json s (dir_of sys' ''NABIL'') demo_log \<and> holds_book ''NABIL'' (s_book s) (sys_accounts sys')"
proof -
  obtain d segs where d: "disk_log demo_json d segs []" "gap_free segs 3" "log_of segs = demo_log" "write_ok d" "sync_ok d"
    by (rule demo_recovered)
  have dir: "dir_of (demo_system d) ''NABIL'' = d" by (simp add: dir_of_def demo_system_def)
  have acc: "sys_accounts (demo_system d) = demo_accounts" by (simp add: demo_system_def)
  have h: "holds demo_accounts = []" by code_simp
  let ?a = "fold spec_mutate (map mutation_of demo_log) (abs_book NewBook)"
  have "a_buys ?a = [] \<and> a_sells ?a = [limit_order 2 ''ram'' Sell 101 7]" by code_simp
  moreover have "was_reservable (limit_order 2 ''ram'' Sell 101 7)" by code_simp
  ultimately have x: "\<And>x. x \<in> set (a_buys ?a) \<union> set (a_sells ?a) \<Longrightarrow> was_reservable x" by auto
  have "\<exists>s sys'. newSequencer demo_json demo_clock ''NABIL'' demo_registry (demo_system d) = Some (sys', Inr s) \<and>
      live demo_json s (dir_of sys' ''NABIL'') (log_of segs) \<and> holds_book ''NABIL'' (s_book s) (sys_accounts sys')"
    using restart_restores_reservations [of demo_json "demo_system d" "''NABIL''" segs "[]" 3 demo_registry demo_clock]
      d x reachable_wf_accounts [OF demo_accounts_reachable] demo_log_own
    by (simp add: dir acc h demo_registry_def NewRegistry_def) blast
  then show ?thesis unfolding d(3) by blast
qed

end
