(* ===== verification/OMS_Ledger.thy ===== *)
theory OMS_Ledger
  imports OMS_Types "HOL-Library.Char_ord" "HOL-Library.List_Lexorder"
begin

text \<open>
  The settlement journal of \<open>internal/ledger/ledger.go\<close> with the table, constraints and unique
  index that \<open>migrations/0001_journal.sql\<close> creates: posting the four legs of a trade, reading
  balances back, the imbalance check and the migration runner.

  The table is the list of its rows; a statement either fails without effect or does what its
  SQL text says. Whether the server answers a statement is a parameter, the record \<open>Postgres\<close>;
  a commit may fail after it was carried out. Sums are exact: \<open>SUM\<close> over BIGINT is NUMERIC, and
  reading a result that does not fit 64 bits is an error.
\<close>

section \<open>The journal\<close>

definition AssetCash :: string where
  "AssetCash = ''CASH''"

definition AssetPosition :: string where
  "AssetPosition = ''POSITION''"

definition DirectionDebit :: string where
  "DirectionDebit = ''DEBIT''"

definition DirectionCredit :: string where
  "DirectionCredit = ''CREDIT''"

record journal_entry =
  je_symbol :: string
  je_trade_id :: int
  je_account :: string
  je_asset :: string
  je_direction :: string
  je_amount :: int

type_synonym journal = "journal_entry list"

text \<open>The columns of the unique index.\<close>

definition leg_key :: "journal_entry \<Rightarrow> string \<times> int \<times> string \<times> string \<times> string" where
  "leg_key e = (je_symbol e, je_trade_id e, je_account e, je_asset e, je_direction e)"

definition entry_check :: "journal_entry \<Rightarrow> bool" where
  "entry_check e \<longleftrightarrow> je_asset e \<in> {AssetCash, AssetPosition} \<and> je_direction e \<in> {DirectionDebit, DirectionCredit} \<and>
     je_amount e > 0"

text \<open>\<open>INSERT ... ON CONFLICT DO NOTHING\<close>; \<open>None\<close> is a violated CHECK.\<close>

definition insertEntry :: "journal_entry \<Rightarrow> journal \<Rightarrow> journal option" where
  "insertEntry e J =
     (if \<not> entry_check e then None
      else if leg_key e \<in> leg_key ` set J then Some J
      else Some (J @ [e]))"

section \<open>Settling\<close>

datatype commit_outcome = Committed | NotCommitted | CommittedButLost

record Postgres =
  pg_begin :: bool
  pg_exec :: "nat \<Rightarrow> bool"
  pg_close :: bool
  pg_commit :: commit_outcome
  pg_query :: bool

datatype LedgerErr =
    LedgerUnavailable
  | LedgerNegative
  | LedgerOverflow
  | LedgerNoParty
  | LedgerEntry nat
  | LedgerCommit
  | LedgerScan
  | LedgerMigration string

definition tradeValue :: "Trade \<Rightarrow> LedgerErr + int" where
  "tradeValue t =
     (if t_Price t < 0 \<or> t_Quantity t < 0 then Inl LedgerNegative
      else
        let value = mul64 (t_Price t) (t_Quantity t)
        in if t_Quantity t \<noteq> 0 \<and> quot64 value (t_Quantity t) \<noteq> t_Price t then Inl LedgerOverflow
           else Inr value)"

definition queueEntry ::
  "journal_entry list \<Rightarrow> Trade \<Rightarrow> string \<Rightarrow> string \<Rightarrow> string \<Rightarrow> int \<Rightarrow> journal_entry list" where
  "queueEntry batch t account asset direction amount =
     batch @ [\<lparr>je_symbol = t_Symbol t, je_trade_id = t_SeqID t, je_account = account, je_asset = asset,
       je_direction = direction, je_amount = amount\<rparr>]"

text \<open>The first loop of \<open>Settle\<close>: the four legs of every trade, or the first trade that is refused.\<close>

fun queue_trades :: "Trade list \<Rightarrow> journal_entry list \<Rightarrow> LedgerErr + journal_entry list" where
  "queue_trades [] batch = Inr batch"
| "queue_trades (t # ts) batch = (case tradeValue t of
     Inl e \<Rightarrow> Inl e
   | Inr v \<Rightarrow>
       if Buyer t = [] \<or> Seller t = [] then Inl LedgerNoParty
       else
         let b1 = queueEntry batch t (Buyer t) AssetPosition DirectionDebit (t_Quantity t);
             b2 = queueEntry b1 t (Buyer t) AssetCash DirectionCredit v;
             b3 = queueEntry b2 t (Seller t) AssetCash DirectionDebit v;
             b4 = queueEntry b3 t (Seller t) AssetPosition DirectionCredit (t_Quantity t)
         in queue_trades ts b4)"

text \<open>The second loop: the queued inserts inside the transaction, numbered from \<open>i\<close>.\<close>

fun exec_batch :: "Postgres \<Rightarrow> nat \<Rightarrow> journal_entry list \<Rightarrow> journal \<Rightarrow> LedgerErr + journal" where
  "exec_batch pg i [] J = Inr J"
| "exec_batch pg i (e # es) J =
     (if \<not> pg_exec pg i then Inl (LedgerEntry i)
      else (case insertEntry e J of
              None \<Rightarrow> Inl (LedgerEntry i)
            | Some J' \<Rightarrow> exec_batch pg (Suc i) es J'))"

text \<open>An early return rolls the transaction back.\<close>

definition Settle :: "Postgres \<Rightarrow> Trade list \<Rightarrow> journal \<Rightarrow> journal \<times> LedgerErr option" where
  "Settle pg trades J =
     (if trades = [] then (J, None)
      else if \<not> pg_begin pg then (J, Some LedgerUnavailable)
      else (case queue_trades trades [] of
         Inl e \<Rightarrow> (J, Some e)
       | Inr batch \<Rightarrow> (case exec_batch pg 0 batch J of
            Inl e \<Rightarrow> (J, Some e)
          | Inr J' \<Rightarrow>
              if \<not> pg_close pg then (J, Some LedgerUnavailable)
              else (case pg_commit pg of
                      Committed \<Rightarrow> (J', None)
                    | NotCommitted \<Rightarrow> (J, Some LedgerCommit)
                    | CommittedButLost \<Rightarrow> (J', Some LedgerCommit)))))"

section \<open>Reading back\<close>

definition sum_direction :: "string \<Rightarrow> journal \<Rightarrow> int" where
  "sum_direction d J = sum_list (map je_amount (filter (\<lambda>e. je_direction e = d) J))"

definition net :: "journal \<Rightarrow> int" where
  "net J = sum_direction DirectionDebit J - sum_direction DirectionCredit J"

definition scan_int64 :: "int \<Rightarrow> LedgerErr + int" where
  "scan_int64 n = (if is_i64 n then Inr n else Inl LedgerScan)"

definition Balance :: "Postgres \<Rightarrow> journal \<Rightarrow> string \<Rightarrow> LedgerErr + int" where
  "Balance pg J account =
     (if \<not> pg_query pg then Inl LedgerUnavailable
      else scan_int64 (net (filter (\<lambda>e. je_account e = account \<and> je_asset e = AssetCash) J)))"

definition Ledger_Position :: "Postgres \<Rightarrow> journal \<Rightarrow> string \<Rightarrow> string \<Rightarrow> LedgerErr + int" where
  "Ledger_Position pg J account symbol =
     (if \<not> pg_query pg then Inl LedgerUnavailable
      else scan_int64 (net (filter (\<lambda>e. je_account e = account \<and> je_asset e = AssetPosition \<and> je_symbol e = symbol) J)))"

text \<open>\<open>GROUP BY account_id, asset, symbol\<close>: one row per group, with its net.\<close>

definition group_key :: "journal_entry \<Rightarrow> string \<times> string \<times> string" where
  "group_key e = (je_account e, je_asset e, je_symbol e)"

definition balance_rows :: "journal \<Rightarrow> ((string \<times> string \<times> string) \<times> int) list" where
  "balance_rows J = map (\<lambda>k. (k, net (filter (\<lambda>e. group_key e = k) J))) (remdups (map group_key J))"

fun fold_rows ::
  "((string \<times> string \<times> string) \<times> int) list \<Rightarrow> (string, int) gomap \<Rightarrow> (string, (string, int) gomap) gomap
     \<Rightarrow> LedgerErr + ((string, int) gomap \<times> (string, (string, int) gomap) gomap)" where
  "fold_rows [] cash positions = Inr (cash, positions)"
| "fold_rows (((account, asset, symbol), n) # rows) cash positions =
     (if \<not> is_i64 n then Inl LedgerScan
      else if asset = AssetCash then
        fold_rows rows (gput account (add64 (gget0 cash account) n) cash) positions
      else if asset = AssetPosition then
        let i = (case map_of positions account of None \<Rightarrow> [] | Some i \<Rightarrow> i)
        in fold_rows rows cash (gput account (gput symbol (add64 (gget0 i symbol) n) i) positions)
      else fold_rows rows cash positions)"

definition Balances ::
  "Postgres \<Rightarrow> journal \<Rightarrow> LedgerErr + ((string, int) gomap \<times> (string, (string, int) gomap) gomap)" where
  "Balances pg J = (if \<not> pg_query pg then Inl LedgerUnavailable else fold_rows (balance_rows J) [] [])"

definition EntryCount :: "Postgres \<Rightarrow> journal \<Rightarrow> string \<Rightarrow> SeqID \<Rightarrow> LedgerErr + nat" where
  "EntryCount pg J symbol tradeID =
     (if \<not> pg_query pg then Inl LedgerUnavailable
      else Inr (length (filter (\<lambda>e. je_symbol e = symbol \<and> je_trade_id e = tradeID) J)))"

definition trade_asset :: "journal_entry \<Rightarrow> string \<times> int \<times> string" where
  "trade_asset e = (je_symbol e, je_trade_id e, je_asset e)"

definition Imbalance :: "Postgres \<Rightarrow> journal \<Rightarrow> LedgerErr + nat" where
  "Imbalance pg J =
     (if \<not> pg_query pg then Inl LedgerUnavailable
      else Inr (length (filter (\<lambda>k. net (filter (\<lambda>e. trade_asset e = k) J) \<noteq> 0) (remdups (map trade_asset J)))))"

section \<open>Migrations\<close>

text \<open>
  The embedded files (names and bodies), and the database as migrations see it: the names
  recorded in \<open>schema_migrations\<close> and the bodies executed so far. \<open>mig_ok\<close> says which bodies the
  server accepts. A migration and its record commit together or not at all.
\<close>

record Schema =
  sc_applied :: "string list"
  sc_executed :: "string list"

definition has_sql_suffix :: "string \<Rightarrow> bool" where
  "has_sql_suffix s \<longleftrightarrow> length ''.sql'' \<le> length s \<and> drop (length s - length ''.sql'') s = ''.sql''"

definition migrationNames :: "(string, string) gomap \<Rightarrow> string list" where
  "migrationNames fs = sort (filter has_sql_suffix (map fst fs))"

definition applyMigration ::
  "Postgres \<Rightarrow> (string \<Rightarrow> bool) \<Rightarrow> (string, string) gomap \<Rightarrow> string \<Rightarrow> Schema \<Rightarrow> Schema \<times> LedgerErr option" where
  "applyMigration pg mig_ok fs name sc = (case map_of fs name of
     None \<Rightarrow> (sc, Some (LedgerMigration name))
   | Some body \<Rightarrow>
       if \<not> pg_begin pg then (sc, Some (LedgerMigration name))
       else if name \<in> set (sc_applied sc) then (sc, None)
       else if \<not> mig_ok body then (sc, Some (LedgerMigration name))
       else
         let sc' = sc\<lparr>sc_applied := sc_applied sc @ [name], sc_executed := sc_executed sc @ [body]\<rparr>
         in (case pg_commit pg of
               Committed \<Rightarrow> (sc', None)
             | NotCommitted \<Rightarrow> (sc, Some (LedgerMigration name))
             | CommittedButLost \<Rightarrow> (sc', Some (LedgerMigration name))))"

fun apply_all ::
  "Postgres \<Rightarrow> (string \<Rightarrow> bool) \<Rightarrow> (string, string) gomap \<Rightarrow> string list \<Rightarrow> Schema \<Rightarrow> Schema \<times> LedgerErr option" where
  "apply_all pg mig_ok fs [] sc = (sc, None)"
| "apply_all pg mig_ok fs (name # names) sc = (case applyMigration pg mig_ok fs name sc of
     (sc', Some e) \<Rightarrow> (sc', Some e)
   | (sc', None) \<Rightarrow> apply_all pg mig_ok fs names sc')"

definition Migrate ::
  "Postgres \<Rightarrow> (string \<Rightarrow> bool) \<Rightarrow> (string, string) gomap \<Rightarrow> Schema \<Rightarrow> Schema \<times> LedgerErr option" where
  "Migrate pg mig_ok fs sc =
     (if \<not> pg_query pg then (sc, Some LedgerUnavailable) else apply_all pg mig_ok fs (migrationNames fs) sc)"

end
