(* ===== verification/OMS_Ledger_Props.thy ===== *)
theory OMS_Ledger_Props
  imports OMS_Ledger OMS_Accounts_Props
begin

text \<open>
  The promises of the journal: the value of a trade is exact or refused, settling is atomic and
  idempotent, every settled history balances, the journal's balances are what the in-memory
  store moved, and a migration runs at most once.
\<close>

section \<open>The value of a trade\<close>

lemma quot64_pos:
  assumes "0 < q" "is_i64 v"
  shows "quot64 v q = (if 0 \<le> v then v div q else - (- v div q))"
proof -
  have le: "\<bar>v\<bar> div q \<le> \<bar>v\<bar>" "0 \<le> \<bar>v\<bar> div q"
    using assms(1) zdiv_mono2 [of "\<bar>v\<bar>" 1 q] by (simp_all add: pos_imp_zdiv_nonneg_iff)
  consider "v = 0" | "0 < v" | "v < 0" by linarith
  then show ?thesis
  proof cases
    case 2
    then show ?thesis using le assms by (simp add: quot64_def is_i64_def)
  next
    case 3
    then have "is_i64 (- (- v div q))" using le assms(2) by (simp add: is_i64_def)
    with 3 assms show ?thesis by (simp add: quot64_def)
  qed (simp add: quot64_def)
qed

lemma tradeValue_exact:
  assumes "is_i64 (t_Price t)" "is_i64 (t_Quantity t)"
  shows "tradeValue t = (if t_Price t < 0 \<or> t_Quantity t < 0 then Inl LedgerNegative
    else if t_Price t * t_Quantity t \<le> max_i64 then Inr (t_Price t * t_Quantity t) else Inl LedgerOverflow)"
proof (cases "t_Price t < 0 \<or> t_Quantity t \<le> 0")
  case True
  then show ?thesis using assms by (auto simp: tradeValue_def mul64_def max_i64_def)
next
  case False
  let ?p = "t_Price t" and ?q = "t_Quantity t"
  have pq: "0 \<le> ?p" "0 < ?q" "0 \<le> ?p * ?q" using False by auto
  show ?thesis
  proof (cases "?p * ?q \<le> max_i64")
    case True
    then have "mul64 ?p ?q = ?p * ?q" using pq by (simp add: mul64_def is_i64_product)
    moreover have "quot64 (?p * ?q) ?q = ?p" using pq assms(1) by (cases "?p = 0") (simp_all add: quot64_def sgn_mult)
    ultimately show ?thesis using pq True by (simp add: tradeValue_def)
  next
    case over: False
    have "mul64 ?p ?q \<le> max_i64" using is_i64_ops(3) [of ?p ?q] by (simp add: is_i64_def max_i64_def)
    with over have v: "mul64 ?p ?q < ?p * ?q" by linarith
    have "quot64 (mul64 ?p ?q) ?q \<noteq> ?p"
    proof
      assume e: "quot64 (mul64 ?p ?q) ?q = ?p"
      show False
      proof (cases "0 \<le> mul64 ?p ?q")
        case True
        then have "mul64 ?p ?q div ?q = ?p" using e pq by (simp add: quot64_pos)
        then have "?p * ?q \<le> mul64 ?p ?q" using int_le_div_iff [OF pq(2), of ?p "mul64 ?p ?q"] by simp
        with v show False by simp
      next
        case neg: False
        then have "0 \<le> - mul64 ?p ?q div ?q" using pq by (simp add: pos_imp_zdiv_nonneg_iff)
        then have "?p \<le> 0" using e pq neg by (simp add: quot64_pos)
        with pq over show False by (simp add: max_i64_def)
      qed
    qed
    with pq over show ?thesis by (simp add: tradeValue_def Let_def)
  qed
qed

lemma tradeValue_Inr:
  assumes "tradeValue t = Inr v" "is_i64 (t_Price t)" "is_i64 (t_Quantity t)"
  shows "v = t_Price t * t_Quantity t" "notional (t_Price t) (t_Quantity t) = Inr v"
  using assms notional_exact [OF assms(2,3)] by (auto simp: tradeValue_exact split: if_splits)

section \<open>The legs of a trade\<close>

definition trade_legs :: "Trade \<Rightarrow> journal_entry list" where
  "trade_legs t =
     (let e = (\<lambda>account asset direction amount. \<lparr>je_symbol = t_Symbol t, je_trade_id = t_SeqID t, je_account = account,
           je_asset = asset, je_direction = direction, je_amount = amount\<rparr>);
          v = mul64 (t_Price t) (t_Quantity t)
      in [e (Buyer t) AssetPosition DirectionDebit (t_Quantity t), e (Buyer t) AssetCash DirectionCredit v,
          e (Seller t) AssetCash DirectionDebit v, e (Seller t) AssetPosition DirectionCredit (t_Quantity t)])"

definition all_legs :: "Trade list \<Rightarrow> journal_entry list" where
  "all_legs ts = concat (map trade_legs ts)"

lemma queue_trades_legs:
  "queue_trades ts batch = Inr b \<Longrightarrow> b = batch @ all_legs ts"
proof (induction ts arbitrary: batch)
  case (Cons t ts)
  have v: "tradeValue t = Inr v \<Longrightarrow> v = mul64 (t_Price t) (t_Quantity t)" for v
    by (auto simp: tradeValue_def Let_def split: if_splits)
  from Cons.prems show ?case
    by (auto simp: all_legs_def trade_legs_def queueEntry_def Let_def dest!: Cons.IH v split: sum.splits if_splits)
qed (simp add: all_legs_def)

lemma queue_trades_subset:
  assumes "queue_trades ts b = Inr b'" "set us \<subseteq> set ts"
  shows "\<exists>c. queue_trades us d = Inr c"
proof -
  have ok: "queue_trades ts b = Inr b' \<Longrightarrow> t \<in> set ts \<Longrightarrow> (\<exists>v. tradeValue t = Inr v) \<and> Buyer t \<noteq> [] \<and> Seller t \<noteq> []" for t
    by (induction ts arbitrary: b) (auto simp: Let_def split: sum.splits if_splits)
  have "(\<And>t. t \<in> set us \<Longrightarrow> (\<exists>v. tradeValue t = Inr v) \<and> Buyer t \<noteq> [] \<and> Seller t \<noteq> []) \<Longrightarrow> \<exists>c. queue_trades us d = Inr c"
  proof (induction us arbitrary: d)
    case (Cons u us)
    from Cons.prems [of u] obtain v where "tradeValue u = Inr v" "Buyer u \<noteq> []" "Seller u \<noteq> []" by auto
    with Cons show ?case by (simp add: Let_def)
  qed simp
  with ok [OF assms(1)] assms(2) show ?thesis by blast
qed

section \<open>Inserting legs\<close>

definition add_leg :: "journal_entry \<Rightarrow> journal \<Rightarrow> journal" where
  "add_leg e J = (if leg_key e \<in> leg_key ` set J then J else J @ [e])"

lemma exec_batch_Inr:
  "exec_batch pg i es J = Inr J' \<longleftrightarrow>
     J' = fold add_leg es J \<and> (\<forall>e \<in> set es. entry_check e) \<and> (\<forall>k < length es. pg_exec pg (i + k))"
proof (induction es arbitrary: i J)
  case (Cons e es)
  have "(\<forall>k < length (e # es). pg_exec pg (i + k)) \<longleftrightarrow> pg_exec pg i \<and> (\<forall>k < length es. pg_exec pg (Suc i + k))"
    by (auto simp: less_Suc_eq_0_disj)
  with Cons show ?case by (auto simp: insertEntry_def add_leg_def split: option.splits)
qed auto

lemma keys_fold_add_leg: "leg_key ` set (fold add_leg es J) = leg_key ` set J \<union> leg_key ` set es"
proof (induction es arbitrary: J)
  case (Cons e es)
  then show ?case by (auto simp: add_leg_def)
qed simp

lemma fold_add_leg_present: "leg_key ` set es \<subseteq> leg_key ` set J \<Longrightarrow> fold add_leg es J = J"
  by (induction es) (auto simp: add_leg_def)

lemma fold_add_leg_set:
  assumes "inj_on leg_key (set J \<union> set es)" "distinct (map leg_key J)"
  shows "set (fold add_leg es J) = set J \<union> set es \<and> distinct (map leg_key (fold add_leg es J))"
  using assms
proof (induction es arbitrary: J)
  case (Cons e es)
  show ?case
  proof (cases "leg_key e \<in> leg_key ` set J")
    case True
    then obtain e' where "e' \<in> set J" "leg_key e' = leg_key e" by auto
    then have "e \<in> set J" using inj_onD [OF Cons.prems(1), of e' e] by simp
    then have u: "set J \<union> set (e # es) = set J \<union> set es" by auto
    have "fold add_leg (e # es) J = fold add_leg es J" using True by (simp add: add_leg_def)
    with Cons.IH [OF Cons.prems(1) [unfolded u] Cons.prems(2)] u show ?thesis by (simp only:)
  next
    case False
    with Cons.IH [of "J @ [e]"] Cons.prems show ?thesis by (simp add: add_leg_def)
  qed
qed simp

lemma fold_add_leg_new:
  assumes "distinct (map leg_key (J @ es))"
  shows "fold add_leg es J = J @ es"
  using assms
proof (induction es arbitrary: J)
  case (Cons e es)
  have "leg_key e \<notin> leg_key ` set J" using Cons.prems by auto
  with Cons.IH [of "J @ [e]"] Cons.prems show ?case by (simp add: add_leg_def)
qed simp

text \<open>What a settlement leaves: nothing, or every leg.\<close>

lemma Settle_cases:
  assumes "Settle pg ts J = (J', e)"
  shows "J' = J \<and> (e = None \<longrightarrow> ts = []) \<or>
    J' = fold add_leg (all_legs ts) J \<and> (\<forall>l \<in> set (all_legs ts). entry_check l) \<and> (\<exists>b. queue_trades ts [] = Inr b)"
  using assms
  by (auto simp: Settle_def exec_batch_Inr dest!: queue_trades_legs split: if_splits sum.splits commit_outcome.splits)

definition pg_healthy :: "Postgres \<Rightarrow> bool" where
  "pg_healthy pg \<longleftrightarrow> pg_begin pg \<and> (\<forall>i. pg_exec pg i) \<and> pg_close pg \<and> pg_commit pg = Committed"

lemma set_all_legs: "set (all_legs ts) = (\<Union>t \<in> set ts. set (trade_legs t))"
  by (simp add: all_legs_def)

section \<open>The contract of settlement\<close>

text \<open>
  What the order service relies on (interface \<open>Ledger\<close> of \<open>server.go\<close>): an attempt posts every leg of
  its batch or changes nothing, a success means that it posted, a working database accepts what
  can be posted, and what is posted already is left alone.
\<close>

locale settlement =
  fixes settle :: "'pg \<Rightarrow> Trade list \<Rightarrow> 'j \<Rightarrow> 'j \<times> 'e option"
    and posted :: "'j \<Rightarrow> 'k set" and legs :: "Trade list \<Rightarrow> 'k set"
    and postable :: "Trade list \<Rightarrow> bool" and healthy :: "'pg \<Rightarrow> bool"
  assumes attempt: "settle pg ts j = (j', e) \<Longrightarrow> j' = j \<or> postable ts \<and> posted j' = posted j \<union> legs ts"
    and success: "settle pg ts j = (j', None) \<Longrightarrow> postable ts \<and> posted j' = posted j \<union> legs ts"
    and progress: "healthy pg \<Longrightarrow> postable ts \<Longrightarrow> snd (settle pg ts j) = None"
    and present: "legs ts \<subseteq> posted j \<Longrightarrow> fst (settle pg ts j) = j"
    and parts: "set us \<subseteq> set ts \<Longrightarrow> legs us \<subseteq> legs ts \<and> (postable ts \<longrightarrow> postable us)"
begin

lemma changed: "settle pg ts j = (j', e) \<Longrightarrow> j' \<noteq> j \<or> e = None \<Longrightarrow> postable ts \<and> posted j' = posted j \<union> legs ts"
  using attempt success by blast

lemma again:
  assumes "settle pg ts j = (j', e)" "j' \<noteq> j \<or> e = None" "set us \<subseteq> set ts"
  shows "fst (settle pg' us j') = j' \<and> (healthy pg' \<longrightarrow> settle pg' us j' = (j', None))"
proof -
  have "postable us" "legs us \<subseteq> posted j'" using changed [OF assms(1,2)] parts [OF assms(3)] by auto
  then show ?thesis using present [of us j' pg'] progress [of pg' us j'] by (auto simp: prod_eq_iff)
qed

text \<open>A history of attempts: each meets the database in a state of its own.\<close>

lemma history:
  "\<exists>S \<subseteq> set (map snd xs). (\<forall>ts \<in> S. postable ts) \<and>
     posted (fold (\<lambda>(pg, ts) j. fst (settle pg ts j)) xs j) = posted j \<union> (\<Union>ts \<in> S. legs ts) \<and>
     (\<forall>(pg, ts) \<in> set xs. healthy pg \<and> postable ts \<longrightarrow> ts \<in> S)"
proof (induction xs arbitrary: j)
  case (Cons x xs)
  obtain pg ts where x: "x = (pg, ts)" by (cases x)
  obtain j' e where se: "settle pg ts j = (j', e)" by (cases "settle pg ts j")
  obtain S where S: "S \<subseteq> set (map snd xs)" "\<forall>ts \<in> S. postable ts"
    "posted (fold (\<lambda>(pg, ts) j. fst (settle pg ts j)) xs j') = posted j' \<union> (\<Union>ts \<in> S. legs ts)"
    "\<forall>(pg, ts) \<in> set xs. healthy pg \<and> postable ts \<longrightarrow> ts \<in> S"
    using Cons.IH [of j'] by blast
  show ?case
  proof (cases "j' \<noteq> j \<or> e = None")
    case True
    from changed [OF se True] S show ?thesis by (intro exI [of _ "insert ts S"]) (auto simp: x se)
  next
    case False
    moreover have "\<not> (healthy pg \<and> postable ts)" using False progress [of pg ts j] se by auto
    ultimately show ?thesis using S by (intro exI [of _ S]) (auto simp: x se)
  qed
qed (intro exI [of _ "{}"], simp)

end

definition postable :: "Trade list \<Rightarrow> bool" where
  "postable ts \<longleftrightarrow> (\<exists>b. queue_trades ts [] = Inr b) \<and> (\<forall>l \<in> set (all_legs ts). entry_check l)"

lemma Settle_healthy:
  assumes "pg_healthy pg" "postable ts"
  shows "snd (Settle pg ts J) = None"
proof -
  obtain b where b: "queue_trades ts [] = Inr b" using assms(2) by (auto simp: postable_def)
  then have "b = all_legs ts" using queue_trades_legs [OF b] by simp
  with b assms have "exec_batch pg 0 b J = Inr (fold add_leg b J)" by (auto simp: exec_batch_Inr pg_healthy_def postable_def)
  with b assms(1) show ?thesis by (simp add: Settle_def pg_healthy_def)
qed

interpretation journal: settlement Settle "\<lambda>J. leg_key ` set J" "\<lambda>ts. leg_key ` set (all_legs ts)" postable pg_healthy
proof unfold_locales
  fix pg ts J J' e assume s: "Settle pg ts J = (J', e)"
  show "J' = J \<or> postable ts \<and> leg_key ` set J' = leg_key ` set J \<union> leg_key ` set (all_legs ts)"
    using Settle_cases [OF s] keys_fold_add_leg [of "all_legs ts" J] by (auto simp: postable_def)
next
  fix pg ts J J' assume s: "Settle pg ts J = (J', None)"
  show "postable ts \<and> leg_key ` set J' = leg_key ` set J \<union> leg_key ` set (all_legs ts)"
    using Settle_cases [OF s] keys_fold_add_leg [of "all_legs ts" J] by (auto simp: postable_def all_legs_def)
next
  fix ts J pg assume p: "leg_key ` set (all_legs ts) \<subseteq> leg_key ` set J"
  show "fst (Settle pg ts J) = J"
    using Settle_cases [of pg ts J] fold_add_leg_present [OF p] by (metis prod.collapse)
next
  fix us ts :: "Trade list" assume s: "set us \<subseteq> set ts"
  then have "set (all_legs us) \<subseteq> set (all_legs ts)" by (auto simp: set_all_legs)
  then show "leg_key ` set (all_legs us) \<subseteq> leg_key ` set (all_legs ts) \<and> (postable ts \<longrightarrow> postable us)"
    using queue_trades_subset s unfolding postable_def by blast
qed (rule Settle_healthy)

section \<open>Histories of a journal\<close>

text \<open>
  Every attempt to settle, successful or not, in any order and any number of times, over the
  trades of a venue. A trade is identified by its symbol and number; replaying it gives the same
  trade up to its time stamp.
\<close>

inductive reachable_journal :: "Trade set \<Rightarrow> journal \<Rightarrow> bool" for T where
  empty: "reachable_journal T []"
| settle: "reachable_journal T J \<Longrightarrow> set ts \<subseteq> T \<Longrightarrow> reachable_journal T (fst (Settle pg ts J))"

definition identified :: "Trade set \<Rightarrow> bool" where
  "identified T \<longleftrightarrow> (\<forall>t \<in> T. \<forall>u \<in> T. t_Symbol t = t_Symbol u \<and> t_SeqID t = t_SeqID u \<longrightarrow> trade_legs t = trade_legs u)"

lemma identifiedD:
  "identified T \<Longrightarrow> t \<in> T \<Longrightarrow> u \<in> T \<Longrightarrow> t_Symbol t = t_Symbol u \<Longrightarrow> t_SeqID t = t_SeqID u \<Longrightarrow> trade_legs t = trade_legs u"
  unfolding identified_def by blast

definition legs_of :: "Trade set \<Rightarrow> journal_entry set" where
  "legs_of T = (\<Union>t \<in> T. set (trade_legs t))"

lemmas asset_direction_defs = AssetCash_def AssetPosition_def DirectionDebit_def DirectionCredit_def

lemma trade_legs_key: "e \<in> set (trade_legs t) \<Longrightarrow> je_symbol e = t_Symbol t \<and> je_trade_id e = t_SeqID t"
  by (auto simp: trade_legs_def Let_def)

lemma trade_legs_inj: "e \<in> set (trade_legs t) \<Longrightarrow> e' \<in> set (trade_legs t) \<Longrightarrow> leg_key e = leg_key e' \<Longrightarrow> e = e'"
  by (auto simp: trade_legs_def Let_def leg_key_def asset_direction_defs)

lemma inj_legs_of:
  assumes "identified T"
  shows "inj_on leg_key (legs_of T)"
proof (rule inj_onI)
  fix e e' assume e: "e \<in> legs_of T" "e' \<in> legs_of T" "leg_key e = leg_key e'"
  obtain t t' where t: "t \<in> T" "e \<in> set (trade_legs t)" "t' \<in> T" "e' \<in> set (trade_legs t')"
    using e(1,2) by (auto simp: legs_of_def)
  have "t_Symbol t = t_Symbol t' \<and> t_SeqID t = t_SeqID t'"
    using trade_legs_key [OF t(2)] trade_legs_key [OF t(4)] e(3) by (simp add: leg_key_def)
  then have l: "trade_legs t' = trade_legs t" using assms t(1,3) by (metis identifiedD)
  show "e = e'" by (rule trade_legs_inj [OF t(2) t(4) [unfolded l] e(3)])
qed

lemma reachable_whole_trades:
  assumes "reachable_journal T J" "identified T"
  shows "\<exists>S \<subseteq> T. set J = legs_of S \<and> distinct (map leg_key J) \<and> (\<forall>e \<in> set J. entry_check e)"
  using assms(1)
proof (induction rule: reachable_journal.induct)
  case empty
  show ?case by (intro exI [of _ "{}"]) (simp add: legs_of_def)
next
  case (settle J ts pg)
  then obtain S where S: "S \<subseteq> T" "set J = legs_of S" "distinct (map leg_key J)" "\<forall>e \<in> set J. entry_check e" by auto
  from Settle_cases [of pg ts J "fst (Settle pg ts J)" "snd (Settle pg ts J)"]
  consider "fst (Settle pg ts J) = J"
    | "fst (Settle pg ts J) = fold add_leg (all_legs ts) J" "\<forall>l \<in> set (all_legs ts). entry_check l" by auto
  then show ?case
  proof cases
    case 2
    have u: "set J \<union> set (all_legs ts) = legs_of (S \<union> set ts)" by (auto simp: S(2) legs_of_def set_all_legs)
    have "legs_of (S \<union> set ts) \<subseteq> legs_of T" using S(1) settle.hyps(2) by (auto simp: legs_of_def)
    then have "inj_on leg_key (set J \<union> set (all_legs ts))" unfolding u by (rule inj_on_subset [OF inj_legs_of [OF assms(2)]])
    from fold_add_leg_set [OF this S(3)] S(1,4) settle.hyps(2) 2 u show ?thesis
      by (intro exI [of _ "S \<union> set ts"]) auto
  qed (use S in auto)
qed

section \<open>Balance\<close>

lemma sum_direction_set:
  assumes "distinct J"
  shows "sum_direction d J = (\<Sum>e \<in> {e \<in> set J. je_direction e = d}. je_amount e)"
  using assms by (simp add: sum_direction_def sum_list_distinct_conv_sum_set)

lemma trade_group:
  assumes T: "identified T" "S \<subseteq> T" "set J = legs_of S" and t: "t \<in> S" "k = (t_Symbol t, t_SeqID t, asset)"
  shows "{e \<in> set J. trade_asset e = k} = {e \<in> set (trade_legs t). je_asset e = asset}"
proof -
  have "e \<in> set (trade_legs t)" if "e \<in> legs_of S" "je_symbol e = t_Symbol t" "je_trade_id e = t_SeqID t" for e
  proof -
    from that(1) obtain u where u: "u \<in> S" "e \<in> set (trade_legs u)" by (auto simp: legs_of_def)
    have "trade_legs u = trade_legs t"
      by (rule identifiedD [OF T(1)]) (use T(2) t(1) u(1) trade_legs_key [OF u(2)] that(2,3) in auto)
    with u show ?thesis by simp
  qed
  moreover have "e \<in> legs_of S" if "e \<in> set (trade_legs t)" for e using that t(1) by (auto simp: legs_of_def)
  ultimately show ?thesis using T(3) t(2) trade_legs_key by (auto simp: trade_asset_def)
qed

lemma legs_balanced:
  assumes "asset \<in> {AssetCash, AssetPosition}" "d \<in> {DirectionDebit, DirectionCredit}"
  shows "(\<Sum>e \<in> {e \<in> {e \<in> set (trade_legs t). je_asset e = asset}. je_direction e = d}. je_amount e) =
    (if asset = AssetCash then mul64 (t_Price t) (t_Quantity t) else t_Quantity t)"
proof -
  have "filter (\<lambda>e. je_direction e = d) (filter (\<lambda>e. je_asset e = asset) (trade_legs t)) =
      [\<lparr>je_symbol = t_Symbol t, je_trade_id = t_SeqID t,
        je_account = (if (asset = AssetPosition) = (d = DirectionDebit) then Buyer t else Seller t), je_asset = asset,
        je_direction = d, je_amount = (if asset = AssetCash then mul64 (t_Price t) (t_Quantity t) else t_Quantity t)\<rparr>]"
    using assms by (auto simp: trade_legs_def Let_def asset_direction_defs)
  from arg_cong [OF this, of set] show ?thesis by simp
qed

lemma reachable_balanced:
  assumes "reachable_journal T J" "identified T" "k \<in> set (map trade_asset J)"
  shows "net (filter (\<lambda>e. trade_asset e = k) J) = 0"
proof -
  obtain S where S: "S \<subseteq> T" "set J = legs_of S" "distinct (map leg_key J)" "\<forall>e \<in> set J. entry_check e"
    using reachable_whole_trades [OF assms(1,2)] by blast
  obtain e t where e: "e \<in> set J" "trade_asset e = k" "t \<in> S" "e \<in> set (trade_legs t)"
    using assms(3) S(2) by (auto simp: legs_of_def)
  have k: "k = (t_Symbol t, t_SeqID t, je_asset e)" "je_asset e \<in> {AssetCash, AssetPosition}"
    using e trade_legs_key [OF e(4)] S(4) by (auto simp: trade_asset_def entry_check_def)
  have d: "distinct (filter (\<lambda>e. trade_asset e = k) J)" using S(3) by (simp add: distinct_map)
  have "set (filter (\<lambda>e. trade_asset e = k) J) = {x \<in> set (trade_legs t). je_asset x = je_asset e}"
    using trade_group [OF assms(2) S(1,2) e(3) k(1)] by auto
  then have "sum_direction D (filter (\<lambda>e. trade_asset e = k) J) =
      (if je_asset e = AssetCash then mul64 (t_Price t) (t_Quantity t) else t_Quantity t)"
    if "D \<in> {DirectionDebit, DirectionCredit}" for D
    unfolding sum_direction_set [OF d] using legs_balanced [OF k(2) that, of t] by simp
  then show ?thesis by (simp add: net_def)
qed

section \<open>The journal and the in-memory store\<close>

text \<open>What one trade does to the cash of an account, and to its shares.\<close>

definition cash_delta :: "string \<Rightarrow> Trade \<Rightarrow> int" where
  "cash_delta who t = (if Seller t = who then t_Price t * t_Quantity t else 0) -
     (if Buyer t = who then t_Price t * t_Quantity t else 0)"

lemma net_append [simp]: "net (J @ K) = net J + net K"
  by (simp add: net_def sum_direction_def)

lemma net_trade_cash:
  assumes "mul64 (t_Price t) (t_Quantity t) = t_Price t * t_Quantity t"
  shows "net (filter (\<lambda>e. je_account e = who \<and> je_asset e = AssetCash) (trade_legs t)) = cash_delta who t"
  using assms by (auto simp: trade_legs_def Let_def net_def sum_direction_def cash_delta_def asset_direction_defs)

lemma cash_complete_trade:
  assumes "wf_accounts a" "notional (t_Price t) (t_Quantity t) = Inr (t_Price t * t_Quantity t)"
  shows "i64 (Cash (complete_trade symb t a) who) = i64 (Cash a who + cash_delta who t)"
proof -
  let ?v = "t_Price t * t_Quantity t" and ?b = "move_value t (t_Price t * t_Quantity t) a"
  have w: "wf_accounts (shrinkTradedLocked symb (t_MakerSeqID t) (t_Quantity t) ?b)" using assms(1) by simp
  have "cash (complete_trade symb t a) = cash ?b"
    using assms shrinkTradedLocked_balances [OF w] shrinkTradedLocked_balances [of ?b] by (simp add: complete_trade_def)
  then have "Cash (complete_trade symb t a) who = gget0 (cash ?b) who" by (simp add: Cash_def)
  also have "\<dots> = (if who = Seller t then add64 (if who = Buyer t then sub64 (Cash a who) ?v else Cash a who) ?v
      else if who = Buyer t then sub64 (Cash a who) ?v else Cash a who)"
    by (auto simp: move_value_def Let_def Cash_def addPositionLocked_def)
  also have "i64 \<dots> = i64 (Cash a who + cash_delta who t)"
    by (auto simp: cash_delta_def add64_def sub64_def)
  finally show ?thesis .
qed

lemma wf_complete_trades: "wf_accounts a \<Longrightarrow> wf_accounts (fold (complete_trade symb) ts a)"
  by (induction ts arbitrary: a) auto

lemma journal_matches_cash:
  assumes "wf_accounts a" "queue_trades ts b = Inr b'"
    "\<And>t. t \<in> set ts \<Longrightarrow> is_i64 (t_Price t) \<and> is_i64 (t_Quantity t)"
  shows "i64 (Cash a who + net (filter (\<lambda>e. je_account e = who \<and> je_asset e = AssetCash) (all_legs ts))) =
    i64 (Cash (fold (complete_trade symb) ts a) who)"
  using assms
proof (induction ts arbitrary: a b)
  case (Cons t ts)
  let ?P = "\<lambda>e. je_account e = who \<and> je_asset e = AssetCash"
  obtain v c where v: "tradeValue t = Inr v" "queue_trades ts c = Inr b'"
    using Cons.prems(2) by (auto simp: Let_def split: sum.splits if_splits)
  note tv = tradeValue_Inr [OF v(1)]
  have n: "notional (t_Price t) (t_Quantity t) = Inr (t_Price t * t_Quantity t)" using tv Cons.prems(3) by simp
  have m: "mul64 (t_Price t) (t_Quantity t) = t_Price t * t_Quantity t"
    using v(1) tv(1) Cons.prems(3) by (auto simp: tradeValue_def Let_def split: if_splits)
  have IH: "i64 (Cash (complete_trade symb t a) who + net (filter ?P (all_legs ts))) =
      i64 (Cash (fold (complete_trade symb) ts (complete_trade symb t a)) who)"
    by (rule Cons.IH [OF _ v(2)]) (use Cons.prems in auto)
  have "i64 (Cash a who + cash_delta who t + net (filter ?P (all_legs ts))) =
      i64 (Cash (complete_trade symb t a) who + net (filter ?P (all_legs ts)))"
    using arg_cong [OF cash_complete_trade [OF Cons.prems(1) n, of symb who], of "\<lambda>z. i64 (z + net (filter ?P (all_legs ts)))"]
    by simp
  moreover have "net (filter ?P (all_legs (t # ts))) = cash_delta who t + net (filter ?P (all_legs ts))"
    using net_trade_cash [OF m, of who] by (simp add: all_legs_def)
  ultimately show ?case using IH by (simp add: add.assoc)
qed (simp add: all_legs_def net_def sum_direction_def)

section \<open>Migrations\<close>

lemma apply_all_once:
  assumes "apply_all pg ok fs names sc = (sc', e)" "distinct (sc_applied sc)" "distinct names"
  shows "\<exists>ns. sc_applied sc' = sc_applied sc @ ns \<and> sc_executed sc' = sc_executed sc @ map (\<lambda>n. the (map_of fs n)) ns \<and>
    distinct (sc_applied sc') \<and> set ns \<subseteq> set names \<and> (e = None \<longrightarrow> set names \<subseteq> set (sc_applied sc'))"
  using assms
proof (induction names arbitrary: sc)
  case (Cons n names)
  obtain sc1 e1 where 1: "applyMigration pg ok fs n sc = (sc1, e1)" by fastforce
  have step: "(sc1 = sc \<and> (e1 = None \<longrightarrow> n \<in> set (sc_applied sc))) \<or>
      (n \<notin> set (sc_applied sc) \<and> sc1 = sc\<lparr>sc_applied := sc_applied sc @ [n], sc_executed := sc_executed sc @ [the (map_of fs n)]\<rparr>)"
    using 1 by (auto simp: applyMigration_def Let_def split: option.splits if_splits commit_outcome.splits)
  show ?case
  proof (cases e1)
    case (Some err)
    with step 1 Cons.prems show ?thesis
      by (elim disjE) (auto intro!: exI [of _ "[n]"])
  next
    case None
    have "apply_all pg ok fs names sc1 = (sc', e)" using Cons.prems(1) 1 None by simp
    moreover have "distinct (sc_applied sc1)" using step Cons.prems(2) by auto
    ultimately obtain ns where ns: "sc_applied sc' = sc_applied sc1 @ ns"
      "sc_executed sc' = sc_executed sc1 @ map (\<lambda>n. the (map_of fs n)) ns" "distinct (sc_applied sc')" "set ns \<subseteq> set names"
      "e = None \<longrightarrow> set names \<subseteq> set (sc_applied sc')"
      using Cons.IH [of sc1] Cons.prems(3) by auto
    from step show ?thesis
    proof
      assume "sc1 = sc \<and> (e1 = None \<longrightarrow> n \<in> set (sc_applied sc))"
      with ns None show ?thesis by (intro exI [of _ ns]) auto
    next
      assume "n \<notin> set (sc_applied sc) \<and>
        sc1 = sc\<lparr>sc_applied := sc_applied sc @ [n], sc_executed := sc_executed sc @ [the (map_of fs n)]\<rparr>"
      with ns show ?thesis by (intro exI [of _ "n # ns"]) auto
    qed
  qed
qed auto

section \<open>A settlement to evaluate the properties on\<close>

definition demo_pg :: Postgres where
  "demo_pg = \<lparr>pg_begin = True, pg_exec = (\<lambda>_. True), pg_close = True, pg_commit = Committed, pg_query = True\<rparr>"

definition flaky_pg :: Postgres where
  "flaky_pg = demo_pg\<lparr>pg_commit := CommittedButLost\<rparr>"

definition demo_journal :: journal where
  "demo_journal = fst (Settle demo_pg [demo_trade] [])"

lemma demo_settled: "Settle demo_pg [demo_trade] [] = (demo_journal, None)"
  by code_simp

section \<open>Properties of the journal\<close>

text \<open>
  The journal computes the same trade values as the pre-trade check: for 64-bit prices and
  quantities both accept exactly the products that fit, with the same exact value, although
  one divides first and the other multiplies and divides back.
\<close>

lemma tradeValue_agrees_with_notional:
  assumes "is_i64 (t_Price t)" "is_i64 (t_Quantity t)"
  shows "(\<forall>v. tradeValue t = Inr v \<longleftrightarrow> notional (t_Price t) (t_Quantity t) = Inr v) \<and>
    (tradeValue t = Inl LedgerOverflow \<longleftrightarrow> notional (t_Price t) (t_Quantity t) = Inl ErrNotionalOverflow)"
  using tradeValue_exact [OF assms] notional_exact [OF assms] by auto

lemma tradeValue_agrees_with_notional_witness:
  "tradeValue (demo_trade\<lparr>t_Price := 2 ^ 62, t_Quantity := 4\<rparr>) = Inl LedgerOverflow"
  using tradeValue_agrees_with_notional [of "demo_trade\<lparr>t_Price := 2 ^ 62, t_Quantity := 4\<rparr>"]
    notional_exact [of "2 ^ 62" 4] by (simp add: is_i64_def max_i64_def)

text \<open>
  C11: Settling is all or nothing, and idempotent. Whatever the database does, an attempt leaves
  the journal as it was or with every leg of every trade of the batch; and once a batch is in,
  settling any of its trades again, in any order, changes nothing, and succeeds on a working
  database.
\<close>

theorem settle_atomic_and_idempotent:
  assumes "Settle pg ts J = (J', e)"
  shows "(J' = J \<or> leg_key ` set J' = leg_key ` set J \<union> leg_key ` set (all_legs ts)) \<and>
    (J' \<noteq> J \<or> e = None \<longrightarrow> set us \<subseteq> set ts \<longrightarrow>
       fst (Settle pg' us J') = J' \<and> (pg_healthy pg' \<longrightarrow> Settle pg' us J' = (J', None)))"
  using journal.attempt [OF assms] journal.again [OF assms] by blast

theorem settle_atomic_and_idempotent_witness:
  "Settle demo_pg [demo_trade] demo_journal = (demo_journal, None) \<and> length demo_journal = 4"
proof -
  have "length demo_journal = 4" by code_simp
  moreover have "pg_healthy demo_pg" by (simp add: pg_healthy_def demo_pg_def)
  ultimately show ?thesis using settle_atomic_and_idempotent [OF demo_settled, of "[demo_trade]" demo_pg] by simp
qed

text \<open>
  C24: Retrying settles, whatever happens in between. After any sequence of settlement attempts, each
  meeting the database in whatever state, the journal holds exactly the legs it had and those
  of whole batches that were attempted; and a batch that can be posted is among them as soon
  as one attempt at it met a working database.
\<close>

theorem retried_settlement_completes:
  "\<exists>S \<subseteq> set (map snd xs). (\<forall>ts \<in> S. postable ts) \<and>
     leg_key ` set (fold (\<lambda>(pg, ts) J. fst (Settle pg ts J)) xs J) = leg_key ` set J \<union> (\<Union>ts \<in> S. leg_key ` set (all_legs ts)) \<and>
     (\<forall>(pg, ts) \<in> set xs. pg_healthy pg \<and> postable ts \<longrightarrow> ts \<in> S)"
  by (rule journal.history)

theorem retried_settlement_completes_witness:
  "postable [demo_trade] \<and> length (all_legs [demo_trade]) = 4 \<and>
   leg_key ` set (all_legs [demo_trade]) \<subseteq> leg_key ` set (fold (\<lambda>(pg, ts) J. fst (Settle pg ts J)) [(flaky_pg, [demo_trade]), (demo_pg, [demo_trade])] [])"
proof -
  have "postable [demo_trade]" using journal.success [OF demo_settled] by blast
  moreover have "pg_healthy demo_pg" by (simp add: pg_healthy_def demo_pg_def)
  moreover have "length (all_legs [demo_trade]) = 4" by code_simp
  moreover obtain S where "[demo_trade] \<in> S"
    "leg_key ` set (fold (\<lambda>(pg, ts) J. fst (Settle pg ts J)) [(flaky_pg, [demo_trade]), (demo_pg, [demo_trade])] []) =
       leg_key ` set [] \<union> (\<Union>ts \<in> S. leg_key ` set (all_legs ts))"
    using retried_settlement_completes [of "[(flaky_pg, [demo_trade]), (demo_pg, [demo_trade])]" "[]"] calculation
    by (elim exE conjE) (rule that, auto)
  ultimately show ?thesis by (simp del: fold.simps) blast
qed

text \<open>
  C26: Every settled history balances. If a symbol and a trade number identify a trade, then after
  any sequence of settlement attempts, failed, repeated and reordered ones included, the
  imbalance check finds nothing: per trade and asset the debits equal the credits.
\<close>

theorem journal_always_balances:
  assumes "reachable_journal T J" "identified T" "pg_query pg"
  shows "Imbalance pg J = Inr 0"
proof -
  have "filter (\<lambda>k. net (filter (\<lambda>e. trade_asset e = k) J) \<noteq> 0) (remdups (map trade_asset J)) = []"
    using reachable_balanced [OF assms(1,2)] by (simp add: filter_empty_conv)
  with assms(3) show ?thesis by (simp add: Imbalance_def)
qed

theorem journal_always_balances_witness: "Imbalance demo_pg demo_journal = Inr 0"
proof -
  have "reachable_journal {demo_trade} demo_journal"
    unfolding demo_journal_def by (intro reachable_journal.intros) simp
  moreover have "identified {demo_trade}" by (simp add: identified_def)
  ultimately show ?thesis using journal_always_balances by (simp add: demo_pg_def)
qed

text \<open>
  C27: Journal and memory agree. For new trades settled into an empty journal, the cash balance
  the journal reports for an account is what completing the same trades changed in the
  in-memory store (as 64-bit sums), so rebuilding the store from the journal loses nothing.
\<close>

theorem journal_agrees_with_accounts:
  assumes "Settle pg ts [] = (J, None)" "distinct (map leg_key (all_legs ts))" "wf_accounts a"
    "\<And>t. t \<in> set ts \<Longrightarrow> is_i64 (t_Price t) \<and> is_i64 (t_Quantity t)" "Balance pg' J who = Inr n"
  shows "i64 (Cash (fold (complete_trade symb) ts a) who) = add64 (Cash a who) n"
proof -
  have n: "n = net (filter (\<lambda>e. je_account e = who \<and> je_asset e = AssetCash) J)"
    using assms(5) by (auto simp: Balance_def scan_int64_def split: if_splits)
  have J: "J = all_legs ts" "\<exists>b. queue_trades ts [] = Inr b"
    using Settle_cases [OF assms(1)] fold_add_leg_new [of "[]" "all_legs ts"] assms(2) by (auto simp: all_legs_def)
  then obtain b where "queue_trades ts [] = Inr b" by blast
  from journal_matches_cash [OF assms(3) this assms(4), of who symb] show ?thesis
    unfolding n J(1) add64_def by simp
qed

theorem journal_agrees_with_accounts_witness:
  "Cash (fold (complete_trade ''NABIL'') [demo_trade] demo_reserved) ''sita'' = add64 (Cash demo_reserved ''sita'') 500"
proof -
  have "distinct (map leg_key (all_legs [demo_trade]))" by code_simp
  moreover have "wf_accounts demo_reserved"
    using reachable_accounts.reserve [OF demo_accounts_reachable demo_orders_i64(1) demo_reserve] by (rule reachable_wf_accounts)
  moreover have "Balance demo_pg demo_journal ''sita'' = Inr 500" by code_simp
  moreover have "i64 (Cash (fold (complete_trade ''NABIL'') [demo_trade] demo_reserved) ''sita'') =
      Cash (fold (complete_trade ''NABIL'') [demo_trade] demo_reserved) ''sita''" by code_simp
  ultimately show ?thesis
    using journal_agrees_with_accounts [OF demo_settled, of demo_reserved demo_pg "''sita''" 500 "''NABIL''"]
    by (simp add: demo_trade_def is_i64_def)
qed

text \<open>
  A migration runs at most once, in file-name order. However often and under whatever
  failures the runner is started, no migration is recorded twice, the executed bodies are the
  recorded ones in order, and after a run without error every migration has been applied.
\<close>

lemma migrations_run_once:
  assumes "Migrate pg ok fs sc = (sc', e)" "distinct (map fst fs)" "distinct (sc_applied sc)"
    "sc_executed sc = map (\<lambda>n. the (map_of fs n)) (sc_applied sc)"
  shows "distinct (sc_applied sc') \<and> sc_executed sc' = map (\<lambda>n. the (map_of fs n)) (sc_applied sc') \<and>
    take (length (sc_applied sc)) (sc_applied sc') = sc_applied sc \<and>
    (e = None \<longrightarrow> set (migrationNames fs) \<subseteq> set (sc_applied sc'))"
proof -
  have "distinct (migrationNames fs)" using assms(2) by (simp add: migrationNames_def)
  from apply_all_once [OF _ assms(3) this, of pg ok fs] assms show ?thesis
    by (auto simp: Migrate_def split: if_splits)
qed

lemma migrations_run_once_witness:
  "let fs = [(''0002.sql'', ''b''), (''0001.sql'', ''a''), (''README'', ''x'')];
       sc' = fst (Migrate flaky_pg (\<lambda>_. True) fs \<lparr>sc_applied = [], sc_executed = []\<rparr>)
   in sc_applied sc' = [''0001.sql''] \<and> sc_executed sc' = [''a'']"
proof -
  let ?fs = "[(''0002.sql'', ''b''), (''0001.sql'', ''a''), (''README'', ''x'')]"
  let ?sc = "\<lparr>sc_applied = [], sc_executed = []\<rparr>"
  have "sc_applied (fst (Migrate flaky_pg (\<lambda>_. True) ?fs ?sc)) = [''0001.sql'']" by code_simp
  with migrations_run_once [of flaky_pg "\<lambda>_. True" ?fs ?sc "fst (Migrate flaky_pg (\<lambda>_. True) ?fs ?sc)"
      "snd (Migrate flaky_pg (\<lambda>_. True) ?fs ?sc)"] show ?thesis by (simp add: Let_def)
qed

end
