(* ===== verification/OMS_Tail.thy ===== *)
theory OMS_Tail
  imports OMS_Wal_Props
begin

text \<open>
  The log follower of \<open>internal/oms/tail.go\<close>: a reader that hands out the records above a position,
  crossing segment rotations, and waits for records that are not written yet.

  The tailer shares the directory with a running writer and reads it again at every access, so
  the directory is a function of the number of accesses made so far: \<open>dir n\<close> is what the \<open>n\<close>-th
  listing or file read sees. The loops thread that number. A loop that never ends is \<open>None\<close>.
\<close>

section \<open>The tailer\<close>

record Tailer =
  tl_afterSeq :: int
  tl_segment :: string
  tl_offset :: nat

definition NewTailer :: "int \<Rightarrow> Tailer" where
  "NewTailer afterSeq = \<lparr>tl_afterSeq = afterSeq, tl_segment = [], tl_offset = 0\<rparr>"

definition AfterSeq :: "Tailer \<Rightarrow> int" where
  "AfterSeq t = tl_afterSeq t"

text \<open>\<open>locateSegment\<close>: the loop over the sorted names, then the choice.\<close>

fun choose_segment :: "int \<Rightarrow> string \<Rightarrow> string list \<Rightarrow> Err + string" where
  "choose_segment want chosen [] = Inr chosen"
| "choose_segment want chosen (path # paths) = (case seqFromName path of
     None \<Rightarrow> Inl ErrSegmentName
   | Some first \<Rightarrow> if first > want then Inr chosen else choose_segment want path paths)"

definition locateSegment :: "Disk \<Rightarrow> Tailer \<Rightarrow> Tailer \<times> Err option" where
  "locateSegment d t = (case segmentPaths d of
     [] \<Rightarrow> (t, None)
   | p # ps \<Rightarrow> (case choose_segment (add64 (tl_afterSeq t) 1) p (p # ps) of
        Inl e \<Rightarrow> (t, Some e)
      | Inr chosen \<Rightarrow> (t\<lparr>tl_segment := chosen, tl_offset := walHeaderSize\<rparr>, None)))"

text \<open>
  \<open>readSegment\<close>: the loop over what the reader yields, each record with the reader's offset behind
  it and an error last, if any. A full batch leaves the loop before the error is seen.
\<close>

fun read_loop ::
  "int \<Rightarrow> (Record \<times> nat) list \<Rightarrow> Err option \<Rightarrow> Tailer \<Rightarrow> Record list \<Rightarrow> Tailer \<times> Record list \<times> Err option" where
  "read_loop limit [] e t out = (t, out, e)"
| "read_loop limit ((rec, off) # rs) e t out =
     (let t1 = t\<lparr>tl_offset := off\<rparr>
      in if r_Seq rec \<le> tl_afterSeq t1 then read_loop limit rs e t1 out
         else
           let t2 = t1\<lparr>tl_afterSeq := r_Seq rec\<rparr>; out' = out @ [rec]
           in if int (length out') \<ge> limit then (t2, out', None) else read_loop limit rs e t2 out')"

definition readSegment :: "Json \<Rightarrow> Disk \<Rightarrow> Tailer \<Rightarrow> int \<Rightarrow> Tailer \<times> Record list \<times> Err option" where
  "readSegment js d t limit = (case OpenReaderAt d (tl_segment t) (tl_offset t) of
     Inl e \<Rightarrow> (t, [], Some e)
   | Inr rest \<Rightarrow> let (rs, _, e) = Records js rest (tl_offset t) in read_loop limit rs e t [])"

fun next_after :: "string \<Rightarrow> string list \<Rightarrow> string" where
  "next_after segment (p # q # ps) = (if p = segment then q else next_after segment (q # ps))"
| "next_after segment ps = []"

definition nextSegment :: "Disk \<Rightarrow> Tailer \<Rightarrow> string" where
  "nextSegment d t = next_after (tl_segment t) (segmentPaths d)"

section \<open>Polling\<close>

text \<open>
  One turn of the loop in \<open>poll\<close>: the accesses made, the tailer, what has been collected, and
  \<open>Some\<close> of the returned error when the turn returns.
\<close>

type_synonym turn = "nat \<times> Tailer \<times> Record list \<times> Err option option"

definition advance :: "(nat \<Rightarrow> Disk) \<Rightarrow> nat \<Rightarrow> Tailer \<Rightarrow> Record list \<Rightarrow> turn" where
  "advance dir n t out =
     (let next = nextSegment (dir n) t
      in if next = [] then (Suc n, t, out, Some None)
         else (Suc n, t\<lparr>tl_segment := next, tl_offset := walHeaderSize\<rparr>, out, None))"

definition read_turn :: "Json \<Rightarrow> (nat \<Rightarrow> Disk) \<Rightarrow> int \<Rightarrow> nat \<Rightarrow> Tailer \<Rightarrow> Record list \<Rightarrow> turn" where
  "read_turn js dir limit n t out = (case readSegment js (dir n) t (limit - int (length out)) of
     (t', _, Some e) \<Rightarrow> (Suc n, t', out, Some (Some e))
   | (t', records, None) \<Rightarrow>
       if records \<noteq> [] then (Suc n, t', out @ records, None) else advance dir (Suc n) t' (out @ records))"

definition poll_turn :: "Json \<Rightarrow> (nat \<Rightarrow> Disk) \<Rightarrow> int \<Rightarrow> nat \<Rightarrow> Tailer \<Rightarrow> Record list \<Rightarrow> turn" where
  "poll_turn js dir limit n t out =
     (if tl_segment t = [] then
        (case locateSegment (dir n) t of
           (t1, Some e) \<Rightarrow> (Suc n, t1, out, Some (Some e))
         | (t1, None) \<Rightarrow>
             if tl_segment t1 = [] then (Suc n, t1, out, Some None) else read_turn js dir limit (Suc n) t1 out)
      else read_turn js dir limit n t out)"

partial_function (option) poll_loop ::
  "Json \<Rightarrow> (nat \<Rightarrow> Disk) \<Rightarrow> int \<Rightarrow> nat \<Rightarrow> Tailer \<Rightarrow> Record list \<Rightarrow> (nat \<times> Tailer \<times> Record list \<times> Err option) option" where
  "poll_loop js dir limit n t out =
     (if int (length out) < limit then
        (case poll_turn js dir limit n t out of
           (n', t', out', Some e) \<Rightarrow> Some (n', t', out', e)
         | (n', t', out', None) \<Rightarrow> poll_loop js dir limit n' t' out')
      else Some (n, t, out, None))"

declare poll_loop.simps [code]

definition poll ::
  "Json \<Rightarrow> (nat \<Rightarrow> Disk) \<Rightarrow> int \<Rightarrow> nat \<Rightarrow> Tailer \<Rightarrow> (nat \<times> Tailer \<times> Record list \<times> Err option) option" where
  "poll js dir limit n t = poll_loop js dir limit n t []"

text \<open>\<open>gone n\<close> is the error of the context, if it is done, when the loop waits after \<open>n\<close> accesses.\<close>

partial_function (option) Next ::
  "Json \<Rightarrow> (nat \<Rightarrow> Disk) \<Rightarrow> (nat \<Rightarrow> ContextErr option) \<Rightarrow> int \<Rightarrow> nat \<Rightarrow> Tailer \<Rightarrow> (nat \<times> Tailer \<times> (Err + Record list)) option" where
  "Next js dir gone limit n t = (case poll js dir limit n t of
     None \<Rightarrow> None
   | Some (n', t', _, Some e) \<Rightarrow> Some (n', t', Inl e)
   | Some (n', t', batch, None) \<Rightarrow>
       if batch \<noteq> [] then Some (n', t', Inr batch)
       else (case gone n' of
          Some c \<Rightarrow> Some (n', t', Inl (ErrContext c))
        | None \<Rightarrow> Next js dir gone limit n' t'))"

declare Next.simps [code]

end
