(* ===== verification/OMS_Tail_Inv.thy ===== *)
theory OMS_Tail_Inv
  imports OMS_Tail
begin

text \<open>
  What a poll over a directory hands out: the position a tailer stands at, one read, one turn of
  the loop, and the whole loop, as the records of the log above the tailer's position.
\<close>

section \<open>Positions\<close>

abbreviation above :: "int \<Rightarrow> Record list \<Rightarrow> Record list" where
  "above a rs \<equiv> filter (\<lambda>r. r_Seq r > a) rs"

text \<open>
  The tailer stands in a segment, \<open>j\<close> of whose records it has read; whatever lies before is at or
  below its position.
\<close>

definition stands_at :: "Json \<Rightarrow> segments \<Rightarrow> segments \<Rightarrow> int \<Rightarrow> Record list \<Rightarrow> segments \<Rightarrow> nat \<Rightarrow> Tailer \<Rightarrow> bool" where
  "stands_at js segs pre s rs post j t \<longleftrightarrow> segs = pre @ (s, rs) # post \<and> j \<le> length rs \<and>
     tl_segment t = segmentName s \<and> tl_offset t = walHeaderSize + length (enc_all js (take j rs)) \<and>
     above (tl_afterSeq t) (log_of pre @ take j rs) = []"

definition standing :: "Json \<Rightarrow> segments \<Rightarrow> Tailer \<Rightarrow> bool" where
  "standing js segs t \<longleftrightarrow> (\<exists>pre s rs post j. stands_at js segs pre s rs post j t)"

lemma standingI: "stands_at js segs pre s rs post j t \<Longrightarrow> standing js segs t"
  unfolding standing_def by blast

definition tail_at :: "Json \<Rightarrow> segments \<Rightarrow> Tailer \<Rightarrow> bool" where
  "tail_at js segs t \<longleftrightarrow> tl_segment t = [] \<and> is_i64 (tl_afterSeq t) \<or> standing js segs t"

lemma tail_at_new [simp]: "is_i64 a \<Longrightarrow> tail_at js segs (NewTailer a)"
  by (simp add: tail_at_def NewTailer_def)

lemma log_of_append [simp]: "log_of (xs @ ys) = log_of xs @ log_of ys" "log_of ((s, rs) # xs) = rs @ log_of xs" "log_of [] = []"
  by (simp_all add: log_of_def)

lemma last_append_filter: "last (a # map f (xs @ ys)) = last (last (a # map f xs) # map f ys)"
  by (cases ys) auto

lemma above_mono: "a \<le> b \<Longrightarrow> above a xs = [] \<Longrightarrow> above b xs = []"
  by (force simp: filter_empty_conv)

lemma above_same: "a \<le> b \<Longrightarrow> \<forall>y \<in> set xs. b < r_Seq y \<Longrightarrow> above b xs = above a xs"
  by (intro filter_cong refl) auto

lemma above_above: "sorted_wrt (<) (map r_Seq xs) \<Longrightarrow> above (last (a # map r_Seq (above a (take k xs)))) (take k xs) = []"
proof (induction k)
  case (Suc k)
  show ?case
  proof (cases "k < length xs")
    case True
    have lt: "r_Seq r < r_Seq (xs ! k)" if "r \<in> set (take k xs)" for r
      using that Suc.prems True by (auto simp: sorted_wrt_iff_nth_less in_set_conv_nth)
    show ?thesis
    proof (cases "r_Seq (xs ! k) > a")
      case True
      with lt \<open>k < length xs\<close> show ?thesis by (auto simp: take_Suc_conv_app_nth filter_empty_conv dest: lt)
    next
      case False
      then have e: "above a (take k xs) = []" using lt by (fastforce simp: filter_empty_conv)
      with False Suc \<open>k < length xs\<close> show ?thesis by (auto simp: take_Suc_conv_app_nth)
    qed
  next
    case False
    with Suc show ?thesis by simp
  qed
qed simp

section \<open>One read\<close>

definition reads_to :: "Json \<Rightarrow> int \<Rightarrow> nat \<Rightarrow> Record list \<Rightarrow> Tailer \<Rightarrow> Record list \<Rightarrow> nat \<Rightarrow> bool" where
  "reads_to js limit off xs t out k \<longleftrightarrow> k \<le> length xs \<and>
     (let new = above (tl_afterSeq t) (take k xs) in
        read_loop limit (with_offsets js off xs) None t out =
          (t\<lparr>tl_afterSeq := last (tl_afterSeq t # map r_Seq new), tl_offset := off + length (enc_all js (take k xs))\<rparr>, out @ new, None) \<and>
        int (length (out @ new)) \<le> limit \<and> (limit \<le> int (length (out @ new)) \<or> length xs \<le> k))"

lemma read_loop_spec:
  assumes "sorted_wrt (<) (map r_Seq xs)" "int (length out) < limit" "tl_offset t = off"
  shows "\<exists>k. reads_to js limit off xs t out k"
  using assms
proof (induction xs arbitrary: out t off)
  case Nil
  then show ?case by (intro exI [of _ 0]) (simp add: Let_def reads_to_def)
next
  case (Cons x xs)
  let ?off = "off + length (enc js x)"
  have so: "sorted_wrt (<) (map r_Seq xs)" and gt: "\<And>r. r \<in> set xs \<Longrightarrow> r_Seq x < r_Seq r" using Cons.prems(1) by auto
  consider (skip) "r_Seq x \<le> tl_afterSeq t" | (full) "tl_afterSeq t < r_Seq x" "limit \<le> int (length (out @ [x]))"
    | (more) "tl_afterSeq t < r_Seq x" "int (length (out @ [x])) < limit" by linarith
  then show ?case
  proof cases
    case skip
    have "\<exists>k. reads_to js limit ?off xs (t\<lparr>tl_offset := ?off\<rparr>) out k" by (rule Cons.IH [OF so Cons.prems(2)]) simp
    then obtain k where "reads_to js limit ?off xs (t\<lparr>tl_offset := ?off\<rparr>) out k" ..
    with skip show ?thesis by (intro exI [of _ "Suc k"]) (simp add: Let_def add.assoc reads_to_def)
  next
    case full
    then show ?thesis using Cons.prems by (intro exI [of _ 1]) (simp add: Let_def reads_to_def)
  next
    case more
    have "\<exists>k. reads_to js limit ?off xs (t\<lparr>tl_offset := ?off, tl_afterSeq := r_Seq x\<rparr>) (out @ [x]) k"
      by (rule Cons.IH [OF so more(2)]) simp
    then obtain k where k: "reads_to js limit ?off xs (t\<lparr>tl_offset := ?off, tl_afterSeq := r_Seq x\<rparr>) (out @ [x]) k" ..
    have "above (r_Seq x) (take k xs) = take k xs" "above (tl_afterSeq t) (take k xs) = take k xs"
      using gt more(1) by (force simp: filter_id_conv dest: in_set_takeD)+
    with more k show ?thesis by (intro exI [of _ "Suc k"]) (auto simp: Let_def add.assoc reads_to_def)
  qed
qed

lemma segment_sorted: "ordered_segments segs \<Longrightarrow> (s, rs) \<in> set segs \<Longrightarrow> sorted_wrt (<) (map r_Seq rs)"
  by (auto simp: ordered_segments_def)

text \<open>The bytes a reader sees from the offset behind the \<open>j\<close>-th record of a segment on.\<close>

lemma reader_at:
  assumes d: "disk_log js d segs tail" and e: "segs = pre @ (s, rs) # post" and j: "j \<le> length rs"
  shows "\<exists>bs. OpenReaderAt d (segmentName s) (walHeaderSize + length (enc_all js (take j rs))) = Inr bs \<and>
    (\<exists>off. Records js bs (walHeaderSize + length (enc_all js (take j rs))) =
       (with_offsets js (walHeaderSize + length (enc_all js (take j rs))) (drop j rs), off, None))"
proof -
  let ?off = "walHeaderSize + length (enc_all js (take j rs))"
  have lg: "\<And>r. r \<in> set rs \<Longrightarrow> loggable js r" using d e by (auto simp: disk_log_def wf_segments_def)
  have split: "enc_all js rs = enc_all js (take j rs) @ enc_all js (drop j rs)"
    by (metis append_take_drop_id enc_all_simps(3))
  obtain tl where tl: "map_of (files d) (segmentName s) = Some (seg_bytes js rs @ tl)" "torn_tail js tl"
  proof (cases "post = []")
    case True
    then have "last segs = (s, rs)" by (simp add: e)
    with d that show thesis by (auto simp: disk_log_def holds_segments_def)
  next
    case False
    then have "(s, rs) \<in> set (butlast segs)" by (simp add: e butlast_append)
    with d that [of "[]"] show thesis by (force simp: disk_log_def holds_segments_def torn_tail_def)
  qed
  have "drop ?off (seg_bytes js rs @ tl) = enc_all js (drop j rs) @ tl"
    by (simp add: seg_bytes_def split)
  then have "OpenReaderAt d (segmentName s) ?off = Inr (enc_all js (drop j rs) @ tl)"
    by (simp add: OpenReaderAt_def tl(1) seg_bytes_def)
  moreover have "Records js (enc_all js (drop j rs) @ tl) ?off =
      (with_offsets js ?off (drop j rs), ?off + length (enc_all js (drop j rs)), None)"
    by (rule Records_torn) (use lg tl(2) in \<open>auto dest: in_set_dropD\<close>)
  ultimately show ?thesis by auto
qed

text \<open>One read hands out the next records of the segment and stands behind them.\<close>

lemma readSegment_spec:
  assumes d: "disk_log js d segs tail" and t: "stands_at js segs pre s rs post j t" and lim: "0 < limit"
  shows "\<exists>t' k new. readSegment js d t limit = (t', new, None) \<and> stands_at js segs pre s rs post k t' \<and>
    new @ above (tl_afterSeq t') (log_of segs) = above (tl_afterSeq t) (log_of segs) \<and>
    int (length new) \<le> limit \<and> (new = [] \<longrightarrow> k = length rs) \<and>
    tl_afterSeq t' = last (tl_afterSeq t # map r_Seq new)"
proof -
  let ?a = "tl_afterSeq t" and ?off = "walHeaderSize + length (enc_all js (take j rs))"
  have segs: "segs = pre @ (s, rs) # post" and j: "j \<le> length rs" and seg: "tl_segment t = segmentName s" "tl_offset t = ?off"
    and below: "above ?a (log_of pre @ take j rs) = []"
    using t by (auto simp: stands_at_def)
  have ord: "ordered_segments segs" using d by (simp add: disk_log_def)
  have so: "sorted_wrt (<) (map r_Seq rs)" by (rule segment_sorted [OF ord, of s]) (simp add: segs)
  then have so': "sorted_wrt (<) (map r_Seq (drop j rs))" by (metis drop_map sorted_wrt_drop)
  obtain bs off where bs: "OpenReaderAt d (segmentName s) ?off = Inr bs" "Records js bs ?off = (with_offsets js ?off (drop j rs), off, None)"
    using reader_at [OF d segs j] by blast
  obtain k where rk: "reads_to js limit ?off (drop j rs) t [] k"
    using read_loop_spec [OF so', of "[]" limit t ?off js] lim seg by auto
  let ?new = "above ?a (take k (drop j rs))"
  let ?t = "t\<lparr>tl_afterSeq := last (?a # map r_Seq ?new), tl_offset := ?off + length (enc_all js (take k (drop j rs)))\<rparr>"
  have k: "k \<le> length (drop j rs)" "read_loop limit (with_offsets js ?off (drop j rs)) None t [] = (?t, ?new, None)"
    "int (length ?new) \<le> limit" "limit \<le> int (length ?new) \<or> length (drop j rs) \<le> k"
    using rk by (simp_all add: reads_to_def Let_def)
  have read: "readSegment js d t limit = (?t, ?new, None)" using k(2) by (simp add: readSegment_def seg bs Let_def)
  have jk: "take (j + k) rs = take j rs @ take k (drop j rs)" by (simp add: take_add)
  have whole: "log_of segs = (log_of pre @ take (j + k) rs) @ drop (j + k) rs @ log_of post"
    by (simp add: segs)
  have new: "?new = above ?a (log_of pre @ take (j + k) rs)" using below by (simp add: jk)
  have inc: "?a \<le> last (?a # map r_Seq ?new)" by (auto simp: last_map dest!: last_in_set)
  have "above (last (?a # map r_Seq ?new)) (take k (drop j rs)) = []" by (rule above_above [OF so'])
  moreover have "above (last (?a # map r_Seq ?new)) (log_of pre @ take j rs) = []"
    by (rule above_mono [OF inc below])
  ultimately have b2: "above (last (?a # map r_Seq ?new)) (log_of pre @ take (j + k) rs) = []" by (simp add: jk)
  have rest: "above (last (?a # map r_Seq ?new)) (drop (j + k) rs @ log_of post) = above ?a (drop (j + k) rs @ log_of post)"
  proof (cases "?new = []")
    case False
    then have "last (?a # map r_Seq ?new) = r_Seq (last ?new)" "last ?new \<in> set (take (j + k) rs)"
      using last_in_set [OF False] by (auto simp: last_map jk)
    moreover have "r_Seq x < r_Seq y" if x0: "x \<in> set (take (j + k) rs)" and y0: "y \<in> set (drop (j + k) rs @ log_of post)" for x y
    proof -
      have x: "x \<in> set rs" using x0 by (rule in_set_takeD)
      consider "y \<in> set (drop (j + k) rs)" | s' rs' where "(s', rs') \<in> set post" "y \<in> set rs'"
        using y0 unfolding log_of_def by fastforce
      then show ?thesis
      proof cases
        case 1
        have "sorted_wrt (\<lambda>x y. r_Seq x < r_Seq y) (take (j + k) rs @ drop (j + k) rs)" using so by (simp add: sorted_wrt_map)
        with x0 1 show ?thesis by (simp only: sorted_wrt_append)
      next
        case 2
        with ord x have "r_Seq x < s'" "s' \<le> r_Seq y"
          by (fastforce simp: segs ordered_segments_def sorted_wrt_append)+
        then show ?thesis by simp
      qed
    qed
    ultimately have "\<forall>y \<in> set (drop (j + k) rs @ log_of post). last (?a # map r_Seq ?new) < r_Seq y" by simp
    with inc show ?thesis by (rule above_same)
  qed (simp add: last_ConsL)
  have "stands_at js segs pre s rs post (j + k) ?t"
    using b2 k(1) j seg by (simp add: stands_at_def segs jk add.assoc)
  moreover have "?new @ above (last (?a # map r_Seq ?new)) (log_of segs) = above ?a (log_of segs)"
    unfolding whole filter_append [of _ "log_of pre @ take (j + k) rs"] b2 rest using new by simp
  moreover have "?new = [] \<longrightarrow> j + k = length rs" using k(1,4) lim j by auto
  moreover have "int (length ?new) \<le> limit" by (rule k(3))
  ultimately show ?thesis using read by (intro exI [of _ ?t] exI [of _ "j + k"] exI [of _ ?new]) simp
qed

section \<open>One turn and the whole loop\<close>

text \<open>Choosing a segment: everything before it is at or below the tailer's position.\<close>

lemma choose_segment_spec:
  assumes "\<And>s rs. (s, rs) \<in> set post \<Longrightarrow> seq_ok s"
  shows "\<exists>mid s rs post'. (s0, rs0) # post = mid @ (s, rs) # post' \<and>
    choose_segment want (segmentName s0) (map (segmentName \<circ> fst) post) = Inr (segmentName s) \<and> (mid = [] \<or> s \<le> want)"
  using assms
proof (induction post arbitrary: s0 rs0)
  case (Cons x post)
  obtain s1 rs1 where x: "x = (s1, rs1)" by (cases x)
  have n: "seqFromName (segmentName s1) = Some s1" using Cons.prems by (intro seqFromName_segmentName) (auto simp: x)
  show ?case
  proof (cases "s1 > want")
    case True
    then show ?thesis by (intro exI [of _ "[]"]) (auto simp: x n)
  next
    case False
    have "\<exists>mid s rs post'. (s1, rs1) # post = mid @ (s, rs) # post' \<and>
      choose_segment want (segmentName s1) (map (segmentName \<circ> fst) post) = Inr (segmentName s) \<and> (mid = [] \<or> s \<le> want)"
      by (rule Cons.IH) (use Cons.prems in auto)
    then obtain mid s rs post' where m: "(s1, rs1) # post = mid @ (s, rs) # post'"
      "choose_segment want (segmentName s1) (map (segmentName \<circ> fst) post) = Inr (segmentName s)" "mid = [] \<or> s \<le> want"
      by blast
    have "s \<le> want" using m(1,3) False by auto
    moreover have "(s0, rs0) # x # post = ((s0, rs0) # mid) @ (s, rs) # post'" using m(1) by (simp add: x)
    moreover have "choose_segment want (segmentName s0) (map (segmentName \<circ> fst) (x # post)) = Inr (segmentName s)"
      using m(2) False by (simp add: x n)
    ultimately show ?thesis by blast
  qed
qed (auto intro!: exI [of _ "[]"])

lemma segmentName_nonempty [simp]: "segmentName s \<noteq> []" "[] \<noteq> segmentName s"
  by (simp_all add: segmentName_def segmentSuffix_def)

lemma locateSegment_spec:
  assumes d: "disk_log js d segs tail" and a: "is_i64 (tl_afterSeq t)"
  shows "\<exists>t' pre s rs post. locateSegment d t = (t', None) \<and> stands_at js segs pre s rs post 0 t' \<and> tl_afterSeq t' = tl_afterSeq t"
proof -
  let ?want = "add64 (tl_afterSeq t) 1"
  have want: "?want \<le> tl_afterSeq t + 1" using a zmod_le_nonneg_dividend [of "tl_afterSeq t + 1 + 2 ^ 63" "2 ^ 64"] by (simp add: add64_def i64_def is_i64_def)
  have wf: "wf_segments js segs" and ord: "ordered_segments segs" and paths: "segmentPaths d = map (segmentName \<circ> fst) segs"
    using d by (auto simp: disk_log_def holds_segments_def)
  then obtain s0 rs0 post0 where segs: "segs = (s0, rs0) # post0" by (metis wf_segments_def list.exhaust prod.collapse)
  have ok: "seq_ok s" if "(s, rs) \<in> set segs" for s rs using wf that by (auto simp: wf_segments_def)
  have "\<exists>mid s rs post'. (s0, rs0) # segs = mid @ (s, rs) # post' \<and>
      choose_segment ?want (segmentName s0) (map (segmentName \<circ> fst) segs) = Inr (segmentName s) \<and> (mid = [] \<or> s \<le> ?want)"
    by (rule choose_segment_spec) (use ok in auto)
  then obtain mid s rs post where m: "(s0, rs0) # segs = mid @ (s, rs) # post"
      "choose_segment ?want (segmentName s0) (map (segmentName \<circ> fst) segs) = Inr (segmentName s)" "mid = [] \<or> s \<le> ?want"
    by blast
  obtain pre rs' post' where p: "segs = pre @ (s, rs') # post'" "pre = [] \<or> s \<le> ?want"
    using m by (cases mid) (auto simp: segs intro: that [of "[]"] that)
  have "above (tl_afterSeq t) (log_of pre) = []"
    using p ord want by (fastforce simp: filter_empty_conv ordered_segments_def sorted_wrt_append log_of_def)
  then have "stands_at js segs pre s rs' post' 0 (t\<lparr>tl_segment := segmentName s, tl_offset := walHeaderSize\<rparr>)"
    by (simp add: stands_at_def p(1))
  moreover have "locateSegment d t = (t\<lparr>tl_segment := segmentName s, tl_offset := walHeaderSize\<rparr>, None)"
    using m(2) by (simp add: locateSegment_def paths segs)
  ultimately show ?thesis by fastforce
qed

lemma next_after_spec:
  assumes "distinct (xs @ x # ys)"
  shows "next_after x (xs @ x # ys) = (case ys of [] \<Rightarrow> [] | y # _ \<Rightarrow> y)"
  using assms
proof (induction xs)
  case Nil
  then show ?case by (cases ys) auto
next
  case (Cons a xs)
  then show ?case by (cases xs) auto
qed

lemma segment_names_distinct: "wf_segments js segs \<Longrightarrow> distinct (map (segmentName \<circ> fst) segs)"
proof -
  assume wf: "wf_segments js segs"
  then have "distinct (map fst segs)" by (auto simp: wf_segments_def strict_sorted_iff)
  moreover have "inj_on segmentName (set (map fst segs))"
    using wf segmentName_inj by (fastforce simp: inj_on_def wf_segments_def)
  ultimately have "distinct (map segmentName (map fst segs))" by (subst distinct_map) simp
  then show ?thesis by simp
qed

lemma nextSegment_spec:
  assumes d: "disk_log js d segs tail" and e: "segs = pre @ (s, rs) # post" and t: "tl_segment t = segmentName s"
  shows "nextSegment d t = (case post of [] \<Rightarrow> [] | (s', _) # _ \<Rightarrow> segmentName s')"
proof -
  have "segmentPaths d = map (segmentName \<circ> fst) pre @ segmentName s # map (segmentName \<circ> fst) post"
    using d by (simp add: disk_log_def holds_segments_def e)
  moreover have "distinct (map (segmentName \<circ> fst) pre @ segmentName s # map (segmentName \<circ> fst) post)"
    using segment_names_distinct [of js segs] d by (simp add: disk_log_def e)
  ultimately show ?thesis by (cases post) (auto simp: nextSegment_def t next_after_spec simp del: distinct.simps)
qed

text \<open>The loop's variant: records still wanted, then segments still ahead.\<close>

definition ahead :: "segments \<Rightarrow> Tailer \<Rightarrow> nat" where
  "ahead segs t = length (filter (\<lambda>(s, _). tl_segment t < segmentName s) segs)"

definition poll_measure :: "segments \<Rightarrow> int \<Rightarrow> Tailer \<Rightarrow> Record list \<Rightarrow> nat" where
  "poll_measure segs limit t out = nat (limit - int (length out)) * Suc (length segs) + ahead segs t"

lemma ahead_le: "ahead segs t \<le> length segs"
  by (simp add: ahead_def)

lemma ahead_next:
  assumes wf: "wf_segments js (pre @ (s, rs) # (s', rs') # post)" and t: "tl_segment t = segmentName s"
  shows "ahead (pre @ (s, rs) # (s', rs') # post) (t\<lparr>tl_segment := segmentName s', tl_offset := k\<rparr>) <
    ahead (pre @ (s, rs) # (s', rs') # post) t"
proof -
  let ?segs = "pre @ (s, rs) # (s', rs') # post"
  have lt: "segmentName s < segmentName s'"
    using wf by (intro segmentName_less) (auto simp: wf_segments_def sorted_wrt_append)
  then have "length (filter (\<lambda>(q, _). segmentName s' < segmentName q) xs) \<le> length (filter (\<lambda>(q, _). segmentName s < segmentName q) xs)" for xs :: segments
    by (induction xs) auto
  from this [of pre] this [of post] lt show ?thesis by (simp add: ahead_def t)
qed

text \<open>A turn either ends the loop with nothing left, or keeps what is still to come and decreases the variant.\<close>

definition turn_ok :: "Json \<Rightarrow> segments \<Rightarrow> int \<Rightarrow> Tailer \<Rightarrow> Record list \<Rightarrow> turn \<Rightarrow> bool" where
  "turn_ok js segs limit t out r \<longleftrightarrow> (case r of (n', t', out', stop) \<Rightarrow> \<exists>new. out' = out @ new \<and>
     new @ above (tl_afterSeq t') (log_of segs) = above (tl_afterSeq t) (log_of segs) \<and>
     tl_afterSeq t' = last (tl_afterSeq t # map r_Seq new) \<and> int (length (out @ new)) \<le> limit \<and>
     standing js segs t' \<and>
     (stop = Some None \<and> above (tl_afterSeq t') (log_of segs) = [] \<or>
      stop = None \<and> poll_measure segs limit t' (out @ new) < poll_measure segs limit t out))"

lemma turn_okI:
  assumes "new @ above (tl_afterSeq t') (log_of segs) = above (tl_afterSeq t) (log_of segs)"
    "tl_afterSeq t' = last (tl_afterSeq t # map r_Seq new)" "int (length (out @ new)) \<le> limit" "standing js segs t'"
    "stop = Some None \<and> above (tl_afterSeq t') (log_of segs) = [] \<or>
     stop = None \<and> poll_measure segs limit t' (out @ new) < poll_measure segs limit t out"
  shows "turn_ok js segs limit t out (n', t', out @ new, stop)"
  unfolding turn_ok_def prod.case using assms by blast

lemma turn_okE:
  assumes "turn_ok js segs limit t out r"
  obtains n' t' new stop where "r = (n', t', out @ new, stop)"
    "new @ above (tl_afterSeq t') (log_of segs) = above (tl_afterSeq t) (log_of segs)"
    "tl_afterSeq t' = last (tl_afterSeq t # map r_Seq new)" "int (length (out @ new)) \<le> limit" "standing js segs t'"
    "stop = Some None \<and> above (tl_afterSeq t') (log_of segs) = [] \<or>
     stop = None \<and> poll_measure segs limit t' (out @ new) < poll_measure segs limit t out"
proof -
  obtain n' t' out' stop where r: "r = (n', t', out', stop)" by (cases r)
  from assms obtain new where new: "out' = out @ new"
    "new @ above (tl_afterSeq t') (log_of segs) = above (tl_afterSeq t) (log_of segs)"
    "tl_afterSeq t' = last (tl_afterSeq t # map r_Seq new)" "int (length (out @ new)) \<le> limit" "standing js segs t'"
    "stop = Some None \<and> above (tl_afterSeq t') (log_of segs) = [] \<or>
     stop = None \<and> poll_measure segs limit t' (out @ new) < poll_measure segs limit t out"
    unfolding turn_ok_def r prod.case by blast
  show thesis by (rule that [OF _ new(2-6)]) (simp add: r new(1))
qed

lemma turn_ok_mono:
  assumes "turn_ok js segs limit t1 out r" "tl_afterSeq t1 = tl_afterSeq t" "poll_measure segs limit t1 out \<le> poll_measure segs limit t out"
  shows "turn_ok js segs limit t out r"
  using assms by (elim turn_okE) (auto intro!: turn_okI)

lemma read_turn_spec:
  assumes d: "disk_log js d segs tail" and t: "stands_at js segs pre s rs post j t" and lim: "int (length out) < limit"
  shows "turn_ok js segs limit t out (read_turn js (\<lambda>_. d) limit n t out)"
proof -
  obtain t1 k new where r: "readSegment js d t (limit - int (length out)) = (t1, new, None)" and st: "stands_at js segs pre s rs post k t1"
    and eq: "new @ above (tl_afterSeq t1) (log_of segs) = above (tl_afterSeq t) (log_of segs)"
    and len: "int (length new) \<le> limit - int (length out)" and k: "new = [] \<longrightarrow> k = length rs"
    and last: "tl_afterSeq t1 = last (tl_afterSeq t # map r_Seq new)"
    using readSegment_spec [OF d t, of "limit - int (length out)"] lim by auto
  have segs: "segs = pre @ (s, rs) # post" and seg: "tl_segment t1 = segmentName s" "tl_segment t = segmentName s"
    using st t by (auto simp: stands_at_def)
  show ?thesis
  proof (cases "new = []")
    case False
    then have "poll_measure segs limit t1 (out @ new) < poll_measure segs limit t out"
    proof -
      have "nat (limit - int (length (out @ new))) < nat (limit - int (length out))" using False lim by (cases new) auto
      then have "nat (limit - int (length (out @ new))) * Suc (length segs) + Suc (length segs) \<le> nat (limit - int (length out)) * Suc (length segs)"
        by (metis Suc_leI add.commute mult_Suc mult_le_mono1)
      with ahead_le [of segs t1] show ?thesis by (simp add: poll_measure_def)
    qed
    with False eq len last standingI [OF st] show ?thesis by (auto simp: read_turn_def r intro!: turn_okI)
  next
    case True
    then have a1: "tl_afterSeq t1 = tl_afterSeq t" and kk: "k = length rs" using last k by auto
    have none: "above (tl_afterSeq t) (log_of pre @ rs) = []" using st kk a1 by (simp add: stands_at_def)
    show ?thesis
    proof (cases post)
      case Nil
      then have "nextSegment d t1 = []" using nextSegment_spec [OF d segs seg(1)] by simp
      moreover have "above (tl_afterSeq t1) (log_of segs) = []" using none a1 by (simp add: segs Nil)
      ultimately show ?thesis using True a1 lim standingI [OF st] turn_okI [of "[]" t1 segs t out limit js "Some None"]
        by (simp add: read_turn_def r advance_def)
    next
      case (Cons x post')
      obtain s' rs' where x: "x = (s', rs')" by (cases x)
      let ?t = "t1\<lparr>tl_segment := segmentName s', tl_offset := walHeaderSize\<rparr>"
      have "nextSegment d t1 = segmentName s'" using nextSegment_spec [OF d segs seg(1)] by (simp add: Cons x)
      moreover have "standing js segs ?t"
        by (rule standingI [of js segs "pre @ [(s, rs)]" s' rs' post' 0])
          (use none a1 in \<open>simp add: stands_at_def segs Cons x\<close>)
      moreover have "ahead segs ?t < ahead segs t"
        using ahead_next [of js pre s rs s' rs' post' t walHeaderSize] d seg
        by (simp add: segs Cons x disk_log_def ahead_def)
      ultimately show ?thesis using True a1 lim turn_okI [of "[]" ?t segs t out limit js None]
        by (simp add: read_turn_def r advance_def poll_measure_def)
    qed
  qed
qed

lemma poll_turn_spec:
  assumes d: "disk_log js d segs tail" and t: "tail_at js segs t"
    and lim: "int (length out) < limit"
  shows "turn_ok js segs limit t out (poll_turn js (\<lambda>_. d) limit n t out)"
proof (cases "tl_segment t = []")
  case False
  with t obtain pre s rs post j where "stands_at js segs pre s rs post j t" by (auto simp: tail_at_def standing_def)
  with False read_turn_spec [OF d this lim] show ?thesis by (simp add: poll_turn_def)
next
  case True
  then have i64: "is_i64 (tl_afterSeq t)" using t by (auto simp: tail_at_def standing_def stands_at_def)
  obtain t1 pre s rs post where l: "locateSegment d t = (t1, None)" "tl_afterSeq t1 = tl_afterSeq t"
    and st: "stands_at js segs pre s rs post 0 t1"
    using locateSegment_spec [OF d i64] by blast
  then have ne: "tl_segment t1 \<noteq> []" by (simp add: stands_at_def)
  have "[] < segmentName q" for q by (cases "segmentName q") auto
  then have "ahead segs t = length segs" using True by (simp add: ahead_def case_prod_beta)
  with ahead_le [of segs t1] have "ahead segs t1 \<le> ahead segs t" by simp
  then have "poll_measure segs limit t1 out \<le> poll_measure segs limit t out" by (simp add: poll_measure_def)
  moreover have "poll_turn js (\<lambda>_. d) limit n t out = read_turn js (\<lambda>_. d) limit (Suc n) t1 out"
    using True l(1) ne by (simp add: poll_turn_def)
  ultimately show ?thesis using turn_ok_mono [OF read_turn_spec [OF d st lim, of "Suc n"] l(2)] by simp
qed

lemma standing_tail_at: "standing js segs t \<Longrightarrow> tail_at js segs t"
  by (simp add: tail_at_def)

lemma poll_loop_spec:
  assumes d: "disk_log js d segs tail" and t: "tail_at js segs t"
    and lim: "int (length out) \<le> limit" "0 < limit"
  shows "\<exists>n' t' new. poll_loop js (\<lambda>_. d) limit n t out = Some (n', t', out @ new, None) \<and>
    new = take (nat limit - length out) (above (tl_afterSeq t) (log_of segs)) \<and>
    tl_afterSeq t' = last (tl_afterSeq t # map r_Seq new) \<and> tail_at js segs t'"
  using t lim
proof (induction "poll_measure segs limit t out" arbitrary: n t out rule: less_induct)
  case less
  show ?case
  proof (cases "int (length out) < limit")
    case False
    with less.prems show ?thesis by (subst poll_loop.simps) auto
  next
    case True
    obtain n1 t1 new stop where turn: "poll_turn js (\<lambda>_. d) limit n t out = (n1, t1, out @ new, stop)"
      and eq: "new @ above (tl_afterSeq t1) (log_of segs) = above (tl_afterSeq t) (log_of segs)"
      and last: "tl_afterSeq t1 = last (tl_afterSeq t # map r_Seq new)" and len: "int (length (out @ new)) \<le> limit"
      and st: "standing js segs t1"
      and stop: "stop = Some None \<and> above (tl_afterSeq t1) (log_of segs) = [] \<or>
        stop = None \<and> poll_measure segs limit t1 (out @ new) < poll_measure segs limit t out"
      by (rule turn_okE [OF poll_turn_spec [OF d less.prems(1) True, of n]])
    from stop show ?thesis
    proof (elim disjE conjE)
      assume s: "stop = Some None" "above (tl_afterSeq t1) (log_of segs) = []"
      then have "poll_loop js (\<lambda>_. d) limit n t out = Some (n1, t1, out @ new, None)"
        using True turn by (subst poll_loop.simps) simp
      moreover have "new = take (nat limit - length out) (above (tl_afterSeq t) (log_of segs))"
        using eq s(2) len by auto
      ultimately show ?thesis using last standing_tail_at [OF st] by blast
    next
      assume s: "stop = None" "poll_measure segs limit t1 (out @ new) < poll_measure segs limit t out"
      obtain n2 t2 new2 where l: "poll_loop js (\<lambda>_. d) limit n1 t1 (out @ new) = Some (n2, t2, (out @ new) @ new2, None)"
        and n2: "new2 = take (nat limit - length (out @ new)) (above (tl_afterSeq t1) (log_of segs))"
        and last2: "tl_afterSeq t2 = last (tl_afterSeq t1 # map r_Seq new2)" and t2: "tail_at js segs t2"
        using less.hyps [OF s(2) standing_tail_at [OF st] len lim(2), of n1] by blast
      have "poll_loop js (\<lambda>_. d) limit n t out = Some (n2, t2, out @ (new @ new2), None)"
        using True turn s(1) l by (subst poll_loop.simps) simp
      moreover have "new @ new2 = take (nat limit - length out) (above (tl_afterSeq t) (log_of segs))"
        using len unfolding eq [symmetric] n2 by (simp add: take_append)
      moreover have "tl_afterSeq t2 = last (tl_afterSeq t # map r_Seq (new @ new2))"
        unfolding last2 last by (rule last_append_filter [symmetric])
      ultimately show ?thesis using t2 by blast
    qed
  qed
qed

end
