(* ===== verification/OMS_Tail_Props.thy ===== *)
theory OMS_Tail_Props
  imports OMS_Tail_Inv "HOL-Library.Sublist"
begin

text \<open>
  What a tailer promises over a log that grows while it is read: the batches of successive polls
  are the records above the starting position, each once, in order, across rotations. The
  last section shows the one interleaving that breaks it: a record written and rotated away
  between the read that found the segment exhausted and the listing that finds the next one.
\<close>

section \<open>A growing log\<close>

definition grows :: "segments \<Rightarrow> segments \<Rightarrow> bool" where
  "grows segs segs' \<longleftrightarrow> segs \<noteq> [] \<and>
     (\<exists>more new. segs' = butlast segs @ (fst (last segs), snd (last segs) @ more) # new)"

text \<open>The directories seen by successive polls, with the segments each holds.\<close>

type_synonym history = "(Disk \<times> segments \<times> bytes) list"

fun grown_through :: "Json \<Rightarrow> segments \<Rightarrow> history \<Rightarrow> bool" where
  "grown_through js segs [] \<longleftrightarrow> True"
| "grown_through js segs ((d, segs', tail) # h) \<longleftrightarrow> disk_log js d segs' tail \<and> grows segs segs' \<and> grown_through js segs' h"

lemma log_of_grows: "grows segs segs' \<Longrightarrow> \<exists>X. log_of segs' = log_of segs @ X"
proof -
  assume g: "grows segs segs'"
  then obtain pre s rs where segs: "segs = pre @ [(s, rs)]" by (metis grows_def append_butlast_last_id prod.collapse)
  with g show ?thesis by (auto simp: grows_def)
qed

lemma standing_grows:
  assumes "standing js segs t" "grows segs segs'"
  shows "standing js segs' t"
proof -
  obtain pre s rs post j where st: "stands_at js segs pre s rs post j t" using assms(1) by (auto simp: standing_def)
  obtain more new where g: "segs' = butlast segs @ (fst (last segs), snd (last segs) @ more) # new" using assms(2) by (auto simp: grows_def)
  have segs: "segs = pre @ (s, rs) # post" using st by (simp add: stands_at_def)
  show ?thesis
  proof (cases post rule: rev_cases)
    case Nil
    then have "segs' = pre @ (s, rs @ more) # new" by (simp add: g segs)
    with st have "stands_at js segs' pre s (rs @ more) new j t" by (simp add: stands_at_def)
    then show ?thesis by (rule standingI)
  next
    case (snoc post' x)
    then have "segs' = pre @ (s, rs) # post' @ (fst x, snd x @ more) # new" by (simp add: g segs butlast_append)
    with st have "stands_at js segs' pre s rs (post' @ (fst x, snd x @ more) # new) j t" by (simp add: stands_at_def)
    then show ?thesis by (rule standingI)
  qed
qed

lemma tail_at_grows: "tail_at js segs t \<Longrightarrow> grows segs segs' \<Longrightarrow> tail_at js segs' t"
  by (auto simp: tail_at_def intro: standing_grows)

lemma ordered_log: "ordered_segments segs \<Longrightarrow> sorted_wrt (<) (map r_Seq (log_of segs))"
proof (induction segs)
  case (Cons x segs)
  obtain s rs where x: "x = (s, rs)" by (cases x)
  have ih: "sorted_wrt (<) (map r_Seq (log_of segs))" using Cons by (simp add: ordered_segments_def)
  have "r_Seq a < r_Seq b" if "a \<in> set rs" "(s', rs') \<in> set segs" "b \<in> set rs'" for a b s' rs'
  proof -
    have "r_Seq a < s'" "s' \<le> r_Seq b" using Cons.prems that by (fastforce simp: ordered_segments_def x)+
    then show ?thesis by simp
  qed
  then have "\<forall>a \<in> set rs. \<forall>b \<in> set (log_of segs). r_Seq a < r_Seq b" by (fastforce simp: log_of_def)
  moreover have "sorted_wrt (<) (map r_Seq rs)" using Cons.prems by (simp add: ordered_segments_def x)
  ultimately show ?case using ih by (simp add: x sorted_wrt_append)
qed simp

text \<open>Moving the position past a prefix of what was above it leaves the rest.\<close>

lemma above_split:
  assumes "sorted_wrt (<) (map r_Seq L)" "above a L = new @ rest"
  shows "above (last (a # map r_Seq new)) L = rest"
proof (cases "new = []")
  case False
  let ?b = "r_Seq (last new)"
  have so: "sorted_wrt (\<lambda>x y. r_Seq x < r_Seq y) (new @ rest)"
    using assms by (metis sorted_wrt_filter sorted_wrt_map)
  have "last new \<in> set (above a L)" using assms(2) False by simp
  then have "a < ?b" by simp
  then have "above ?b L = above ?b (above a L)" by (auto intro: filter_cong)
  also have "\<dots> = above ?b new @ above ?b rest" by (simp add: assms(2))
  also have "above ?b new = []"
  proof -
    have "new = butlast new @ [last new]" using False by simp
    then have "sorted_wrt (\<lambda>x y. r_Seq x < r_Seq y) (butlast new @ [last new])" using so by (simp add: sorted_wrt_append)
    then have "\<forall>x \<in> set new. r_Seq x \<le> ?b" by (subst \<open>new = _\<close>) (auto simp: sorted_wrt_append)
    then show ?thesis by (auto simp: filter_empty_conv)
  qed
  also have "above ?b rest = rest" using so False by (auto simp: sorted_wrt_append filter_id_conv)
  finally show ?thesis using False by (simp add: last_map)
qed (use assms in simp)

lemma AfterSeq_new [simp]: "AfterSeq (NewTailer a) = a"
  by (simp add: AfterSeq_def NewTailer_def)

section \<open>Successive polls\<close>

fun poll_each :: "Json \<Rightarrow> int \<Rightarrow> Disk list \<Rightarrow> Tailer \<Rightarrow> (Tailer \<times> Record list list) option" where
  "poll_each js limit [] t = Some (t, [])"
| "poll_each js limit (d # ds) t = (case poll js (\<lambda>_. d) limit 0 t of
     Some (_, t', batch, None) \<Rightarrow> map_option (\<lambda>(t'', batches). (t'', batch # batches)) (poll_each js limit ds t')
   | _ \<Rightarrow> None)"

lemma poll_stable:
  assumes "disk_log js d segs tail" "tail_at js segs t" "0 < limit"
  shows "\<exists>n' t'. poll js (\<lambda>_. d) limit n t = Some (n', t', take (nat limit) (above (AfterSeq t) (log_of segs)), None) \<and>
    AfterSeq t' = last (AfterSeq t # map r_Seq (take (nat limit) (above (AfterSeq t) (log_of segs)))) \<and> tail_at js segs t'"
  using poll_loop_spec [OF assms(1,2), of "[]" limit n] assms(3) by (simp add: poll_def AfterSeq_def)

abbreviation final :: "history \<Rightarrow> segments" where
  "final h \<equiv> fst (snd (last h))"

lemma grown_through_log:
  "grown_through js segs h \<Longrightarrow> h \<noteq> [] \<Longrightarrow> ordered_segments (final h) \<and> (\<exists>X. log_of (final h) = log_of segs @ X)"
proof (induction h arbitrary: segs)
  case (Cons x h)
  obtain d segs' tail where x: "x = (d, segs', tail)" by (cases x)
  obtain X where X: "log_of segs' = log_of segs @ X" using Cons.prems(1) log_of_grows by (auto simp: x)
  show ?case
  proof (cases "h = []")
    case True
    with Cons.prems X show ?thesis by (simp add: x disk_log_def)
  next
    case False
    with Cons.IH [of segs'] Cons.prems X show ?thesis by (auto simp: x)
  qed
qed simp

lemma poll_each_spec:
  assumes "grown_through js segs h" "tail_at js segs t" "0 < limit" "h \<noteq> []"
  shows "\<exists>t' batches. poll_each js limit (map fst h) t = Some (t', batches) \<and>
    concat batches @ above (AfterSeq t') (log_of (final h)) = above (AfterSeq t) (log_of (final h)) \<and>
    (\<forall>b \<in> set batches. length b \<le> nat limit) \<and> batches \<noteq> [] \<and>
    (nat limit \<le> length (last batches) \<or> above (AfterSeq t') (log_of (final h)) = [])"
  using assms
proof (induction h arbitrary: segs t)
  case (Cons x h)
  obtain d segs' tail where x: "x = (d, segs', tail)" by (cases x)
  have dl: "disk_log js d segs' tail" and g: "grows segs segs'" and h: "grown_through js segs' h"
    using Cons.prems(1) by (auto simp: x)
  let ?new = "take (nat limit) (above (AfterSeq t) (log_of segs'))" and ?L = "log_of (final (x # h))"
  obtain n1 t1 where p: "poll js (\<lambda>_. d) limit 0 t = Some (n1, t1, ?new, None)"
    and a1: "AfterSeq t1 = last (AfterSeq t # map r_Seq ?new)" and t1: "tail_at js segs' t1"
    using poll_stable [OF dl tail_at_grows [OF Cons.prems(2) g] Cons.prems(3), of 0] by blast
  obtain X where L: "?L = log_of segs' @ X" "ordered_segments (final (x # h))"
  proof (cases "h = []")
    case True
    then show thesis using dl that [of "[]"] by (simp add: x disk_log_def)
  next
    case False
    with grown_through_log [OF h] that show thesis by auto
  qed
  have "above (AfterSeq t) ?L = ?new @ drop (nat limit) (above (AfterSeq t) (log_of segs')) @ above (AfterSeq t) X"
    unfolding L(1) by simp
  then have rest: "?new @ above (AfterSeq t1) ?L = above (AfterSeq t) ?L"
    using above_split [OF ordered_log [OF L(2)]] a1 by metis
  show ?case
  proof (cases "h = []")
    case True
    then have "nat limit \<le> length ?new \<or> above (AfterSeq t1) ?L = []" using rest by (auto simp: x min_def)
    with True p rest show ?thesis by (simp add: x)
  next
    case False
    then have L2: "final (x # h) = final h" by simp
    obtain t2 bs where "poll_each js limit (map fst h) t1 = Some (t2, bs)"
      "concat bs @ above (AfterSeq t2) (log_of (final h)) = above (AfterSeq t1) (log_of (final h))"
      "\<forall>b \<in> set bs. length b \<le> nat limit" "bs \<noteq> []"
      "nat limit \<le> length (last bs) \<or> above (AfterSeq t2) (log_of (final h)) = []"
      using Cons.IH [OF h t1 Cons.prems(3) False] by blast
    with p rest show ?thesis unfolding L2
      by (intro exI [of _ t2] exI [of _ "?new # bs"]) (simp add: x)
  qed
qed simp

text \<open>C20: A tailer started at any position over a log that keeps growing, being appended to and
  rotated between polls, hands out the records above that position without loss, repetition or
  reordering: the batches so far are a prefix of them, no batch exceeds the limit, and a batch
  below the limit means that nothing is left to read.\<close>

theorem tail_ships_the_log_in_order:
  assumes "grown_through js segs h" "h \<noteq> []" "is_i64 a" "0 < limit"
  shows "\<exists>t batches. poll_each js limit (map fst h) (NewTailer a) = Some (t, batches) \<and>
    prefix (concat batches) (filter (\<lambda>r. r_Seq r > a) (log_of (final h))) \<and>
    (\<forall>b \<in> set batches. length b \<le> nat limit) \<and>
    (length (last batches) < nat limit \<longrightarrow> concat batches = filter (\<lambda>r. r_Seq r > a) (log_of (final h)))"
proof -
  obtain t batches where *: "poll_each js limit (map fst h) (NewTailer a) = Some (t, batches)"
    "concat batches @ above (AfterSeq t) (log_of (final h)) = above a (log_of (final h))"
    "\<forall>b \<in> set batches. length b \<le> nat limit"
    "nat limit \<le> length (last batches) \<or> above (AfterSeq t) (log_of (final h)) = []"
    using poll_each_spec [OF assms(1) tail_at_new [OF assms(3)] assms(4,2)] by (auto simp: AfterSeq_new)
  have "prefix (concat batches) (above a (log_of (final h)))" using *(2) by (metis prefixI)
  moreover have "concat batches = above a (log_of (final h))" if "length (last batches) < nat limit" using that *(2,4) by auto
  ultimately show ?thesis using *(1,3) by blast
qed

text \<open>A directory of one segment, for the evaluation.\<close>

definition single_disk :: "Json \<Rightarrow> Record list \<Rightarrow> Disk" where
  "single_disk js rs = \<lparr>files = [(segmentName 1, seg_bytes js rs)], write_ok = True, sync_ok = True\<rparr>"

lemma single_disk_log:
  assumes "\<And>r. r \<in> set rs \<Longrightarrow> loggable js r" "sorted_wrt (<) (0 # map r_Seq rs)"
  shows "disk_log js (single_disk js rs) [(1, rs)] []"
  using assms by (auto simp: disk_log_def single_disk_def wf_segments_def ordered_segments_def holds_segments_def
      torn_tail_def segmentPaths_def seq_ok_def max_i64_def seg_bytes_def)

theorem tail_ships_the_log_in_order_witness:
  "\<exists>t batches. poll_each demo_json 5 [single_disk demo_json (take 1 demo_log), single_disk demo_json demo_log] (NewTailer 1) = Some (t, batches) \<and>
    prefix (concat batches) (tl demo_log)"
proof -
  let ?h = "[(single_disk demo_json (take 1 demo_log), [(1, take 1 demo_log)], []), (single_disk demo_json demo_log, [(1, demo_log)], [])] :: history"
  have "grown_through demo_json [(1, [])] ?h"
    using single_disk_log [of demo_log demo_json] single_disk_log [of "take 1 demo_log" demo_json] demo_log_loggable
    by (auto simp: grows_def demo_log_def submit_record_def cancel_record_def dest: in_set_takeD)
  from tail_ships_the_log_in_order [OF this, of 1 5]
  show ?thesis by (auto simp: is_i64_def demo_log_def submit_record_def cancel_record_def)
qed

section \<open>A record rotated away between two accesses\<close>

text \<open>One read of a segment whose records are all new and fit the batch.\<close>

lemma read_loop_all:
  assumes "sorted_wrt (<) (tl_afterSeq t # map r_Seq xs)" "int (length (out @ xs)) < limit"
  shows "read_loop limit (with_offsets js off xs) None t out =
    (if xs = [] then t else t\<lparr>tl_afterSeq := last (map r_Seq xs), tl_offset := off + length (enc_all js xs)\<rparr>, out @ xs, None)"
  using assms
proof (induction xs arbitrary: t out off)
  case (Cons x xs)
  have "read_loop limit (with_offsets js off (x # xs)) None t out =
      read_loop limit (with_offsets js (off + length (enc js x)) xs) None (t\<lparr>tl_offset := off + length (enc js x), tl_afterSeq := r_Seq x\<rparr>) (out @ [x])"
    using Cons.prems by (auto simp: Let_def)
  with Cons.IH [of "t\<lparr>tl_offset := off + length (enc js x), tl_afterSeq := r_Seq x\<rparr>" "out @ [x]"] Cons.prems
  show ?case by (auto simp: add.assoc)
qed simp

lemma readSegment_all:
  assumes "disk_log js d segs tail" "stands_at js segs pre s rs post j t" "sorted_wrt (<) (tl_afterSeq t # map r_Seq (drop j rs))"
    "int (length (drop j rs)) < limit"
  shows "\<exists>t'. readSegment js d t limit = (t', drop j rs, None) \<and> tl_segment t' = tl_segment t \<and>
    tl_afterSeq t' = last (tl_afterSeq t # map r_Seq (drop j rs)) \<and>
    tl_offset t' = walHeaderSize + length (enc_all js rs)"
proof -
  let ?off = "walHeaderSize + length (enc_all js (take j rs))"
  have segs: "segs = pre @ (s, rs) # post" "j \<le> length rs" "tl_segment t = segmentName s" "tl_offset t = ?off"
    using assms(2) by (auto simp: stands_at_def)
  obtain bs off where bs: "OpenReaderAt d (segmentName s) ?off = Inr bs" "Records js bs ?off = (with_offsets js ?off (drop j rs), off, None)"
    using reader_at [OF assms(1) segs(1,2)] by blast
  have len: "length (enc_all js rs) = length (enc_all js (take j rs)) + length (enc_all js (drop j rs))"
    by (metis append_take_drop_id enc_all_simps(3) length_append)
  have "readSegment js d t limit = read_loop limit (with_offsets js ?off (drop j rs)) None t []"
    by (simp add: readSegment_def segs(3,4) bs)
  also have "\<dots> = (if drop j rs = [] then t else t\<lparr>tl_afterSeq := last (map r_Seq (drop j rs)), tl_offset := ?off + length (enc_all js (drop j rs))\<rparr>, drop j rs, None)"
    using read_loop_all [OF assms(3), of "[]" limit js ?off] assms(4) by simp
  finally show ?thesis using len segs(2,4) by (cases "drop j rs = []") simp_all
qed

text \<open>
  A directory whose only segment holds \<open>r1\<close>; later \<open>r2\<close> was appended to it and \<open>r3\<close> opened the next
  segment. When this happens after the read that found the first segment exhausted and before
  the listing that looks for the next one, \<open>poll\<close> hands out \<open>r1\<close> and \<open>r3\<close> and stands behind
  both: \<open>r2\<close> is never shipped.
\<close>

lemma poll_skips_a_record_rotated_away:
  assumes d1: "disk_log js d1 [(1, [r1])] []" and d2: "disk_log js d2 [(1, [r1, r2]), (3, [r3])] []"
    and seqs: "r_Seq r1 = 1" "r_Seq r2 = 2" "r_Seq r3 = 3" and limit: "2 < limit"
  shows "grows [(1, [r1])] [(1, [r1, r2]), (3, [r3])] \<and>
    (\<exists>n t. poll js (\<lambda>n. if n < 3 then d1 else d2) limit 0 (NewTailer 0) = Some (n, t, [r1, r3], None) \<and> AfterSeq t = 3)"
proof -
  let ?S1 = "[(1, [r1])] :: segments" and ?S2 = "[(1, [r1, r2]), (3, [r3])] :: segments"
  let ?dir = "\<lambda>n :: nat. if n < 3 then d1 else d2"
  obtain t0 pre s rs post where l: "locateSegment d1 (NewTailer 0) = (t0, None)" "stands_at js ?S1 pre s rs post 0 t0" "tl_afterSeq t0 = 0"
    using locateSegment_spec [OF d1, of "NewTailer 0"] by (auto simp: NewTailer_def is_i64_def)
  then have st0: "stands_at js ?S1 [] 1 [r1] [] 0 t0" by (auto simp: stands_at_def Cons_eq_append_conv)
  then have seg0: "tl_segment t0 = segmentName 1" by (simp add: stands_at_def)
  obtain t1 where t1: "readSegment js d1 t0 limit = (t1, [r1], None)" "tl_segment t1 = segmentName 1" "tl_afterSeq t1 = 1"
    "tl_offset t1 = walHeaderSize + length (enc_all js [r1])"
    using readSegment_all [OF d1 st0, of limit] seqs limit l(3) seg0 by auto
  have st1: "stands_at js ?S1 [] 1 [r1] [] 1 t1" using t1 seqs by (simp add: stands_at_def)
  obtain t2 where t2: "readSegment js d1 t1 (limit - 1) = (t2, [], None)" "tl_segment t2 = segmentName 1" "tl_afterSeq t2 = 1"
    using readSegment_all [OF d1 st1, of "limit - 1"] limit t1(2,3) by auto
  have next2: "nextSegment d2 t2 = segmentName 3"
    using nextSegment_spec [OF d2, of "[]" 1 "[r1, r2]" "[(3, [r3])]" t2] t2 by simp
  let ?t3 = "t2\<lparr>tl_segment := segmentName 3, tl_offset := walHeaderSize\<rparr>"
  have "readSegment js d2 ?t3 (limit - 1) = read_loop (limit - 1) (with_offsets js walHeaderSize [r3]) None ?t3 []"
    using reader_at [OF d2, of "[(1, [r1, r2])]" 3 "[r3]" "[]" 0] by (auto simp: readSegment_def)
  then have "readSegment js d2 ?t3 (limit - 1) =
      (?t3\<lparr>tl_offset := walHeaderSize + length (enc_all js [r3]), tl_afterSeq := 3\<rparr>, [r3], None)"
    using limit seqs t2(3) by (simp add: Let_def)
  then obtain t4 where t4: "readSegment js d2 ?t3 (limit - 1) = (t4, [r3], None)" "tl_segment t4 = segmentName 3" "tl_afterSeq t4 = 3"
    "tl_offset t4 = walHeaderSize + length (enc_all js [r3])"
    by (rule that) simp_all
  obtain bs off where "OpenReaderAt d2 (segmentName 3) (walHeaderSize + length (enc_all js [r3])) = Inr bs"
    "Records js bs (walHeaderSize + length (enc_all js [r3])) = ([], off, None)"
    using reader_at [OF d2, of "[(1, [r1, r2])]" 3 "[r3]" "[]" 1] by auto
  then have t5: "readSegment js d2 t4 (limit - 2) = (t4, [], None)" by (simp add: readSegment_def t4)
  have next4: "nextSegment d2 t4 = []" using nextSegment_spec [OF d2, of "[(1, [r1, r2])]" 3 "[r3]" "[]" t4] t4 by simp
  have ne: "tl_segment (NewTailer 0) = []" by (simp add: NewTailer_def)
  have 1: "poll_turn js ?dir limit 0 (NewTailer 0) [] = (2, t1, [r1], None)"
    by (simp add: poll_turn_def ne l(1) seg0 read_turn_def t1(1))
  have 2: "poll_turn js ?dir limit 2 t1 [r1] = (4, ?t3, [r1], None)"
    by (simp add: poll_turn_def t1(2) read_turn_def t2(1) advance_def next2)
  have 3: "poll_turn js ?dir limit 4 ?t3 [r1] = (5, t4, [r1, r3], None)"
    by (simp add: poll_turn_def read_turn_def t4(1))
  have 4: "poll_turn js ?dir limit 5 t4 [r1, r3] = (7, t4, [r1, r3], Some None)"
    by (simp add: poll_turn_def t4(2) read_turn_def t5 advance_def next4)
  have "poll js ?dir limit 0 (NewTailer 0) = Some (7, t4, [r1, r3], None)"
    using limit by (simp add: poll_def poll_loop.simps 1 2 3 4)
  moreover have "grows ?S1 ?S2" by (auto simp: grows_def)
  ultimately show ?thesis using t4(3) by (auto simp: AfterSeq_def)
qed

end
