(* ===== verification/OMS_Tail_Term.thy ===== *)
theory OMS_Tail_Term
  imports OMS_Tail_Props
begin

text \<open>
  A poll on a directory that may hold anything: foreign files, torn or damaged segments. It
  returns, because every turn collects a record or moves to a later segment name, and what it
  collected is in order.
\<close>

section \<open>Collected records are in order\<close>

definition in_order :: "int \<Rightarrow> Tailer \<Rightarrow> Record list \<Rightarrow> bool" where
  "in_order a t out \<longleftrightarrow> sorted_wrt (<) (a # map r_Seq out) \<and> tl_afterSeq t = last (a # map r_Seq out)"

lemma last_of_sorted:
  fixes a :: int
  shows "sorted_wrt (<) (a # xs) \<Longrightarrow> x \<in> set (a # xs) \<Longrightarrow> x \<le> last (a # xs)"
proof (induction xs arbitrary: a x)
  case (Cons y ys)
  then have "y \<le> last (y # ys)" "x \<in> set (y # ys) \<Longrightarrow> x \<le> last (y # ys)" "a < y" by simp_all
  with Cons.prems(2) show ?case by (auto simp del: last.simps) (simp_all)
qed simp

lemma sorted_join:
  fixes a :: int
  assumes "sorted_wrt (<) (a # xs)" "sorted_wrt (<) (last (a # xs) # ys)"
  shows "sorted_wrt (<) (a # xs @ ys)"
proof -
  have "x < y" if "x \<in> set (a # xs)" "y \<in> set ys" for x y
    using last_of_sorted [OF assms(1) that(1)] assms(2) that(2) by auto
  then show ?thesis using assms by (auto simp: sorted_wrt_append)
qed

lemma in_order_append:
  assumes "in_order a t out" "in_order (tl_afterSeq t) t' new"
  shows "in_order a t' (out @ new)"
  using assms sorted_join [of a "map r_Seq out" "map r_Seq new"] last_append_filter [of a r_Seq out new]
  by (simp add: in_order_def)

lemma read_loop_in_order:
  assumes "read_loop limit rs e t out = (t', out', e')" "in_order a t out" "int (length out) < limit"
  shows "in_order a t' out' \<and> int (length out') \<le> limit \<and> tl_segment t' = tl_segment t"
  using assms
proof (induction rs arbitrary: t out)
  case (Cons x rs)
  obtain rec off where x: "x = (rec, off)" by (cases x)
  let ?t1 = "t\<lparr>tl_offset := off\<rparr>" and ?t2 = "t\<lparr>tl_offset := off, tl_afterSeq := r_Seq rec\<rparr>"
  show ?case
  proof (cases "r_Seq rec \<le> tl_afterSeq t")
    case True
    then show ?thesis using Cons.IH [of ?t1 out] Cons.prems by (simp add: x Let_def in_order_def)
  next
    case False
    have o2: "in_order a ?t2 (out @ [rec])"
      using in_order_append [OF Cons.prems(2), of ?t2 "[rec]"] False by (simp add: in_order_def)
    show ?thesis
    proof (cases "limit \<le> int (length (out @ [rec]))")
      case True
      then have "t' = ?t2" "out' = out @ [rec]" using Cons.prems(1) False by (auto simp: x Let_def)
      with o2 True Cons.prems(3) show ?thesis by simp
    next
      case f: False
      then have "read_loop limit rs e ?t2 (out @ [rec]) = (t', out', e')" using Cons.prems(1) False by (simp add: x Let_def)
      from Cons.IH [OF this o2] f show ?thesis by simp
    qed
  qed
qed simp

lemma readSegment_in_order:
  assumes "readSegment js d t limit = (t', out, e)" "0 < limit"
  shows "in_order (tl_afterSeq t) t' out \<and> int (length out) \<le> limit \<and> tl_segment t' = tl_segment t"
proof (cases "OpenReaderAt d (tl_segment t) (tl_offset t)")
  case (Inl err)
  then show ?thesis using assms by (auto simp: readSegment_def in_order_def)
next
  case (Inr rest)
  obtain rs m err where r: "Records js rest (tl_offset t) = (rs, m, err)" by (cases "Records js rest (tl_offset t)")
  then have "read_loop limit rs err t [] = (t', out, e)" using assms(1) Inr by (simp add: readSegment_def)
  from read_loop_in_order [OF this, of "tl_afterSeq t"] assms(2) show ?thesis by (simp add: in_order_def)
qed

section \<open>Segments ahead\<close>

lemma next_after_in: "next_after x ps \<noteq> [] \<Longrightarrow> next_after x ps \<in> set (tl ps)"
  by (induction x ps rule: next_after.induct) (auto split: if_splits)

lemma next_after_later:
  "distinct ps \<Longrightarrow> next_after x ps \<noteq> [] \<Longrightarrow>
     length (dropWhile (\<lambda>p. p \<noteq> next_after x ps) ps) < length (dropWhile (\<lambda>p. p \<noteq> x) ps)"
proof (induction x ps rule: next_after.induct)
  case (1 x p q ps)
  show ?case
  proof (cases "p = x")
    case False
    then have "next_after x (q # ps) \<noteq> []" using "1.prems"(2) by simp
    with next_after_in [OF this] have "next_after x (q # ps) \<in> set (q # ps)" by (cases ps) auto
    then have "p \<noteq> next_after x (q # ps)" using "1.prems"(1) by auto
    with "1.IH" [OF False] "1.prems" False show ?thesis by simp
  qed (use "1.prems" in auto)
qed simp_all

definition to_go :: "Disk \<Rightarrow> int \<Rightarrow> Tailer \<Rightarrow> Record list \<Rightarrow> nat" where
  "to_go d limit t out =
     (if tl_segment t = [] then Suc (length (segmentPaths d))
      else length (dropWhile (\<lambda>p. p \<noteq> tl_segment t) (segmentPaths d))) * Suc (nat limit) + (nat limit - length out)"

lemma distinct_segmentPaths: "distinct (map fst (files d)) \<Longrightarrow> distinct (segmentPaths d)"
  by (simp add: segmentPaths_def)

text \<open>One turn of the loop either returns or gets closer to the end.\<close>

definition turn_safe :: "Disk \<Rightarrow> int \<Rightarrow> int \<Rightarrow> Tailer \<Rightarrow> Record list \<Rightarrow> turn \<Rightarrow> bool" where
  "turn_safe d limit a t out r = (case r of (n', t', out', stop) \<Rightarrow>
     sorted_wrt (<) (a # map r_Seq out') \<and> int (length out') \<le> limit \<and>
     (stop = None \<longrightarrow> in_order a t' out' \<and> to_go d limit t' out' < to_go d limit t out))"

lemma read_turn_safe:
  assumes d: "distinct (map fst (files d))" and o: "in_order a t out" "int (length out) < limit" and seg: "tl_segment t \<noteq> []"
  shows "turn_safe d limit a t out (read_turn js (\<lambda>_. d) limit n t out)"
proof -
  obtain t' new e where r: "readSegment js d t (limit - int (length out)) = (t', new, e)" by (cases "readSegment js d t (limit - int (length out))")
  have new: "in_order (tl_afterSeq t) t' new" "int (length (out @ new)) \<le> limit" "tl_segment t' = tl_segment t"
    using readSegment_in_order [OF r] o(2) by auto
  note ao = in_order_append [OF o(1) new(1)]
  have s: "sorted_wrt (<) (a # map r_Seq out)" using o(1) by (simp add: in_order_def)
  show ?thesis
  proof (cases e)
    case (Some err)
    then show ?thesis using r s o(2) by (simp add: read_turn_def turn_safe_def)
  next
    case None
    show ?thesis
    proof (cases "new = []")
      case False
      have "to_go d limit t' (out @ new) < to_go d limit t out"
      proof -
        have "nat limit - length (out @ new) < nat limit - length out" using False o(2) by (cases new) auto
        then show ?thesis using new(3) seg by (simp only: to_go_def if_False add_strict_left_mono)
      qed
      moreover have "read_turn js (\<lambda>_. d) limit n t out = (Suc n, t', out @ new, None)" using r None False by (simp add: read_turn_def)
      moreover have "sorted_wrt (<) (a # map r_Seq (out @ new))" using ao unfolding in_order_def by blast
      ultimately show ?thesis using ao new(2) by (simp only: turn_safe_def prod.case simp_thms)
    next
      case True
      then have ao': "in_order a t' out" using ao by simp
      show ?thesis
      proof (cases "nextSegment d t' = []")
        case True
        then show ?thesis using r None \<open>new = []\<close> s o(2) by (simp add: read_turn_def advance_def turn_safe_def)
      next
        case False
        let ?t2 = "t'\<lparr>tl_segment := nextSegment d t', tl_offset := walHeaderSize\<rparr>"
        have "length (dropWhile (\<lambda>p. p \<noteq> nextSegment d t') (segmentPaths d)) < length (dropWhile (\<lambda>p. p \<noteq> tl_segment t) (segmentPaths d))"
          using next_after_later [OF distinct_segmentPaths [OF d]] False new(3) unfolding nextSegment_def by simp
        then have "to_go d limit ?t2 out < to_go d limit t out"
          using False seg by (simp add: to_go_def del: mult_Suc_right)
        then show ?thesis using r None \<open>new = []\<close> False ao' s o(2) by (simp add: read_turn_def advance_def turn_safe_def in_order_def Let_def)
      qed
    qed
  qed
qed

lemma locateSegment_frame:
  assumes "locateSegment d t = (t1, e)"
  shows "tl_afterSeq t1 = tl_afterSeq t" "tl_segment t = [] \<Longrightarrow> tl_segment t1 \<noteq> [] \<Longrightarrow> to_go d limit t1 out \<le> to_go d limit t out"
proof -
  show "tl_afterSeq t1 = tl_afterSeq t" using assms by (auto simp: locateSegment_def split: list.splits sum.splits)
  have "length (dropWhile P (segmentPaths d)) \<le> Suc (length (segmentPaths d))" for P
    using length_dropWhile_le [of P "segmentPaths d"] by simp
  then have "length (dropWhile P (segmentPaths d)) * Suc (nat limit) \<le> Suc (length (segmentPaths d)) * Suc (nat limit)" for P
    by (rule mult_le_mono1)
  then show "to_go d limit t1 out \<le> to_go d limit t out" if "tl_segment t = []" "tl_segment t1 \<noteq> []"
    using that by (simp only: to_go_def if_True if_False add_le_mono1 simp_thms)
qed

lemma poll_turn_safe:
  assumes d: "distinct (map fst (files d))" and o: "in_order a t out" "int (length out) < limit"
  shows "turn_safe d limit a t out (poll_turn js (\<lambda>_. d) limit n t out)"
proof (cases "tl_segment t = []")
  case True
  obtain t1 e where l: "locateSegment d t = (t1, e)" by (cases "locateSegment d t")
  have o1: "in_order a t1 out" using o(1) locateSegment_frame(1) [OF l] by (simp add: in_order_def)
  show ?thesis
  proof (cases "e = None \<and> tl_segment t1 \<noteq> []")
    case t1: True
    then have "poll_turn js (\<lambda>_. d) limit n t out = read_turn js (\<lambda>_. d) limit (Suc n) t1 out"
      using True l by (simp add: poll_turn_def)
    moreover have "turn_safe d limit a t1 out (read_turn js (\<lambda>_. d) limit (Suc n) t1 out)"
      using read_turn_safe [OF d o1 o(2)] t1 by blast
    ultimately show ?thesis
      using locateSegment_frame(2) [OF l True, of limit out] t1 by (auto simp: turn_safe_def)
  next
    case False
    then show ?thesis using True l o by (cases e) (auto simp: poll_turn_def turn_safe_def in_order_def)
  qed
next
  case False
  then show ?thesis using read_turn_safe [OF d o] by (simp add: poll_turn_def)
qed

lemma poll_loop_safe:
  assumes d: "distinct (map fst (files d))"
  shows "in_order a t out \<Longrightarrow> int (length out) \<le> limit \<Longrightarrow>
    \<exists>n' t' out' e. poll_loop js (\<lambda>_. d) limit n t out = Some (n', t', out', e) \<and>
      sorted_wrt (<) (a # map r_Seq out') \<and> int (length out') \<le> limit"
proof (induction "to_go d limit t out" arbitrary: n t out rule: less_induct)
  case less
  show ?case
  proof (cases "int (length out) < limit")
    case True
    obtain n1 t1 out1 stop where turn: "poll_turn js (\<lambda>_. d) limit n t out = (n1, t1, out1, stop)"
      by (cases "poll_turn js (\<lambda>_. d) limit n t out")
    have s: "sorted_wrt (<) (a # map r_Seq out1)" "int (length out1) \<le> limit"
      "stop = None \<Longrightarrow> in_order a t1 out1 \<and> to_go d limit t1 out1 < to_go d limit t out"
      using poll_turn_safe [OF d less.prems(1) True, of js n] unfolding turn turn_safe_def by simp_all
    have step: "poll_loop js (\<lambda>_. d) limit n t out =
        (case stop of Some e \<Rightarrow> Some (n1, t1, out1, e) | None \<Rightarrow> poll_loop js (\<lambda>_. d) limit n1 t1 out1)"
      using True turn by (subst poll_loop.simps) (simp split: option.split)
    show ?thesis
    proof (cases stop)
      case None
      then show ?thesis using less.hyps [of t1 out1 n1] s step by simp
    qed (use s step in simp)
  next
    case False
    then show ?thesis using less.prems by (subst poll_loop.simps) (simp add: in_order_def)
  qed
qed

text \<open>C33: A poll returns whatever the directory holds, torn and damaged segments and foreign files
  included: it never loops, it hands out at most as many records as asked for, and their
  positions increase strictly from above the one the tailer had reached, so that a consumer
  never sees a position twice or out of order, even from a log that is wrong.\<close>

theorem poll_returns_in_order:
  assumes "distinct (map fst (files d))" "0 \<le> limit"
  shows "\<exists>n' t' records e. poll js (\<lambda>_. d) limit n t = Some (n', t', records, e) \<and>
    sorted_wrt (<) (AfterSeq t # map r_Seq records) \<and> length records \<le> nat limit"
proof -
  have "in_order (tl_afterSeq t) t []" by (simp add: in_order_def)
  from poll_loop_safe [OF assms(1) this, of limit js n] assms(2) obtain n' t' out e where
    "poll_loop js (\<lambda>_. d) limit n t [] = Some (n', t', out, e)" "sorted_wrt (<) (tl_afterSeq t # map r_Seq out)" "int (length out) \<le> limit"
    by auto
  moreover from this(3) have "length out \<le> nat limit" by linarith
  ultimately show ?thesis by (simp add: poll_def AfterSeq_def)
qed

text \<open>A directory with an unreadable segment and a foreign file.\<close>

definition odd_disk :: Disk where
  "odd_disk = \<lparr>files = [(segmentName 1, [1, 2, 3]), (''notes.txt'', []), (''x.wal'', [0])], write_ok = True, sync_ok = True\<rparr>"

theorem poll_returns_in_order_witness:
  "\<exists>n' t' records e. poll demo_json (\<lambda>_. odd_disk) 5 0 (NewTailer 0) = Some (n', t', records, e) \<and> length records \<le> 5"
proof -
  have "distinct (map fst (files odd_disk))" by code_simp
  from poll_returns_in_order [OF this, of 5 demo_json 0 "NewTailer 0"] show ?thesis by auto
qed

end
