(* ===== verification/OMS_Feed.thy ===== *)
theory OMS_Feed
  imports OMS_Types "HOL-Library.Sublist"
begin

text \<open>
  The live trade feed of \<open>internal/api/feed.go\<close>: one symbol's trades are fanned out to its
  subscribers over bounded channels, without ever waiting for one. A channel is the list of
  batches it buffers; sending to a full one is the \<open>default\<close> branch of the \<open>select\<close>.
\<close>

section \<open>The feed\<close>

definition feedBuffer :: nat where
  "feedBuffer = 256"

record tradeBatch =
  tb_symbol :: string
  tb_trades :: "Trade list"

text \<open>\<open>f_onDrop\<close> says whether a drop callback is attached.\<close>

record tradeFeed =
  f_onDrop :: bool
  f_subs :: "(int, tradeBatch list) gomap"
  f_nextID :: int

definition newTradeFeed :: tradeFeed where
  "newTradeFeed = \<lparr>f_onDrop = False, f_subs = [], f_nextID = 0\<rparr>"

definition subscribe :: "tradeFeed \<Rightarrow> tradeFeed \<times> int" where
  "subscribe f =
     (let i = add64 (f_nextID f) 1 in (f\<lparr>f_nextID := i, f_subs := gput i [] (f_subs f)\<rparr>, i))"

definition unsubscribe :: "int \<Rightarrow> tradeFeed \<Rightarrow> tradeFeed" where
  "unsubscribe i f = f\<lparr>f_subs := gdel i (f_subs f)\<rparr>"

text \<open>\<open>publish\<close>: the feed afterwards and how often the drop callback ran.\<close>

definition offer :: "tradeBatch \<Rightarrow> tradeBatch list \<Rightarrow> tradeBatch list" where
  "offer batch ch = (if length ch < feedBuffer then ch @ [batch] else ch)"

definition feed_publish :: "string \<Rightarrow> Trade list \<Rightarrow> tradeFeed \<Rightarrow> tradeFeed \<times> nat" where
  "feed_publish symbol trades f =
     (let batch = \<lparr>tb_symbol = symbol, tb_trades = trades\<rparr>;
          drops = length (filter (\<lambda>(i, ch). \<not> length ch < feedBuffer) (f_subs f))
      in (f\<lparr>f_subs := map (\<lambda>(i, ch). (i, offer batch ch)) (f_subs f)\<rparr>, if f_onDrop f then drops else 0))"

definition subscriberCount :: "tradeFeed \<Rightarrow> nat" where
  "subscriberCount f = length (f_subs f)"

text \<open>A subscriber takes the oldest batch its channel buffers; \<open>None\<close> is an empty channel.\<close>

definition feed_receive :: "int \<Rightarrow> tradeFeed \<Rightarrow> (tradeFeed \<times> tradeBatch) option" where
  "feed_receive i f = (case map_of (f_subs f) i of
     Some (b # ch) \<Rightarrow> Some (f\<lparr>f_subs := gput i ch (f_subs f)\<rparr>, b)
   | _ \<Rightarrow> None)"

section \<open>One subscriber's view of a run\<close>

datatype feed_event = Published string "Trade list" | Received_by int | Joined | Left int

text \<open>The feed after an event and what subscriber \<open>i\<close> received in it.\<close>

definition feed_step :: "int \<Rightarrow> feed_event \<Rightarrow> tradeFeed \<Rightarrow> tradeFeed \<times> tradeBatch list" where
  "feed_step i e f = (case e of
     Published symbol trades \<Rightarrow> (fst (feed_publish symbol trades f), [])
   | Received_by k \<Rightarrow> (case feed_receive k f of None \<Rightarrow> (f, []) | Some (f', b) \<Rightarrow> (f', if k = i then [b] else []))
   | Joined \<Rightarrow> (fst (subscribe f), [])
   | Left k \<Rightarrow> (unsubscribe k f, []))"

fun feed_run :: "int \<Rightarrow> feed_event list \<Rightarrow> tradeFeed \<Rightarrow> tradeFeed \<times> tradeBatch list" where
  "feed_run i [] f = (f, [])"
| "feed_run i (e # es) f =
     (let (f1, got) = feed_step i e f; (f2, rest) = feed_run i es f1 in (f2, got @ rest))"

fun published :: "feed_event list \<Rightarrow> tradeBatch list" where
  "published [] = []"
| "published (Published symbol trades # es) = \<lparr>tb_symbol = symbol, tb_trades = trades\<rparr> # published es"
| "published (_ # es) = published es"

definition queued :: "int \<Rightarrow> tradeFeed \<Rightarrow> tradeBatch list" where
  "queued i f = (case map_of (f_subs f) i of None \<Rightarrow> [] | Some ch \<Rightarrow> ch)"

definition subscribed :: "int \<Rightarrow> tradeFeed \<Rightarrow> bool" where
  "subscribed i f \<longleftrightarrow> map_of (f_subs f) i \<noteq> None"

lemma map_of_map_snd: "map_of (map (\<lambda>(k, v). (k, g v)) xs) i = map_option g (map_of xs i)"
  by (induction xs) auto

lemma feed_publish_view:
  "queued i (fst (feed_publish s ts f)) =
     (if subscribed i f then offer \<lparr>tb_symbol = s, tb_trades = ts\<rparr> (queued i f) else [])"
  "subscribed k (fst (feed_publish s ts f)) = subscribed k f"
  "f_nextID (fst (feed_publish s ts f)) = f_nextID f"
  by (auto simp: feed_publish_def Let_def queued_def subscribed_def map_of_map_snd split: option.split)

text \<open>A subscriber that has room in its channel at every publication.\<close>

fun keeps_up :: "int \<Rightarrow> feed_event list \<Rightarrow> tradeFeed \<Rightarrow> bool" where
  "keeps_up i [] f \<longleftrightarrow> True"
| "keeps_up i (e # es) f \<longleftrightarrow>
     (case e of Published symbol trades \<Rightarrow> length (queued i f) < feedBuffer | _ \<Rightarrow> True) \<and> keeps_up i es (fst (feed_step i e f))"

definition joins :: "feed_event list \<Rightarrow> nat" where
  "joins es = length (filter (\<lambda>e. e = Joined) es)"

definition settled_in :: "int \<Rightarrow> tradeFeed \<Rightarrow> bool" where
  "settled_in i f \<longleftrightarrow> subscribed i f \<and> 0 \<le> f_nextID f \<and> i \<le> f_nextID f \<and> length (queued i f) \<le> feedBuffer"

lemma feed_step_view:
  assumes "settled_in i f" "f_nextID f + int (joins [e]) \<le> max_i64" "e \<noteq> Left i" "feed_step i e f = (f', got)"
  shows "settled_in i f'" "f_nextID f' = f_nextID f + int (joins [e])"
    "subseq (got @ queued i f') (queued i f @ published [e])"
    "keeps_up i [e] f \<Longrightarrow> got @ queued i f' = queued i f @ published [e]"
proof -
  have "settled_in i f' \<and> f_nextID f' = f_nextID f + int (joins [e]) \<and> subseq (got @ queued i f') (queued i f @ published [e]) \<and>
    (keeps_up i [e] f \<longrightarrow> got @ queued i f' = queued i f @ published [e])"
  proof (cases e)
    case (Published s ts)
    with assms have f': "f' = fst (feed_publish s ts f)" "got = []" by (auto simp: feed_step_def)
    then show ?thesis using assms(1) Published
      by (auto simp: settled_in_def feed_publish_view offer_def joins_def)
  next
    case (Received_by k)
    show ?thesis
    proof (cases "feed_receive k f")
      case None
      with assms Received_by show ?thesis by (simp add: feed_step_def joins_def)
    next
      case (Some p)
      then obtain b ch where "map_of (f_subs f) k = Some (b # ch)" "p = (f\<lparr>f_subs := gput k ch (f_subs f)\<rparr>, b)"
        by (auto simp: feed_receive_def split: option.splits list.splits)
      with assms Received_by Some show ?thesis
        by (auto simp: feed_step_def joins_def settled_in_def subscribed_def queued_def)
    qed
  next
    case Joined
    have "add64 (f_nextID f) 1 = f_nextID f + 1"
      using assms(1,2) Joined by (simp add: joins_def settled_in_def add64_def is_i64_def max_i64_def)
    with assms Joined show ?thesis
      by (auto simp: feed_step_def joins_def subscribe_def Let_def settled_in_def subscribed_def queued_def)
  next
    case (Left k)
    with assms show ?thesis
      by (auto simp: feed_step_def joins_def unsubscribe_def settled_in_def subscribed_def queued_def)
  qed
  then show "settled_in i f'" "f_nextID f' = f_nextID f + int (joins [e])"
    "subseq (got @ queued i f') (queued i f @ published [e])"
    "keeps_up i [e] f \<Longrightarrow> got @ queued i f' = queued i f @ published [e]" by blast+
qed

lemma published_Cons: "published (e # es) = published [e] @ published es"
  by (cases e) auto

lemma joins_Cons: "joins (e # es) = joins [e] + joins es"
  by (simp add: joins_def)

lemma feed_run_view:
  assumes "settled_in i f" "f_nextID f + int (joins es) \<le> max_i64" "Left i \<notin> set es" "feed_run i es f = (f', got)"
  shows "length (queued i f') \<le> feedBuffer \<and> subseq (got @ queued i f') (queued i f @ published es) \<and>
    (keeps_up i es f \<longrightarrow> got @ queued i f' = queued i f @ published es)"
  using assms
proof (induction es arbitrary: f got)
  case Nil
  then show ?case by (simp add: settled_in_def)
next
  case (Cons e es)
  obtain f1 got1 where 1: "feed_step i e f = (f1, got1)" by (cases "feed_step i e f")
  obtain got2 where 2: "feed_run i es f1 = (f', got2)" "got = got1 @ got2" using Cons.prems(4) 1 by (auto split: prod.splits)
  have j: "f_nextID f + int (joins [e]) + int (joins es) \<le> max_i64" using Cons.prems(2) unfolding joins_Cons [of e es] by simp
  have step: "settled_in i f1" "f_nextID f1 = f_nextID f + int (joins [e])"
    "subseq (got1 @ queued i f1) (queued i f @ published [e])" "keeps_up i [e] f \<Longrightarrow> got1 @ queued i f1 = queued i f @ published [e]"
    using feed_step_view [OF Cons.prems(1) _ _ 1] j Cons.prems(3) by auto
  have ih: "length (queued i f') \<le> feedBuffer \<and> subseq (got2 @ queued i f') (queued i f1 @ published es) \<and>
      (keeps_up i es f1 \<longrightarrow> got2 @ queued i f' = queued i f1 @ published es)"
    by (rule Cons.IH) (use step j Cons.prems(3) 2 in auto)
  have "subseq (got1 @ got2 @ queued i f') (got1 @ queued i f1 @ published es)" using ih by (simp add: list_emb_append_mono)
  also have "subseq \<dots> ((queued i f @ published [e]) @ published es)"
    using list_emb_append_mono [OF step(3), of "published es" "published es"] by simp
  finally have "subseq (got @ queued i f') (queued i f @ published (e # es))" unfolding 2(2) published_Cons [of e es] by simp
  moreover have "got @ queued i f' = queued i f @ published (e # es)" if "keeps_up i (e # es) f"
  proof -
    have "keeps_up i [e] f" "keeps_up i es f1" using that 1 by auto
    then show ?thesis using step(4) ih by (metis 2(2) append.assoc published_Cons)
  qed
  ultimately show ?case using ih by blast
qed

section \<open>The promise\<close>

text \<open>C34: Whatever else happens on the feed, the batches a subscriber has received since it
  subscribed, followed by those waiting in its channel, are a subsequence of the batches
  published since then, so trades arrive in matching order and none is invented or repeated;
  its channel never holds more than the buffer; and a subscriber that always has room misses
  nothing.\<close>

theorem feed_preserves_matching_order:
  assumes "subscribe f0 = (f, i)" "0 \<le> f_nextID f0" "f_nextID f0 + 1 + int (joins es) \<le> max_i64"
    "Left i \<notin> set es" "feed_run i es f = (f', got)"
  shows "subseq (got @ queued i f') (published es) \<and> length (queued i f') \<le> feedBuffer \<and>
    (keeps_up i es f \<longrightarrow> got @ queued i f' = published es)"
proof -
  have id: "add64 (f_nextID f0) 1 = f_nextID f0 + 1"
    using assms(2,3) by (simp add: add64_def is_i64_def max_i64_def)
  have "settled_in i f" "queued i f = []" "f_nextID f = f_nextID f0 + 1"
    using assms(1,2) by (auto simp: subscribe_def Let_def id settled_in_def subscribed_def queued_def)
  with feed_run_view [OF _ _ assms(4,5)] assms(3) show ?thesis by simp
qed

definition demo_events :: "feed_event list" where
  "demo_events = [Published ''NABIL'' [], Joined, Received_by 1, Published ''NABIL'' [], Left 2, Received_by 1]"

theorem feed_preserves_matching_order_witness:
  "snd (feed_run 1 demo_events (fst (subscribe newTradeFeed))) = published demo_events"
proof -
  have s: "subscribe newTradeFeed = (fst (subscribe newTradeFeed), 1)" by code_simp
  have k: "keeps_up 1 demo_events (fst (subscribe newTradeFeed))" by code_simp
  have q: "queued 1 (fst (feed_run 1 demo_events (fst (subscribe newTradeFeed)))) = []" by code_simp
  have "f_nextID newTradeFeed = 0" "f_nextID newTradeFeed + 1 + int (joins demo_events) \<le> max_i64" "Left 1 \<notin> set demo_events"
    by (simp_all add: newTradeFeed_def demo_events_def joins_def max_i64_def)
  with feed_preserves_matching_order [OF s, of demo_events] k q show ?thesis
    by (metis append_Nil2 order_refl prod.collapse)
qed

end
