(* ===== verification/OMS_Wire.thy ===== *)
theory OMS_Wire
  imports OMS_Wal_Props
begin

text \<open>
  The messages of \<open>proto/dhukuti/oms/v1/oms.proto\<close> that carry orders, trades and log records, and
  the conversions of \<open>internal/api\<close> between them and the domain types. An enum of the protocol is
  open: a peer may send a number this version has no name for.

  A point in time travels as nanoseconds since the Unix epoch in an \<open>int64\<close>; \<open>UnixNano\<close> of a time
  outside that range wraps.
\<close>

section \<open>Messages\<close>

datatype pb_Side = SIDE_UNSPECIFIED | SIDE_BUY | SIDE_SELL | SIDE_unnamed int

datatype pb_OrderType = ORDER_TYPE_UNSPECIFIED | ORDER_TYPE_LIMIT | ORDER_TYPE_MARKET | ORDER_TYPE_unnamed int

datatype pb_WALRecordKind =
  WAL_RECORD_KIND_UNSPECIFIED | WAL_RECORD_KIND_SUBMIT | WAL_RECORD_KIND_CANCEL | WAL_RECORD_KIND_unnamed int

record pb_Order =
  p_OrderId :: int
  p_Symbol :: string
  p_AccountId :: string
  p_Type :: pb_OrderType
  p_Price :: int
  p_Quantity :: int
  p_Side :: pb_Side
  p_PlacedAtUnixNano :: int

record pb_WALRecord =
  p_Position :: int
  p_LoggedAtUnixNano :: int
  p_Kind :: pb_WALRecordKind
  p_Order :: "pb_Order option"
  p_CancelOrderId :: int
  p_CancelRequestedBy :: string

record pb_Trade =
  pt_TradeId :: int
  pt_Symbol :: string
  pt_Price :: int
  pt_Quantity :: int
  pt_MakerOrderId :: int
  pt_TakerOrderId :: int
  pt_MakerAccountId :: string
  pt_TakerAccountId :: string
  pt_ExecutedAtUnixNano :: int
  pt_TakerSide :: pb_Side

section \<open>Conversions\<close>

definition UnixNano :: "Time \<Rightarrow> int" where
  "UnixNano t = i64 t"

definition time_Unix :: "int \<Rightarrow> Time" where
  "time_Unix n = n"

text \<open>The errors a decoded record is refused with.\<close>

datatype WireErr = ErrNoOrder | ErrNoSide | ErrNoType | ErrNoKind

definition sideToPB :: "OrderSide \<Rightarrow> pb_Side" where
  "sideToPB side = (case side of Buy \<Rightarrow> SIDE_BUY | Sell \<Rightarrow> SIDE_SELL | UnknownSide \<Rightarrow> SIDE_UNSPECIFIED)"

definition sideFromPB :: "pb_Side \<Rightarrow> WireErr + OrderSide" where
  "sideFromPB side = (case side of SIDE_BUY \<Rightarrow> Inr Buy | SIDE_SELL \<Rightarrow> Inr Sell | _ \<Rightarrow> Inl ErrNoSide)"

definition orderTypeToPB :: "OrderType \<Rightarrow> pb_OrderType" where
  "orderTypeToPB t = (case t of Limit \<Rightarrow> ORDER_TYPE_LIMIT | Market \<Rightarrow> ORDER_TYPE_MARKET | UnknownType \<Rightarrow> ORDER_TYPE_UNSPECIFIED)"

definition orderTypeFromPB :: "pb_OrderType \<Rightarrow> WireErr + OrderType" where
  "orderTypeFromPB t = (case t of ORDER_TYPE_LIMIT \<Rightarrow> Inr Limit | ORDER_TYPE_MARKET \<Rightarrow> Inr Market | _ \<Rightarrow> Inl ErrNoType)"

definition recordToPB :: "Record \<Rightarrow> pb_WALRecord" where
  "recordToPB rec =
     (let out = \<lparr>p_Position = r_Seq rec, p_LoggedAtUnixNano = UnixNano (r_TS rec), p_Kind = WAL_RECORD_KIND_UNSPECIFIED,
                 p_Order = None, p_CancelOrderId = 0, p_CancelRequestedBy = []\<rparr>
      in case r_Kind rec of
           RecordSubmit \<Rightarrow> out\<lparr>p_Kind := WAL_RECORD_KIND_SUBMIT,
             p_Order := Some \<lparr>p_OrderId = o_SeqID (r_Order rec), p_Symbol = o_Symbol (r_Order rec),
               p_AccountId = o_Placer (r_Order rec), p_Type = orderTypeToPB (o_Type (r_Order rec)),
               p_Price = o_Price (r_Order rec), p_Quantity = o_Quantity (r_Order rec),
               p_Side = sideToPB (o_Side (r_Order rec)), p_PlacedAtUnixNano = UnixNano (o_TimeStamp (r_Order rec))\<rparr>\<rparr>
         | RecordCancel \<Rightarrow> out\<lparr>p_Kind := WAL_RECORD_KIND_CANCEL, p_CancelOrderId := r_CancelID rec,
             p_CancelRequestedBy := r_CancelBy rec\<rparr>
         | RecordUnknown \<Rightarrow> out)"

definition zero_Record :: Record where
  "zero_Record = \<lparr>r_Seq = 0, r_Kind = RecordUnknown, r_TS = zero_Time, r_Order = zero_Order, r_CancelID = 0, r_CancelBy = []\<rparr>"

definition RecordFromPB :: "pb_WALRecord \<Rightarrow> WireErr + Record" where
  "RecordFromPB m =
     (let rec = zero_Record\<lparr>r_Seq := p_Position m, r_TS := time_Unix (p_LoggedAtUnixNano m)\<rparr>
      in case p_Kind m of
           WAL_RECORD_KIND_SUBMIT \<Rightarrow> (case p_Order m of
               None \<Rightarrow> Inl ErrNoOrder
             | Some x \<Rightarrow> (case sideFromPB (p_Side x) of
                   Inl e \<Rightarrow> Inl e
                 | Inr side \<Rightarrow> (case orderTypeFromPB (p_Type x) of
                       Inl e \<Rightarrow> Inl e
                     | Inr orderType \<Rightarrow> Inr (rec\<lparr>r_Kind := RecordSubmit,
                         r_Order := \<lparr>o_SeqID = p_OrderId x, o_Symbol = p_Symbol x, o_Placer = p_AccountId x,
                           o_Type = orderType, o_Price = p_Price x, o_Quantity = p_Quantity x, o_Side = side,
                           o_TimeStamp = time_Unix (p_PlacedAtUnixNano x)\<rparr>\<rparr>))))
         | WAL_RECORD_KIND_CANCEL \<Rightarrow> Inr (rec\<lparr>r_Kind := RecordCancel, r_CancelID := p_CancelOrderId m,
             r_CancelBy := p_CancelRequestedBy m\<rparr>)
         | _ \<Rightarrow> Inl ErrNoKind)"

text \<open>The conversions of \<open>server.go\<close>.\<close>

definition tradeToPB :: "Trade \<Rightarrow> pb_Trade" where
  "tradeToPB t = \<lparr>pt_TradeId = t_SeqID t, pt_Symbol = t_Symbol t, pt_Price = t_Price t, pt_Quantity = t_Quantity t,
     pt_MakerOrderId = t_MakerSeqID t, pt_TakerOrderId = t_TakerSeqID t, pt_MakerAccountId = t_MakerAccID t,
     pt_TakerAccountId = t_TakerAccID t, pt_ExecutedAtUnixNano = UnixNano (t_TimeStamp t),
     pt_TakerSide = (case t_TakerSide t of Buy \<Rightarrow> SIDE_BUY | Sell \<Rightarrow> SIDE_SELL | UnknownSide \<Rightarrow> SIDE_UNSPECIFIED)\<rparr>"

definition tradesToPB :: "Trade list \<Rightarrow> pb_Trade list" where
  "tradesToPB trades = (if trades = [] then [] else map tradeToPB trades)"

definition seqIDsToInt64 :: "SeqID list \<Rightarrow> int list" where
  "seqIDsToInt64 ids = (if ids = [] then [] else ids)"

section \<open>Status codes\<close>

text \<open>The gRPC codes the handlers answer with; the message text is dropped.\<close>

datatype code =
  codes_Canceled | codes_InvalidArgument | codes_DeadlineExceeded | codes_NotFound | codes_PermissionDenied |
  codes_ResourceExhausted | codes_FailedPrecondition | codes_Internal | codes_Unavailable | codes_DataLoss

definition FromContextError :: "ContextErr \<Rightarrow> code" where
  "FromContextError c = (case c of Canceled \<Rightarrow> codes_Canceled | DeadlineExceeded \<Rightarrow> codes_DeadlineExceeded)"

definition registryError :: "Err \<Rightarrow> code" where
  "registryError e = (case e of
     ErrInvalidSymbol \<Rightarrow> codes_InvalidArgument
   | ErrTooManySymbols \<Rightarrow> codes_ResourceExhausted
   | _ \<Rightarrow> codes_Internal)"

definition submitError :: "Err \<Rightarrow> code" where
  "submitError e = (case e of
     ErrUnknownAccount \<Rightarrow> codes_NotFound
   | ErrInsufficientFunds \<Rightarrow> codes_FailedPrecondition
   | ErrInsufficientShares \<Rightarrow> codes_FailedPrecondition
   | ErrSequencerClosed \<Rightarrow> codes_Unavailable
   | ErrContext c \<Rightarrow> FromContextError c
   | _ \<Rightarrow> codes_Internal)"

definition cancelError :: "Err \<Rightarrow> code" where
  "cancelError e = (case e of
     ErrNotOrderOwner _ \<Rightarrow> codes_PermissionDenied
   | ErrSequencerClosed \<Rightarrow> codes_Unavailable
   | ErrContext c \<Rightarrow> FromContextError c
   | _ \<Rightarrow> codes_NotFound)"

section \<open>A record survives the wire\<close>

text \<open>A record as a sequencer writes it; what the log keeps of a time is its nanoseconds.\<close>

definition shippable :: "Record \<Rightarrow> bool" where
  "shippable rec \<longleftrightarrow> is_i64 (r_TS rec) \<and>
     (case r_Kind rec of
        RecordSubmit \<Rightarrow> o_Side (r_Order rec) \<noteq> UnknownSide \<and> o_Type (r_Order rec) \<noteq> UnknownType \<and>
          r_CancelID rec = 0 \<and> r_CancelBy rec = []
      | RecordCancel \<Rightarrow> r_Order rec = zero_Order
      | RecordUnknown \<Rightarrow> False)"

definition wire_order :: "Order \<Rightarrow> Order" where
  "wire_order x = x\<lparr>o_TimeStamp := i64 (o_TimeStamp x)\<rparr>"

definition wire_record :: "Record \<Rightarrow> Record" where
  "wire_record rec = (if r_Kind rec = RecordSubmit then rec\<lparr>r_Order := wire_order (r_Order rec)\<rparr> else rec)"

lemma side_round_trip [simp]: "s \<noteq> UnknownSide \<Longrightarrow> sideFromPB (sideToPB s) = Inr s"
  by (cases s) (simp_all add: sideFromPB_def sideToPB_def)

lemma type_round_trip [simp]: "t \<noteq> UnknownType \<Longrightarrow> orderTypeFromPB (orderTypeToPB t) = Inr t"
  by (cases t) (simp_all add: orderTypeFromPB_def orderTypeToPB_def)

lemma wire_round_trip: "shippable rec \<Longrightarrow> RecordFromPB (recordToPB rec) = Inr (wire_record rec)"
  by (cases "r_Kind rec")
    (auto simp: shippable_def RecordFromPB_def recordToPB_def Let_def wire_record_def wire_order_def UnixNano_def time_Unix_def
      zero_Record_def intro!: Record.equality Order.equality)

end
