(* ===== verification/OMS_Replication.thy ===== *)
theory OMS_Replication
  imports OMS_Wire OMS_Tail_Props OMS_Registry
begin

text \<open>
  The primary's side of log shipping, \<open>internal/api/replication.go\<close>: which symbols have logs, the
  stream of one symbol's records, and the lag report.

  The root directory's entries are the keys of \<open>sys_dirs\<close>. Looking a symbol up may create its
  sequencer, so the handlers take and return the registry and the system.
\<close>

section \<open>State\<close>

definition walBatchCap :: int where
  "walBatchCap = 512"

record followerProgress =
  fp_position :: int
  fp_recordedAt :: Time
  fp_reportedAt :: Time

record ReplicationServer =
  rp_walDir :: bool
  rp_progress :: "(string, followerProgress) gomap"

definition NewReplicationServer :: "bool \<Rightarrow> ReplicationServer" where
  "NewReplicationServer walDir = \<lparr>rp_walDir = walDir, rp_progress = []\<rparr>"

section \<open>Handlers\<close>

fun known_symbols ::
  "Json \<Rightarrow> (SeqID \<Rightarrow> Time) \<Rightarrow> string list \<Rightarrow> Registry \<Rightarrow> System \<Rightarrow> (string list \<times> Registry \<times> System) option" where
  "known_symbols js now [] r sys = Some ([], r, sys)"
| "known_symbols js now (symbol # entries) r sys = do {
     (r1, sys1, e) \<leftarrow> Get js now symbol r sys;
     (symbols, r2, sys2) \<leftarrow> known_symbols js now entries r1 sys1;
     Some (if e = None then symbol # symbols else symbols, r2, sys2) }"

definition ListSymbols ::
  "Json \<Rightarrow> (SeqID \<Rightarrow> Time) \<Rightarrow> ReplicationServer \<Rightarrow> Registry \<Rightarrow> System \<Rightarrow> ((code + string list) \<times> Registry \<times> System) option" where
  "ListSymbols js now s r sys =
     (if \<not> rp_walDir s then Some (Inl codes_FailedPrecondition, r, sys)
      else do {
        (symbols, r1, sys1) \<leftarrow> known_symbols js now (sort (map fst (sys_dirs sys))) r sys;
        Some (Inr symbols, r1, sys1) })"

record pb_WALBatch =
  wb_Records :: "pb_WALRecord list"
  wb_PrimaryLastPosition :: int

text \<open>
  The loop of \<open>StreamWAL\<close>: the batches sent and how the handler ends (\<open>Inr ()\<close> is a nil error,
  \<open>None\<close> inside \<open>Inl\<close> is the stream's own send error). \<open>sent k\<close> says whether the \<open>k\<close>-th send succeeds.
\<close>

type_synonym stream_end = "code option + unit"

definition tail_error :: "Err \<Rightarrow> stream_end" where
  "tail_error e = (case e of
     ErrContext _ \<Rightarrow> Inr ()
   | ErrCorruptWAL \<Rightarrow> Inl (Some codes_DataLoss)
   | _ \<Rightarrow> Inl (Some codes_Internal))"

definition wal_batch :: "Record list \<Rightarrow> Tailer \<Rightarrow> pb_WALBatch" where
  "wal_batch records tail = \<lparr>wb_Records = map recordToPB records, wb_PrimaryLastPosition = AfterSeq tail\<rparr>"

partial_function (option) stream_loop ::
  "Json \<Rightarrow> (nat \<Rightarrow> Disk) \<Rightarrow> (nat \<Rightarrow> ContextErr option) \<Rightarrow> (nat \<Rightarrow> bool) \<Rightarrow> nat \<Rightarrow> Tailer \<Rightarrow> pb_WALBatch list
     \<Rightarrow> (pb_WALBatch list \<times> stream_end) option" where
  "stream_loop js dir gone sent n tail out = (case Next js dir gone walBatchCap n tail of
     None \<Rightarrow> None
   | Some (_, _, Inl e) \<Rightarrow> Some (out, tail_error e)
   | Some (n', tail', Inr records) \<Rightarrow>
       if sent (length out) then stream_loop js dir gone sent n' tail' (out @ [wal_batch records tail'])
       else Some (out, Inl None))"

declare stream_loop.simps [code]

definition StreamWAL ::
  "Json \<Rightarrow> (SeqID \<Rightarrow> Time) \<Rightarrow> (nat \<Rightarrow> Disk) \<Rightarrow> (nat \<Rightarrow> ContextErr option) \<Rightarrow> (nat \<Rightarrow> bool) \<Rightarrow> string \<Rightarrow> int
     \<Rightarrow> ReplicationServer \<Rightarrow> Registry \<Rightarrow> System \<Rightarrow> (pb_WALBatch list \<times> stream_end \<times> Registry \<times> System) option" where
  "StreamWAL js now dir gone sent symbol afterPosition s r sys =
     (if \<not> rp_walDir s then Some ([], Inl (Some codes_FailedPrecondition), r, sys)
      else do {
        (r1, sys1, e) \<leftarrow> Get js now symbol r sys;
        (case e of
           Some err \<Rightarrow> Some ([], Inl (Some (registryError err)), r1, sys1)
         | None \<Rightarrow>
             if afterPosition < 0 then Some ([], Inl (Some codes_InvalidArgument), r1, sys1)
             else do {
               (out, end) \<leftarrow> stream_loop js dir gone sent 0 (NewTailer afterPosition) [];
               Some (out, end, r1, sys1) }) })"

record pb_ReportProgress =
  pr_Symbol :: string
  pr_AppliedPosition :: int
  pr_AppliedRecordLoggedAtUnixNano :: int

definition ReportProgress ::
  "Json \<Rightarrow> (SeqID \<Rightarrow> Time) \<Rightarrow> Time \<Rightarrow> pb_ReportProgress \<Rightarrow> ReplicationServer \<Rightarrow> Registry \<Rightarrow> System
     \<Rightarrow> (ReplicationServer \<times> code option \<times> Registry \<times> System) option" where
  "ReportProgress js now clock req s r sys = do {
     (r1, sys1, e) \<leftarrow> Get js now (pr_Symbol req) r sys;
     (case e of
        Some err \<Rightarrow> Some (s, Some (registryError err), r1, sys1)
      | None \<Rightarrow>
          Some (s\<lparr>rp_progress := gput (pr_Symbol req)
                    \<lparr>fp_position = pr_AppliedPosition req,
                     fp_recordedAt = time_Unix (pr_AppliedRecordLoggedAtUnixNano req), fp_reportedAt = clock\<rparr>
                    (rp_progress s)\<rparr>, None, r1, sys1)) }"

section \<open>Lag\<close>

record pb_SymbolLag =
  sl_Symbol :: string
  sl_PrimaryPosition :: int
  sl_FollowerPosition :: int
  sl_RecordsBehind :: int
  sl_MillisBehind :: int
  sl_FollowerSeen :: bool

text \<open>\<open>time.Time.Sub\<close> saturates, \<open>Duration.Milliseconds\<close> truncates.\<close>

definition time_Sub :: "Time \<Rightarrow> Time \<Rightarrow> int" where
  "time_Sub a b = max (- (2 ^ 63)) (min max_i64 (a - b))"

definition Milliseconds :: "int \<Rightarrow> int" where
  "Milliseconds d = quot64 d 1000000"

definition primaryPosition :: "Json \<Rightarrow> System \<Rightarrow> string \<Rightarrow> Err + int" where
  "primaryPosition js sys symbol = LastPosition js (dir_of sys symbol)"

definition symbol_lag :: "Time \<Rightarrow> string \<Rightarrow> int \<Rightarrow> followerProgress option \<Rightarrow> pb_SymbolLag" where
  "symbol_lag clock symbol primaryPos prog =
     (let lag = \<lparr>sl_Symbol = symbol, sl_PrimaryPosition = primaryPos, sl_FollowerPosition = 0, sl_RecordsBehind = 0,
                 sl_MillisBehind = 0, sl_FollowerSeen = (prog \<noteq> None)\<rparr>
      in case prog of
           None \<Rightarrow> lag
         | Some p \<Rightarrow>
             let behind = sub64 primaryPos (fp_position p)
             in lag\<lparr>sl_FollowerPosition := fp_position p, sl_RecordsBehind := behind,
                    sl_MillisBehind := (if behind > 0 \<and> fp_recordedAt p \<noteq> zero_Time
                                        then Milliseconds (time_Sub clock (fp_recordedAt p)) else 0)\<rparr>)"

fun lag_rows ::
  "Json \<Rightarrow> Time \<Rightarrow> ReplicationServer \<Rightarrow> System \<Rightarrow> string list \<Rightarrow> code + pb_SymbolLag list" where
  "lag_rows js clock s sys [] = Inr []"
| "lag_rows js clock s sys (symbol # symbols) = (case primaryPosition js sys symbol of
     Inl _ \<Rightarrow> Inl codes_Internal
   | Inr pos \<Rightarrow> (case lag_rows js clock s sys symbols of
        Inl c \<Rightarrow> Inl c
      | Inr rows \<Rightarrow> Inr (symbol_lag clock symbol pos (map_of (rp_progress s) symbol) # rows)))"

definition ReplicationStatus ::
  "Json \<Rightarrow> (SeqID \<Rightarrow> Time) \<Rightarrow> Time \<Rightarrow> ReplicationServer \<Rightarrow> Registry \<Rightarrow> System
     \<Rightarrow> ((code + pb_SymbolLag list) \<times> Registry \<times> System) option" where
  "ReplicationStatus js now clock s r sys = do {
     (res, r1, sys1) \<leftarrow> ListSymbols js now s r sys;
     (case res of
        Inl c \<Rightarrow> Some (Inl c, r1, sys1)
      | Inr symbols \<Rightarrow> Some (lag_rows js clock s sys1 symbols, r1, sys1)) }"

record FollowerLag =
  fl_PrimaryPosition :: int
  fl_FollowerPosition :: int
  fl_FollowerSeen :: bool
  fl_MillisBehind :: int

definition SymbolLag ::
  "Json \<Rightarrow> (SeqID \<Rightarrow> Time) \<Rightarrow> Time \<Rightarrow> ReplicationServer \<Rightarrow> Registry \<Rightarrow> System
     \<Rightarrow> ((string, FollowerLag) gomap \<times> Registry \<times> System) option" where
  "SymbolLag js now clock s r sys = do {
     (res, r1, sys1) \<leftarrow> ReplicationStatus js now clock s r sys;
     (case res of
        Inl _ \<Rightarrow> Some ([], r1, sys1)
      | Inr lags \<Rightarrow>
          Some (fold (\<lambda>lag m. gput (sl_Symbol lag)
                  \<lparr>fl_PrimaryPosition = sl_PrimaryPosition lag, fl_FollowerPosition = sl_FollowerPosition lag,
                   fl_FollowerSeen = sl_FollowerSeen lag, fl_MillisBehind = sl_MillisBehind lag\<rparr> m) lags [], r1, sys1)) }"

end
