(* ===== verification/OMS_Replica.thy ===== *)
theory OMS_Replica
  imports OMS_Replication
begin

text \<open>
  The follower of \<open>internal/replica/replica.go\<close>: per symbol a book and a log of its own, written under
  the primary's positions, fed by the primary's stream.

  The follower's directories are those of a \<open>System\<close> of its own. A stream is the list of what
  \<open>Recv\<close> returns: batches, and an error that ends it.
\<close>

section \<open>State\<close>

record symbolState =
  ss_book :: Book
  ss_wal :: Writer
  ss_position :: int
  ss_positionTS :: Time

record Replica =
  rl_symbols :: "(string, symbolState) gomap"

definition Replica_New :: Replica where
  "Replica_New = \<lparr>rl_symbols = []\<rparr>"

definition Replica_state :: "Replica \<Rightarrow> string \<Rightarrow> symbolState option" where
  "Replica_state r symbol = map_of (rl_symbols r) symbol"

definition Replica_Snapshot :: "Replica \<Rightarrow> string \<Rightarrow> (BookState option \<times> bool) option" where
  "Replica_Snapshot r symbol = (case Replica_state r symbol of
     None \<Rightarrow> Some (None, False)
   | Some st \<Rightarrow> do { d \<leftarrow> Snapshot (ss_book st); Some (Some d, True) })"

definition Replica_Position :: "Replica \<Rightarrow> string \<Rightarrow> int" where
  "Replica_Position r symbol = (case Replica_state r symbol of None \<Rightarrow> 0 | Some st \<Rightarrow> ss_position st)"

definition Replica_Symbols :: "Replica \<Rightarrow> string list" where
  "Replica_Symbols r = map fst (rl_symbols r)"

definition Replica_RestingCount :: "Replica \<Rightarrow> string \<Rightarrow> nat" where
  "Replica_RestingCount r symbol = (case Replica_state r symbol of None \<Rightarrow> 0 | Some st \<Rightarrow> RestingCount (ss_book st))"

definition currentPosition :: "symbolState \<Rightarrow> int" where
  "currentPosition st = ss_position st"

definition currentProgress :: "symbolState \<Rightarrow> int \<times> Time" where
  "currentProgress st = (ss_position st, ss_positionTS st)"

text \<open>\<open>Close\<close> closes every log and joins the failures.\<close>

fun close_logs :: "(string \<times> symbolState) list \<Rightarrow> System \<Rightarrow> (System \<times> (string \<times> Err) list) option" where
  "close_logs [] sys = Some (sys, [])"
| "close_logs ((symbol, st) # rest) sys = do {
     (w, d, e) \<leftarrow> Close (ss_wal st) (dir_of sys symbol);
     (sys', errs) \<leftarrow> close_logs rest (update_dir symbol d sys);
     Some (sys', (case e of None \<Rightarrow> errs | Some err \<Rightarrow> (symbol, err) # errs)) }"

definition Replica_Close :: "Replica \<Rightarrow> System \<Rightarrow> (Replica \<times> System \<times> (string \<times> Err) list) option" where
  "Replica_Close r sys = do {
     (sys', errs) \<leftarrow> close_logs (rl_symbols r) sys;
     Some (r\<lparr>rl_symbols := []\<rparr>, sys', errs) }"

section \<open>Opening a symbol and applying batches\<close>

definition openSymbol ::
  "Json \<Rightarrow> (SeqID \<Rightarrow> Time) \<Rightarrow> string \<Rightarrow> Replica \<Rightarrow> System \<Rightarrow> (Replica \<times> System \<times> (Err + symbolState)) option" where
  "openSymbol js now symbol r sys = (case map_of (rl_symbols r) symbol of
     Some st \<Rightarrow> Some (r, sys, Inr st)
   | None \<Rightarrow> do {
       (book, position, e) \<leftarrow> Recover js now (dir_of sys symbol) NewBook 0;
       (case e of
          Some err \<Rightarrow> Some (r, sys, Inl err)
        | None \<Rightarrow>
            let (d, res) = OpenWriter js (dir_of sys symbol); sys1 = put_dir symbol d sys
            in (case res of
                  Inl err \<Rightarrow> Some (r, sys1, Inl err)
                | Inr w \<Rightarrow>
                    let st = \<lparr>ss_book = book, ss_wal = w, ss_position = position, ss_positionTS = zero_Time\<rparr>
                    in Some (r\<lparr>rl_symbols := gput symbol st (rl_symbols r)\<rparr>, sys1, Inr st))) })"

fun append_all :: "Json \<Rightarrow> Record list \<Rightarrow> Writer \<Rightarrow> Disk \<Rightarrow> wal_result" where
  "append_all js [] w d = Some (w, d, None)"
| "append_all js (rec # recs) w d = then_do (Append js rec w d) (append_all js recs)"

fun apply_records :: "(SeqID \<Rightarrow> Time) \<Rightarrow> Record list \<Rightarrow> symbolState \<Rightarrow> symbolState option" where
  "apply_records now [] st = Some st"
| "apply_records now (rec # recs) st = do {
     b \<leftarrow> Apply now rec (ss_book st);
     apply_records now recs (st\<lparr>ss_book := b, ss_position := r_Seq rec, ss_positionTS := r_TS rec\<rparr>) }"

definition replica_apply ::
  "Json \<Rightarrow> (SeqID \<Rightarrow> Time) \<Rightarrow> Record list \<Rightarrow> symbolState \<Rightarrow> Disk \<Rightarrow> (symbolState \<times> Disk \<times> Err option) option" where
  "replica_apply js now records st d =
     (let fresh = filter (\<lambda>rec. \<not> r_Seq rec \<le> ss_position st) records
      in if fresh = [] then Some (st, d, None)
         else do {
           (w, d1, e) \<leftarrow> then_do (append_all js fresh (ss_wal st) d) Sync;
           (case e of
              Some err \<Rightarrow> Some (st\<lparr>ss_wal := w\<rparr>, d1, Some err)
            | None \<Rightarrow> do {
                st' \<leftarrow> apply_records now fresh (st\<lparr>ss_wal := w\<rparr>);
                Some (st', d1, None) }) })"

section \<open>Following a stream\<close>

datatype recv = Batch pb_WALBatch | Broken code

datatype StreamErr = FromPrimary code | Undecodable int WireErr | NotApplied Err

fun decode_records :: "pb_WALRecord list \<Rightarrow> StreamErr + Record list" where
  "decode_records [] = Inr []"
| "decode_records (m # ms) = (case RecordFromPB m of
     Inl e \<Rightarrow> Inl (Undecodable (p_Position m) e)
   | Inr rec \<Rightarrow> (case decode_records ms of Inl e \<Rightarrow> Inl e | Inr recs \<Rightarrow> Inr (rec # recs)))"

text \<open>
  The loop of \<open>streamOnce\<close>; a stream that has delivered nothing more so far leaves the loop
  waiting, which is \<open>None\<close> for the error.
\<close>

fun stream_recv ::
  "Json \<Rightarrow> (SeqID \<Rightarrow> Time) \<Rightarrow> recv list \<Rightarrow> symbolState \<Rightarrow> Disk \<Rightarrow> (symbolState \<times> Disk \<times> StreamErr option) option" where
  "stream_recv js now [] st d = Some (st, d, None)"
| "stream_recv js now (Broken c # _) st d = Some (st, d, Some (FromPrimary c))"
| "stream_recv js now (Batch b # evs) st d = (case decode_records (wb_Records b) of
     Inl e \<Rightarrow> Some (st, d, Some e)
   | Inr records \<Rightarrow> do {
       (st1, d1, e) \<leftarrow> replica_apply js now records st d;
       (case e of
          Some err \<Rightarrow> Some (st1, d1, Some (NotApplied err))
        | None \<Rightarrow> stream_recv js now evs st1 d1) })"

text \<open>\<open>streamOnce\<close>: the call may fail at once; otherwise the stream answers the position asked for.\<close>

definition streamOnce ::
  "Json \<Rightarrow> (SeqID \<Rightarrow> Time) \<Rightarrow> (int \<Rightarrow> code + recv list) \<Rightarrow> symbolState \<Rightarrow> Disk \<Rightarrow> (symbolState \<times> Disk \<times> StreamErr option) option" where
  "streamOnce js now primary st d = (case primary (currentPosition st) of
     Inl c \<Rightarrow> Some (st, d, Some (FromPrimary c))
   | Inr evs \<Rightarrow> stream_recv js now evs st d)"

text \<open>
  The loop of \<open>followSymbol\<close> over the connections made until the context ends. A damaged log of
  the primary stops the symbol.
\<close>

fun follow_sessions ::
  "Json \<Rightarrow> (SeqID \<Rightarrow> Time) \<Rightarrow> (int \<Rightarrow> code + recv list) list \<Rightarrow> symbolState \<Rightarrow> Disk \<Rightarrow> (symbolState \<times> Disk) option" where
  "follow_sessions js now [] st d = Some (st, d)"
| "follow_sessions js now (primary # rest) st d = do {
     (st1, d1, e) \<leftarrow> streamOnce js now primary st d;
     if e = Some (FromPrimary codes_DataLoss) then Some (st1, d1) else follow_sessions js now rest st1 d1 }"

definition followSymbol ::
  "Json \<Rightarrow> (SeqID \<Rightarrow> Time) \<Rightarrow> (int \<Rightarrow> code + recv list) list \<Rightarrow> string \<Rightarrow> Replica \<Rightarrow> System \<Rightarrow> (Replica \<times> System) option" where
  "followSymbol js now sessions symbol r sys = do {
     (r1, sys1, res) \<leftarrow> openSymbol js now symbol r sys;
     (case res of
        Inl _ \<Rightarrow> Some (r1, sys1)
      | Inr st \<Rightarrow> do {
          (st', d') \<leftarrow> follow_sessions js now sessions st (dir_of sys1 symbol);
          Some (r1\<lparr>rl_symbols := gput symbol st' (rl_symbols r1)\<rparr>, update_dir symbol d' sys1) }) }"

text \<open>One turn of \<open>Run\<close>: the symbols a stream is started for, none twice.\<close>

fun start_new :: "string list \<Rightarrow> string list \<Rightarrow> string list \<times> string list" where
  "start_new running [] = (running, [])"
| "start_new running (symbol # symbols) =
     (if List.member running symbol then start_new running symbols
      else let (running', started) = start_new (running @ [symbol]) symbols in (running', symbol # started))"

text \<open>What \<open>reportProgress\<close> sends.\<close>

definition progress_report :: "string \<Rightarrow> symbolState \<Rightarrow> pb_ReportProgress" where
  "progress_report symbol st =
     (let (position, ts) = currentProgress st
      in \<lparr>pr_Symbol = symbol, pr_AppliedPosition = position, pr_AppliedRecordLoggedAtUnixNano = UnixNano ts\<rparr>)"

end
