(* ===== verification/OMS_Replica_Inv.thy ===== *)
theory OMS_Replica_Inv
  imports OMS_Replica OMS_Registry_Inv
begin

text \<open>
  What a follower keeps true: its log holds a prefix of the primary's records as they came off
  the wire, everything in it is synced, and its book is that prefix replayed. Matching never
  reads an order's placement time, the one field the wire may change.
\<close>

section \<open>Placement times do not matter\<close>

definition restamp :: "abook \<Rightarrow> abook" where
  "restamp a = a\<lparr>a_buys := map wire_order (a_buys a), a_sells := map wire_order (a_sells a)\<rparr>"

definition wire_mutation :: "mutation \<Rightarrow> mutation" where
  "wire_mutation m = (case m of Placed x \<Rightarrow> Placed (wire_order x) | _ \<Rightarrow> m)"

lemma wire_order_simps [simp]:
  "o_SeqID (wire_order x) = o_SeqID x" "o_Symbol (wire_order x) = o_Symbol x" "o_Placer (wire_order x) = o_Placer x"
  "o_Type (wire_order x) = o_Type x" "o_Price (wire_order x) = o_Price x" "o_Quantity (wire_order x) = o_Quantity x"
  "o_Side (wire_order x) = o_Side x" "wire_order x\<lparr>o_Quantity := q\<rparr> = wire_order (x\<lparr>o_Quantity := q\<rparr>)"
  by (simp_all add: wire_order_def)

lemma wire_match [simp]:
  "acceptable s (wire_order x) p = acceptable s x p" "selfMatch (wire_order x) (wire_order m) = selfMatch x m"
  "mk_trade now i s (wire_order x) (wire_order m) p q = mk_trade now i s x m p q"
  by (simp_all add: acceptable_def selfMatch_def mk_trade_def)

lemma spec_match_wire:
  "spec_match now s tid (wire_order x) (map wire_order ms) =
     (case spec_match now s tid x ms of (ts, ids, x', ms', tid') \<Rightarrow> (ts, ids, wire_order x', map wire_order ms', tid'))"
proof (induction ms arbitrary: tid x)
  case (Cons m ms)
  show ?case
    using Cons.IH [of tid x] Cons.IH [of "add64 tid 1" "x\<lparr>o_Quantity := o_Quantity x - o_Quantity m\<rparr>"]
    by (auto simp: Let_def split: prod.splits)
qed simp

lemma spec_insert_wire: "spec_insert s (wire_order x) (map wire_order ys) = map wire_order (spec_insert s x ys)"
  by (simp add: spec_insert_def takeWhile_map dropWhile_map comp_def)

lemma find_wire: "List.find (\<lambda>y. o_SeqID y = i) (map wire_order ys) = map_option wire_order (List.find (\<lambda>y. o_SeqID y = i) ys)"
  by (induction ys) auto

lemma spec_mutate_wire: "spec_mutate (wire_mutation m) (restamp a) = restamp (spec_mutate m a)"
proof (cases m)
  case (Placed x)
  let ?ms = "if o_Side x = Buy then a_sells a else a_buys a"
  obtain ts ids x' ms' tid where m: "spec_match (\<lambda>_. 0) (o_Side x) (a_nextTradeID a) x ?ms = (ts, ids, x', ms', tid)"
    by (metis prod_cases5)
  have "(if o_Side x = Buy then map wire_order (a_sells a) else map wire_order (a_buys a)) = map wire_order ?ms" by simp
  with m spec_match_wire [of "\<lambda>_. 0" "o_Side x" "a_nextTradeID a" x ?ms] show ?thesis
    by (auto simp: Placed wire_mutation_def spec_mutate_def spec_submit_def restamp_def Let_def spec_insert_wire)
next
  case (Cancelled i "by")
  have "List.find (\<lambda>y. o_SeqID y = i) (map wire_order (a_buys a) @ map wire_order (a_sells a)) =
      map_option wire_order (List.find (\<lambda>y. o_SeqID y = i) (a_buys a @ a_sells a))"
    using find_wire [of i "a_buys a @ a_sells a"] by simp
  then show ?thesis
    by (auto simp: Cancelled wire_mutation_def spec_mutate_def spec_cancel_def restamp_def filter_map comp_def split: option.split)
qed (simp add: wire_mutation_def spec_mutate_def)

lemma fold_spec_mutate_wire: "fold spec_mutate (map wire_mutation ms) (restamp a) = restamp (fold spec_mutate ms a)"
  by (induction ms arbitrary: a) (simp_all add: spec_mutate_wire)

lemma mutation_of_wire: "mutation_of (wire_record r) = wire_mutation (mutation_of r)"
  by (cases "r_Kind r") (auto simp: mutation_of_def wire_record_def wire_mutation_def)

lemma wire_record_simps [simp]: "r_Seq (wire_record r) = r_Seq r" "r_TS (wire_record r) = r_TS r" "r_Kind (wire_record r) = r_Kind r"
  by (simp_all add: wire_record_def)

lemma placed_ids_wire: "placed_ids (map mutation_of (map wire_record rs)) = placed_ids (map mutation_of rs)"
  by (induction rs) (auto simp: mutation_of_wire wire_mutation_def split: mutation.split)

lemma replayable_wire: "replayable (map wire_record rs) = replayable rs"
  unfolding replayable_def placed_ids_wire
  by (auto simp: mutation_of_wire wire_mutation_def i64_mutation_def split: mutation.splits)

lemma restamp_empty [simp]: "restamp (abs_book NewBook) = abs_book NewBook"
  by (simp add: restamp_def abs_book_def queue_def NewBook_def ladder_def)

section \<open>What a follower keeps true\<close>

definition shipped :: "Record list \<Rightarrow> nat \<Rightarrow> Record list" where
  "shipped P n = map wire_record (take n P)"

definition follows :: "Json \<Rightarrow> symbolState \<Rightarrow> Disk \<Rightarrow> Record list \<Rightarrow> nat \<Rightarrow> bool" where
  "follows js st d P n \<longleftrightarrow> n \<le> length P \<and> wal_log js (ss_wal st, d) (shipped P n) \<and> w_buf (ss_wal st) = [] \<and>
     wal_healthy (ss_wal st, d) \<and> lastSeq (ss_wal st) = int n \<and> ss_position st = int n \<and> wf_book (ss_book st) \<and>
     abs_book (ss_book st) = fold spec_mutate (map mutation_of (shipped P n)) (abs_book NewBook)"

text \<open>A primary's log that can be shipped.\<close>

definition shippable_log :: "Json \<Rightarrow> Record list \<Rightarrow> bool" where
  "shippable_log js P \<longleftrightarrow> map r_Seq P = [1..int (length P)] \<and> replayable P \<and>
     (\<forall>r \<in> set P. shippable r \<and> loggable js (wire_record r))"

lemma shipped_book:
  "fold spec_mutate (map mutation_of (shipped P n)) (abs_book NewBook) =
     restamp (fold spec_mutate (map mutation_of (take n P)) (abs_book NewBook))"
proof -
  have "map mutation_of (shipped P n) = map wire_mutation (map mutation_of (take n P))"
    by (simp add: shipped_def mutation_of_wire)
  then show ?thesis by (metis fold_spec_mutate_wire restamp_empty)
qed

lemma log_seq_nth: "map r_Seq P = [1..int (length P)] \<Longrightarrow> i < length P \<Longrightarrow> r_Seq (P ! i) = int i + 1"
proof -
  assume "map r_Seq P = [1..int (length P)]" "i < length P"
  then have "r_Seq (P ! i) = [1..int (length P)] ! i" by (metis nth_map)
  with \<open>i < length P\<close> show ?thesis by (simp add: nth_upto)
qed

text \<open>What is fresh of a run of the primary's records that starts no later than the follower stands.\<close>

lemma fresh_records:
  assumes "map r_Seq P = [1..int (length P)]" "j \<le> n"
  shows "filter (\<lambda>r. \<not> r_Seq r \<le> int n) (take k (drop j P)) = take (j + k - n) (drop n P)"
proof -
  let ?m = "j + k"
  have le: "r_Seq r \<le> int n" if "r \<in> set (take n P)" for r
    using that log_seq_nth [OF assms(1)] by (auto simp: in_set_conv_nth)
  have gt: "\<not> r_Seq r \<le> int n" if "r \<in> set (drop n P)" for r
    using that log_seq_nth [OF assms(1)] by (auto simp: in_set_conv_nth)
  have split: "take k (drop j P) = drop j (take n (take ?m P)) @ take (?m - n) (drop n P)"
  proof -
    have "take k (drop j P) = drop j (take n (take ?m P) @ drop n (take ?m P))" by (simp add: take_drop add.commute del: take_take)
    also have "\<dots> = drop j (take n (take ?m P)) @ drop n (take ?m P)"
    proof (cases "j \<le> length (take n (take ?m P))")
      case False
      then have "length P < j \<or> ?m < j" using assms(2) by auto
      then have "drop n (take ?m P) = []" using assms(2) by auto
      then show ?thesis by simp
    qed simp
    also have "drop n (take ?m P) = take (?m - n) (drop n P)" by (rule drop_take)
    finally show ?thesis .
  qed
  have "filter (\<lambda>r. \<not> r_Seq r \<le> int n) (drop j (take n (take ?m P))) = []"
    using le set_take_subset_set_take [of "min n ?m" n P] by (auto simp: filter_empty_conv dest!: in_set_dropD)
  moreover have "filter (\<lambda>r. \<not> r_Seq r \<le> int n) (take (?m - n) (drop n P)) = take (?m - n) (drop n P)"
    using gt by (auto simp: filter_id_conv dest: in_set_takeD)
  ultimately show ?thesis unfolding split by simp
qed

section \<open>Applying a batch\<close>

text \<open>The appends and the sync of a batch are the group commit of the log's contract.\<close>

lemma append_all_write_all: "pair_result (append_all js rs w d) = write_all (wal_append js) rs (w, d)"
  by (induction rs arbitrary: w d)
    (auto simp: pair_result_def wal_append_def then_do_def split: option.splits Option.bind_splits)

lemma append_sync_write_batch:
  "pair_result (then_do (append_all js rs w d) Sync) = write_batch (wal_append js) wal_sync rs (w, d)"
  unfolding write_batch_def append_all_write_all [symmetric]
  by (auto simp: pair_result_def wal_sync_def then_do_def split: option.splits Option.bind_splits)

lemma apply_records_fold:
  "apply_records now rs st = map_option (\<lambda>b. st\<lparr>ss_book := b, ss_position := last (ss_position st # map r_Seq rs),
      ss_positionTS := last (ss_positionTS st # map r_TS rs)\<rparr>)
     (foldM (mutate Submit CancelOwned now) (map mutation_of rs) (ss_book st))"
proof (induction rs arbitrary: st)
  case (Cons r rs)
  then show ?case by (auto simp: Apply_mutate split: option.split Option.bind_split)
qed simp

lemma replica_apply_follows:
  assumes P: "shippable_log js P" and f: "follows js st d P n" and j: "j \<le> n"
  shows "\<exists>st' d'. replica_apply js now (map wire_record (take k (drop j P))) st d = Some (st', d', None) \<and>
    follows js st' d' P (max n (min (j + k) (length P)))"
proof -
  let ?new = "take (j + k - n) (drop n P)" and ?m = "max n (min (j + k) (length P))"
  have seqs: "map r_Seq P = [1..int (length P)]" "replayable P" and lg: "\<And>r. r \<in> set P \<Longrightarrow> loggable js (wire_record r)"
    using P by (auto simp: shippable_log_def)
  have st: "n \<le> length P" "wal_log js (ss_wal st, d) (shipped P n)" "wal_healthy (ss_wal st, d)" "lastSeq (ss_wal st) = int n"
    "ss_position st = int n" "wf_book (ss_book st)" "w_buf (ss_wal st) = []"
    "abs_book (ss_book st) = fold spec_mutate (map mutation_of (shipped P n)) (abs_book NewBook)"
    using f by (auto simp: follows_def)
  have fresh: "filter (\<lambda>rec. \<not> r_Seq rec \<le> ss_position st) (map wire_record (take k (drop j P))) = map wire_record ?new"
    using fresh_records [OF seqs(1) j, of k] by (simp add: filter_map comp_def st(5))
  have whole: "shipped P ?m = shipped P n @ map wire_record ?new" "take ?m P = take n P @ ?new"
  proof -
    have "take ?m P = take n P @ take (?m - n) (drop n P)" by (metis le_add_diff_inverse max.cobounded1 take_add)
    also have "take (?m - n) (drop n P) = ?new" by (auto simp: max_def min_def)
    finally show "take ?m P = take n P @ ?new" .
    then show "shipped P ?m = shipped P n @ map wire_record ?new" by (simp add: shipped_def)
  qed
  show ?thesis
  proof (cases "?new = []")
    case True
    then have m: "?m = n" using st(1) by auto
    have "replica_apply js now (map wire_record (take k (drop j P))) st d = Some (st, d, None)"
      unfolding replica_apply_def Let_def fresh using True by simp
    with f show ?thesis unfolding m by blast
  next
    case False
    let ?w = "map wire_record ?new"
    have sub: "set ?new \<subseteq> set P" by (meson in_set_dropD in_set_takeD subsetI)
    have len: "length ?new = ?m - n" using st(1) by auto
    have sq: "map r_Seq ?w = [int n + 1..int ?m]"
    proof (rule nth_equalityI)
      show "length (map r_Seq ?w) = length [int n + 1..int ?m]" using len by (simp only: length_map length_upto) linarith
    next
      fix i assume "i < length (map r_Seq ?w)"
      then have i: "i < length ?new" "i < ?m - n" using len by (simp_all only: length_map)
      then have "map r_Seq ?w ! i = r_Seq (P ! (n + i))" "n + i < length P" by auto
      moreover have "[int n + 1..int ?m] ! i = int n + 1 + int i" using i(2) by (intro nth_upto) linarith
      ultimately show "map r_Seq ?w ! i = [int n + 1..int ?m] ! i" using log_seq_nth [OF seqs(1), of "n + i"] by simp
    qed
    have nm: "n < ?m" using False len by auto
    obtain s' where wb: "write_batch (wal_append js) wal_sync ?w (ss_wal st, d) = Some (s', None)" "wal_log js s' (shipped P n @ ?w)"
      "w_buf (fst s') = []" "wal_healthy s'" "lastSeq (fst s') = last (lastSeq (ss_wal st) # map r_Seq ?w)"
    proof -
      have "sorted_wrt (<) (lastSeq (fst (ss_wal st, d)) # map r_Seq ?w)" unfolding sq by (simp add: st(4))
      moreover have "\<And>r. r \<in> set ?w \<Longrightarrow> loggable js r" using lg sub by auto
      ultimately show thesis using wal.write_batch_law [OF st(2,3), of ?w] that by auto
    qed
    have last: "last (int n # map r_Seq ?w) = int ?m" unfolding sq using nm by (simp add: upto_rec2)
    obtain w d' where s': "s' = (w, d')" by (cases s')
    have io: "then_do (append_all js ?w (ss_wal st) d) Sync = Some (w, d', None)"
      using wb(1) append_sync_write_batch [of js ?w "ss_wal st" d] by (auto simp: s' pair_result_def)
    have pl: "placed_ids (map mutation_of P) = placed_ids (map mutation_of (take n P)) @ placed_ids (map mutation_of (drop n P))"
      "placed_ids (map mutation_of (drop n P)) = placed_ids (map mutation_of ?new) @ placed_ids (map mutation_of (drop (j + k - n) (drop n P)))"
      by (metis append_take_drop_id map_append placed_ids_append)+
    have "\<exists>b'. foldM (mutate Submit CancelOwned now) (map mutation_of ?w) (ss_book st) = Some b' \<and> wf_book b' \<and>
        abs_book b' = fold spec_mutate (map mutation_of ?w) (abs_book (ss_book st))"
    proof (rule book.feed_law [OF st(6)])
      have r: "replayable ?w" unfolding replayable_wire using seqs(2) sub pl by (auto simp: replayable_def)
      show "distinct (placed_ids (map mutation_of ?w))" "\<And>m. m \<in> set (map mutation_of ?w) \<Longrightarrow> i64_mutation m"
        using r by (auto simp: replayable_def)
      have "resting_ids (abs_book (ss_book st)) \<subseteq> set (placed_ids (map mutation_of (shipped P n)))"
        unfolding st(8) using resting_ids_fold [of "map mutation_of (shipped P n)" "abs_book NewBook"] by simp
      then show "set (placed_ids (map mutation_of ?w)) \<inter> resting_ids (abs_book (ss_book st)) = {}"
        using seqs(2) pl unfolding shipped_def placed_ids_wire by (auto simp: replayable_def)
    qed
    then obtain b' where b': "foldM (mutate Submit CancelOwned now) (map mutation_of ?w) (ss_book st) = Some b'" "wf_book b'"
      "abs_book b' = fold spec_mutate (map mutation_of ?w) (abs_book (ss_book st))" by blast
    let ?st = "st\<lparr>ss_wal := w, ss_book := b', ss_position := int ?m, ss_positionTS := last (ss_positionTS st # map r_TS ?w)\<rparr>"
    have "apply_records now ?w (st\<lparr>ss_wal := w\<rparr>) = Some ?st"
      unfolding apply_records_fold using b'(1) last st(5) by simp
    then have "replica_apply js now (map wire_record (take k (drop j P))) st d = Some (?st, d', None)"
      unfolding replica_apply_def Let_def fresh using False io by simp
    moreover have "follows js ?st d' P ?m"
      unfolding follows_def whole(1) using wb b' last st(1,4,8) by (simp add: s')
    ultimately show ?thesis by blast
  qed
qed

text \<open>Batches that continue the follower's log, possibly resending some of it.\<close>

fun ships :: "Record list \<Rightarrow> nat \<Rightarrow> Record list list \<Rightarrow> bool" where
  "ships P n [] \<longleftrightarrow> True"
| "ships P n (b # bs) \<longleftrightarrow> (\<exists>j k. j \<le> n \<and> b = take k (drop j P) \<and> ships P (max n (min (j + k) (length P))) bs)"

definition carries :: "recv list \<Rightarrow> Record list list \<Rightarrow> bool" where
  "carries evs batches \<longleftrightarrow> list_all2 (\<lambda>e b. \<exists>pos. e = Batch \<lparr>wb_Records = map recordToPB b, wb_PrimaryLastPosition = pos\<rparr>) evs batches"

lemma decode_shippable:
  "(\<And>r. r \<in> set rs \<Longrightarrow> shippable r) \<Longrightarrow> decode_records (map recordToPB rs) = Inr (map wire_record rs)"
  by (induction rs) (auto simp: wire_round_trip)

lemma ships_shippable:
  "shippable_log js P \<Longrightarrow> r \<in> set (take k (drop j P)) \<Longrightarrow> shippable r"
  by (auto simp: shippable_log_def dest!: in_set_takeD in_set_dropD)

lemma stream_recv_follows:
  assumes "shippable_log js P" "follows js st d P n" "ships P n batches" "carries evs batches"
  shows "\<exists>st' d' m. stream_recv js now evs st d = Some (st', d', None) \<and> follows js st' d' P m \<and> n \<le> m \<and>
    (\<forall>b \<in> set batches. \<forall>r \<in> set b. r_Seq r \<le> int m)"
  using assms(2-)
proof (induction batches arbitrary: evs st d n)
  case Nil
  then show ?case by (auto simp: carries_def)
next
  case (Cons b bs)
  obtain j k where b: "j \<le> n" "b = take k (drop j P)" "ships P (max n (min (j + k) (length P))) bs"
    using Cons.prems(2) by auto
  let ?m = "max n (min (j + k) (length P))"
  obtain pos evs' where evs: "evs = Batch \<lparr>wb_Records = map recordToPB b, wb_PrimaryLastPosition = pos\<rparr> # evs'" "carries evs' bs"
    using Cons.prems(3) by (auto simp: carries_def list_all2_Cons2)
  have dec: "decode_records (map recordToPB b) = Inr (map wire_record b)"
    by (rule decode_shippable) (use ships_shippable [OF assms(1)] b(2) in auto)
  obtain st1 d1 where 1: "replica_apply js now (map wire_record b) st d = Some (st1, d1, None)" "follows js st1 d1 P ?m"
    using replica_apply_follows [OF assms(1) Cons.prems(1) b(1)] b(2) by blast
  obtain st' d' m where 2: "stream_recv js now evs' st1 d1 = Some (st', d', None)" "follows js st' d' P m" "?m \<le> m"
    "\<forall>b \<in> set bs. \<forall>r \<in> set b. r_Seq r \<le> int m"
    using Cons.IH [OF 1(2) b(3) evs(2)] by blast
  have "r_Seq r \<le> int m" if "r \<in> set b" for r
  proof -
    from \<open>r \<in> set b\<close> obtain i where i: "i < k" "j + i < length P" "r = P ! (j + i)"
      unfolding b(2) in_set_conv_nth by auto
    have "r_Seq r = int (j + i) + 1" using log_seq_nth [of P "j + i"] assms(1) i by (simp add: shippable_log_def)
    with i 2(3) show ?thesis by auto
  qed
  with 1 2 evs dec show ?case by auto
qed

end
