(* ===== verification/OMS_Replica_Props.thy ===== *)
theory OMS_Replica_Props
  imports OMS_Replica_Inv OMS_Registry_Props
begin

text \<open>
  What replication promises: a record means the same on both sides of the wire, a follower fed by
  the tailer holds the primary's book, and a follower's directory can be promoted. The last
  section evaluates the lag report for a follower that has applied nothing yet.
\<close>

section \<open>The wire\<close>

text \<open>A record of a known kind, side and type decodes to the record that was sent, except that
  an order's placement time outside the range of an \<open>int64\<close> of nanoseconds comes back wrapped;
  every other record is refused rather than guessed at. Replaying the decoded record changes the
  book's two queues exactly as the original does, up to that time.\<close>

lemma record_survives_the_wire:
  assumes "is_i64 (r_TS rec)" "r_Kind rec \<noteq> RecordSubmit \<longrightarrow> r_Order rec = zero_Order"
    "r_Kind rec \<noteq> RecordCancel \<longrightarrow> r_CancelID rec = 0 \<and> r_CancelBy rec = []"
  shows "(case RecordFromPB (recordToPB rec) of
      Inl _ \<Rightarrow> \<not> shippable rec
    | Inr rec' \<Rightarrow> shippable rec \<and> (is_i64 (o_TimeStamp (r_Order rec)) \<or> r_Kind rec = RecordCancel \<longrightarrow> rec' = rec) \<and>
        (\<forall>a. spec_mutate (mutation_of rec') (restamp a) = restamp (spec_mutate (mutation_of rec) a)))"
proof (cases "shippable rec")
  case True
  have "wire_record rec = rec" if "is_i64 (o_TimeStamp (r_Order rec)) \<or> r_Kind rec = RecordCancel"
    using that by (auto simp: wire_record_def wire_order_def intro!: Record.equality)
  with True show ?thesis by (auto simp: wire_round_trip mutation_of_wire spec_mutate_wire)
next
  case False
  then show ?thesis using assms
    by (cases "r_Kind rec"; cases "o_Side (r_Order rec)"; cases "o_Type (r_Order rec)")
      (simp_all add: shippable_def RecordFromPB_def recordToPB_def Let_def sideFromPB_def sideToPB_def orderTypeFromPB_def
        orderTypeToPB_def)
qed

lemma record_survives_the_wire_witness:
  "RecordFromPB (recordToPB (cancel_record 7 3)) = Inr (cancel_record 7 3)"
proof -
  have "shippable (cancel_record 7 3)" "r_Kind (cancel_record 7 3) = RecordCancel"
    by (simp_all add: cancel_record_def shippable_def is_i64_def)
  moreover have "case RecordFromPB (recordToPB (cancel_record 7 3)) of
      Inl _ \<Rightarrow> \<not> shippable (cancel_record 7 3)
    | Inr rec' \<Rightarrow> shippable (cancel_record 7 3) \<and>
        (is_i64 (o_TimeStamp (r_Order (cancel_record 7 3))) \<or> r_Kind (cancel_record 7 3) = RecordCancel \<longrightarrow> rec' = cancel_record 7 3) \<and>
        (\<forall>a. spec_mutate (mutation_of rec') (restamp a) = restamp (spec_mutate (mutation_of (cancel_record 7 3)) a))"
    by (rule record_survives_the_wire) (simp_all add: cancel_record_def is_i64_def)
  ultimately show ?thesis by (simp split: sum.splits)
qed

section \<open>Convergence\<close>

lemma above_position:
  assumes "map r_Seq P = [1..int (length P)]" "n \<le> length P"
  shows "filter (\<lambda>r. r_Seq r > int n) P = drop n P"
  using fresh_records [OF assms(1), of 0 n "length P"] assms(2) by (simp add: not_le)

lemma ships_consecutive:
  assumes "prefix (concat batches) (drop n P)" "n \<le> length P"
  shows "ships P n batches"
  using assms
proof (induction batches arbitrary: n)
  case (Cons b bs)
  then have b: "b = take (length b) (drop n P)" and bs: "prefix (concat bs) (drop (n + length b) P)"
    by (auto simp: prefix_def) (metis add.commute append_eq_conv_conj drop_drop)+
  have len: "n + length b \<le> length P" using b Cons.prems(2)
    by (metis add_le_cancel_left le_add_diff_inverse length_drop length_take min.cobounded1)
  then have "max n (min (n + length b) (length P)) = n + length b" by simp
  moreover have "ships P (n + length b) bs" using Cons.IH [OF bs len] .
  ultimately show ?case using b by (metis order_refl ships.simps(2))
qed simp


lemma demo_limit_wire: "wire_record (submit_record n (limit_order i who s p q)) = submit_record n (limit_order i who s p q)"
  "wire_record (cancel_record n i) = cancel_record n i"
  by (simp_all add: wire_record_def wire_order_def submit_record_def cancel_record_def limit_order_def i64_def)

lemma demo_log_shippable: "shippable_log demo_json demo_log"
proof -
  have "wire_record r = r" if "r \<in> set demo_log" for r using that by (auto simp: demo_log_def demo_limit_wire)
  then have "\<forall>r \<in> set demo_log. loggable demo_json (wire_record r)" using demo_log_loggable by simp
  moreover have "\<forall>r \<in> set demo_log. shippable r"
    by (simp add: demo_log_def shippable_def submit_record_def cancel_record_def limit_order_def is_i64_def)
  moreover have "map r_Seq demo_log = [1..int (length demo_log)]"
    by (simp add: demo_log_def submit_record_def cancel_record_def upto_rec1)
  ultimately show ?thesis using demo_log_replayable by (simp add: shippable_log_def)
qed

lemma demo_follower: "\<exists>st d. follows demo_json st d demo_log 0"
proof -
  obtain w d where w: "OpenWriter demo_json empty_disk = (d, Inr w)" "wal_log demo_json (w, d) []" "wal_healthy (w, d)" "lastSeq w = 0"
    by (rule demo_open_log)
  have "w_buf w = []" using w(1) by (auto simp: OpenWriter_def empty_disk_def segmentPaths_def openSegment_def Let_def split: if_splits prod.splits option.splits)
  with w have "follows demo_json \<lparr>ss_book = NewBook, ss_wal = w, ss_position = 0, ss_positionTS = zero_Time\<rparr> d demo_log 0"
    by (simp add: follows_def shipped_def wf_NewBook)
  then show ?thesis by blast
qed


section \<open>Restart and promotion\<close>

lemma own_log_shipped: "own_log P \<Longrightarrow> own_log (shipped P n)"
proof -
  assume "own_log P"
  then have "own_log (take n P)" using own_log_take [of "[]" P n] by simp
  then show ?thesis unfolding own_log_def shipped_def replayable_wire placed_ids_wire
    by (auto simp: mutation_of_wire wire_mutation_def sane_mutation_def sane_order_def split: mutation.splits)
qed

text \<open>C23: A follower's directory is all it needs: opening the symbol again, with no help from the
  primary, resumes at the position the follower had durably applied, with the same book; and
  pointing a primary at that directory starts a sequencer whose log and book are the ones the
  follower had, ready to number the next record and the next order behind them.\<close>

theorem follower_restarts_and_promotes:
  assumes P: "shippable_log js P" "own_log P" and f: "follows js st (dir_of sys symb) P n" and r: "reg_walDir r"
  shows "(\<exists>rl sys' st'. openSymbol js now symb Replica_New sys = Some (rl, sys', Inr st') \<and>
      Replica_Position rl symb = int n \<and> follows js st' (dir_of sys' symb) P n \<and> abs_book (ss_book st') = abs_book (ss_book st)) \<and>
    (\<exists>sys' s. newSequencer js now symb r sys = Some (sys', Inr s) \<and> live js s (dir_of sys' symb) (shipped P n) \<and>
      s_seq s = int n \<and> abs_book (s_book s) = abs_book (ss_book st))"
proof -
  let ?d = "dir_of sys symb"
  have n: "n \<le> length P" and wl: "wal_log js (ss_wal st, ?d) (shipped P n)" "w_buf (ss_wal st) = []" "lastSeq (ss_wal st) = int n"
    and io: "write_ok ?d" "sync_ok ?d"
    and bk: "abs_book (ss_book st) = fold spec_mutate (map mutation_of (shipped P n)) (abs_book NewBook)"
    using f by (auto simp: follows_def wal_healthy_def)
  obtain segs where segs: "writer_inv js (ss_wal st) ?d segs" "log_of segs = shipped P n" using wl(1) by (auto simp: wal_log_def)
  have d: "disk_log js ?d segs []" using segs(1) wl(2) by (simp add: disk_log_def writer_inv_def torn_tail_def)
  have "map r_Seq (shipped P n) @ map r_Seq (drop n P) = [1..int (length P)]"
    using P(1) by (simp add: shippable_log_def shipped_def comp_def flip: map_append)
  from upto_prefix [OF this] have sq: "map r_Seq (shipped P n) = [1..int n]" using n by (simp add: shipped_def min_def)
  have g: "gap_free segs (int n)" using segs sq wl(3) by (simp add: gap_free_def writer_inv_def)
  have o: "own_log (log_of segs)" unfolding segs(2) by (rule own_log_shipped [OF P(2)])
  obtain b w d' where s: "Recover js now ?d NewBook 0 = Some (b, int n, None)" "OpenWriter js ?d = (d', Inr w)" "write_ok d'" "sync_ok d'"
    "live js (NewSequencerWithWAL b (Some w)) d' (shipped P n)"
    using start_live [OF d g o io, of now] unfolding segs(2) by blast
  let ?st = "\<lparr>ss_book = b, ss_wal = w, ss_position = int n, ss_positionTS = zero_Time\<rparr>"
  have lv: "wf_book b" "wal_log js (w, d') (shipped P n)" "w_buf w = []" "lastSeq w = LastSeq w"
    "abs_book b = fold spec_mutate (map mutation_of (shipped P n)) (abs_book NewBook)" "map r_Seq (shipped P n) = [1..LastSeq w]" "0 \<le> LastSeq w"
    using s(5) by (auto simp: live_def NewSequencerWithWAL_def LastSeq_def)
  have ls: "LastSeq w = int n" using arg_cong [OF lv(6), of length] arg_cong [OF sq, of length] lv(7) by simp
  have fo: "follows js ?st d' P n" using n lv ls s(3,4) by (simp add: follows_def wal_healthy_def)
  have pd: "dir_of (put_dir symb d' sys) symb = d'" by (rule dir_of_put_dir [OF io(1)])
  have "openSymbol js now symb Replica_New sys = Some (\<lparr>rl_symbols = [(symb, ?st)]\<rparr>, put_dir symb d' sys, Inr ?st)"
    by (simp add: openSymbol_def Replica_New_def s(1,2) Let_def)
  moreover have "\<exists>sys' s. newSequencer js now symb r sys = Some (sys', Inr s) \<and> live js s (dir_of sys' symb) (shipped P n) \<and>
      s_seq s = int n \<and> abs_book (s_book s) = abs_book (ss_book st)"
    using r s(1,2,5) pd ls lv(5) bk
    by (simp add: newSequencer_def registry_attach_def Let_def) (simp add: attach_def NewSequencerWithWAL_def)
  ultimately show ?thesis using fo pd lv(5) bk by (auto simp: Replica_Position_def Replica_state_def)
qed

theorem follower_restarts_and_promotes_witness:
  "\<exists>d sys' s. newSequencer demo_json demo_clock ''NABIL'' demo_registry (demo_system d) = Some (sys', Inr s) \<and>
    live demo_json s (dir_of sys' ''NABIL'') (shipped demo_log 0) \<and> s_seq s = 0"
proof -
  obtain st d where "follows demo_json st d demo_log 0" using demo_follower by blast
  then have f: "follows demo_json st (dir_of (demo_system d) ''NABIL'') demo_log 0" by (simp add: dir_of_def demo_system_def)
  have "reg_walDir demo_registry" by (simp add: demo_registry_def NewRegistry_def)
  from follower_restarts_and_promotes [OF demo_log_shippable demo_log_own f this, of demo_clock] show ?thesis by auto
qed

section \<open>Lag\<close>

text \<open>
  A follower that has applied nothing reports the zero time, whose nanoseconds wrap; the
  primary decodes them to a time that is not zero and reports some 269 years of lag.
\<close>

lemma idle_follower_lag:
  "sl_MillisBehind (symbol_lag (17 * 10 ^ 17) symb 5 (Some \<lparr>fp_position = 0, fp_recordedAt = time_Unix (UnixNano zero_Time), fp_reportedAt = 0\<rparr>))
     = 8495364578871"
  by (simp add: symbol_lag_def Let_def time_Unix_def UnixNano_def zero_Time_def i64_def sub64_def Milliseconds_def time_Sub_def
      max_i64_def quot64_def)

end
