(* ===== verification/OMS_Api.thy ===== *)
theory OMS_Api
  imports OMS_Replication OMS_Feed OMS_Ledger
begin

text \<open>
  The order service of \<open>internal/api/server.go\<close>: validation of what arrives off the network, the
  handlers, the fan-out of trades, settlement, and what is measured.

  A handler meets the sequencer of its symbol through a \<open>schedule\<close>: whether the request is handed
  over at all, which other requests share its batch, and whether the caller stops waiting. The
  trade callback runs inside the commit; its calls are the new entries of \<open>sys_feed\<close>. Tracing
  and log lines have no effect on any of this and are left out.
\<close>

section \<open>Requests\<close>

definition maxAccountIDLen :: nat where
  "maxAccountIDLen = 64"

definition maxPrice :: int where
  "maxPrice = 2 ^ 40"

definition maxQuantity :: int where
  "maxQuantity = 2 ^ 32"

record pb_PlaceOrderRequest =
  po_Symbol :: string
  po_AccountId :: string
  po_Side :: pb_Side
  po_Type :: pb_OrderType
  po_Price :: int
  po_Quantity :: int

record pb_PlaceOrderResponse =
  pp_OrderId :: int
  pp_LogPosition :: int
  pp_Trades :: "pb_Trade list"
  pp_RestingQuantity :: int
  pp_SelfPreventedOrderIds :: "int list"

record pb_CancelOrderRequest =
  pc_Symbol :: string
  pc_OrderId :: int
  pc_AccountId :: string

definition validateSymbol :: "string \<Rightarrow> code option" where
  "validateSymbol symbol = (if symbol = [] then Some codes_InvalidArgument else None)"

definition printable :: "char \<Rightarrow> bool" where
  "printable c \<longleftrightarrow> \<not> (of_char c < (32 :: nat) \<or> of_char c > (126 :: nat))"

definition validateAccountID :: "string \<Rightarrow> code + string" where
  "validateAccountID account =
     (if account = [] then Inl codes_InvalidArgument
      else if length account > maxAccountIDLen then Inl codes_InvalidArgument
      else if \<not> list_all printable account then Inl codes_InvalidArgument
      else Inr account)"

definition orderFromRequest :: "pb_PlaceOrderRequest \<Rightarrow> code + Order" where
  "orderFromRequest req = (case validateSymbol (po_Symbol req) of
     Some c \<Rightarrow> Inl c
   | None \<Rightarrow> (case validateAccountID (po_AccountId req) of
       Inl c \<Rightarrow> Inl c
     | Inr account \<Rightarrow> (case (case po_Side req of SIDE_BUY \<Rightarrow> Some Buy | SIDE_SELL \<Rightarrow> Some Sell | _ \<Rightarrow> None) of
         None \<Rightarrow> Inl codes_InvalidArgument
       | Some side \<Rightarrow> (case (case po_Type req of ORDER_TYPE_LIMIT \<Rightarrow> Some Limit | ORDER_TYPE_MARKET \<Rightarrow> Some Market | _ \<Rightarrow> None) of
           None \<Rightarrow> Inl codes_InvalidArgument
         | Some orderType \<Rightarrow>
             let qty = po_Quantity req; price = po_Price req
             in if qty \<le> 0 \<or> qty > maxQuantity then Inl codes_InvalidArgument
                else if orderType = Limit \<and> (price \<le> 0 \<or> price > maxPrice) then Inl codes_InvalidArgument
                else if orderType = Market \<and> price \<noteq> 0 then Inl codes_InvalidArgument
                else Inr (zero_Order\<lparr>o_Symbol := po_Symbol req, o_Placer := account, o_Type := orderType,
                            o_Price := price, o_Quantity := qty, o_Side := side\<rparr>)))))"

section \<open>The server\<close>

text \<open>What an observer is told; durations are those the clock gave.\<close>

datatype observation =
    ObserveOrder string pb_Side pb_OrderType string nat
  | ObserveCancel string string
  | ObserveSettlement string
  | ObserveFeedDrop string

record Server =
  sv_ledger :: bool
  sv_obs :: bool
  sv_feeds :: "(string, tradeFeed) gomap"
  sv_seen :: "observation list"

text \<open>
  Everything a handler can change: the server's own feeds and measurements, the registry it
  installs its callback in, the system behind it, and the journal.
\<close>

record Node =
  nd_server :: Server
  nd_reg :: Registry
  nd_sys :: System
  nd_journal :: journal

definition NewServerWithObserver :: "bool \<Rightarrow> bool \<Rightarrow> Registry \<Rightarrow> Server \<times> Registry" where
  "NewServerWithObserver ledger obs r =
     (\<lparr>sv_ledger = ledger, sv_obs = obs, sv_feeds = [], sv_seen = []\<rparr>, r\<lparr>reg_OnTrades := True\<rparr>)"

definition NewServer :: "bool \<Rightarrow> Registry \<Rightarrow> Server \<times> Registry" where
  "NewServer ledger r = NewServerWithObserver ledger False r"

definition observe :: "observation \<Rightarrow> Server \<Rightarrow> Server" where
  "observe x s = (if sv_obs s then s\<lparr>sv_seen := sv_seen s @ [x]\<rparr> else s)"

definition observeOrder :: "pb_PlaceOrderRequest \<Rightarrow> string \<Rightarrow> nat \<Rightarrow> Server \<Rightarrow> Server" where
  "observeOrder req outcome trades s = observe (ObserveOrder (po_Symbol req) (po_Side req) (po_Type req) outcome trades) s"

definition observeCancel :: "string \<Rightarrow> string \<Rightarrow> Server \<Rightarrow> Server" where
  "observeCancel symbol outcome s = observe (ObserveCancel symbol outcome) s"

definition observeSettlement :: "LedgerErr option \<Rightarrow> Server \<Rightarrow> Server" where
  "observeSettlement e s = observe (ObserveSettlement (if e \<noteq> None then ''failed'' else ''ok'')) s"

definition submitOutcome :: "Err \<Rightarrow> string" where
  "submitOutcome e = (case e of
     ErrInsufficientFunds \<Rightarrow> ''insufficient_funds''
   | ErrInsufficientShares \<Rightarrow> ''insufficient_shares''
   | ErrUnknownAccount \<Rightarrow> ''unknown_account''
   | ErrSequencerClosed \<Rightarrow> ''shutting_down''
   | ErrContext _ \<Rightarrow> ''client_gone''
   | _ \<Rightarrow> ''error'')"

definition cancelOutcome :: "Err \<Rightarrow> string" where
  "cancelOutcome e = (case e of
     ErrNotOrderOwner _ \<Rightarrow> ''not_owner''
   | ErrSequencerClosed \<Rightarrow> ''shutting_down''
   | ErrContext _ \<Rightarrow> ''client_gone''
   | _ \<Rightarrow> ''not_found'')"

text \<open>\<open>feed\<close>: the feed of a symbol, created on first use.\<close>

definition feed :: "string \<Rightarrow> Server \<Rightarrow> Server \<times> tradeFeed" where
  "feed symbol s = (case map_of (sv_feeds s) symbol of
     Some f \<Rightarrow> (s, f)
   | None \<Rightarrow> let f = newTradeFeed\<lparr>f_onDrop := sv_obs s\<rparr> in (s\<lparr>sv_feeds := gput symbol f (sv_feeds s)\<rparr>, f))"

definition put_feed :: "string \<Rightarrow> tradeFeed \<Rightarrow> Server \<Rightarrow> Server" where
  "put_feed symbol f s = s\<lparr>sv_feeds := gput symbol f (sv_feeds s)\<rparr>"

definition onTrades :: "string \<Rightarrow> Trade list \<Rightarrow> Server \<Rightarrow> Server" where
  "onTrades symbol trades s =
     (let (s1, f) = feed symbol s; (f', drops) = feed_publish symbol trades f
      in (observe (ObserveFeedDrop symbol) ^^ drops) (put_feed symbol f' s1))"

section \<open>Meeting the sequencer\<close>

datatype schedule =
    NotServed
  | GoneBefore ContextErr
  | Batched "request list" "request list" "ContextErr option" Clock

text \<open>
  The request travels to the sequencer of its symbol, the batch it falls into is committed,
  and the callback is run for every batch of trades the commit published.
\<close>

definition run_callbacks :: "System \<Rightarrow> System \<Rightarrow> Server \<Rightarrow> Server" where
  "run_callbacks sys sys' s = fold (\<lambda>(symbol, trades). onTrades symbol trades) (drop (length (sys_feed sys)) (sys_feed sys')) s"

definition send :: "Json \<Rightarrow> schedule \<Rightarrow> string \<Rightarrow> request \<Rightarrow> Node \<Rightarrow> (handover \<times> Node) option" where
  "send js sch symbol rq nd = (case sch of
     NotServed \<Rightarrow> Some (SequencerStopped, nd)
   | GoneBefore c \<Rightarrow> Some (GaveUpBefore c, nd)
   | Batched before after gone ck \<Rightarrow> do {
       (ress, r', sys') \<leftarrow> commit_symbol js ck symbol (before @ rq # after) (nd_reg nd) (nd_sys nd);
       Some (case gone of Some c \<Rightarrow> GaveUpAfter c | None \<Rightarrow> Reply (ress ! length before),
             nd\<lparr>nd_reg := r', nd_sys := sys', nd_server := run_callbacks (nd_sys nd) sys' (nd_server nd)\<rparr>) })"

section \<open>Handlers\<close>

record Env =
  ev_json :: Json
  ev_now :: "SeqID \<Rightarrow> Time"
  ev_sentAt :: Time
  ev_schedule :: schedule
  ev_pg :: Postgres

definition place_response :: "OrderResponse \<Rightarrow> pb_PlaceOrderResponse" where
  "place_response resp = \<lparr>pp_OrderId = or_OrderID resp, pp_LogPosition = or_Seq resp, pp_Trades = tradesToPB (or_Trades resp),
     pp_RestingQuantity = or_RestingQuantity resp, pp_SelfPreventedOrderIds = seqIDsToInt64 (or_SelfPrevented resp)\<rparr>"

text \<open>From the sequencer's answer on: settlement and the reply.\<close>

definition place_settle ::
  "Env \<Rightarrow> pb_PlaceOrderRequest \<Rightarrow> OrderResponse \<Rightarrow> Node \<Rightarrow> (code + pb_PlaceOrderResponse) \<times> Node" where
  "place_settle env req resp nd =
     (let n = length (or_Trades resp);
          ok = (\<lambda>nd. (Inr (place_response resp), nd\<lparr>nd_server := observeOrder req ''accepted'' n (nd_server nd)\<rparr>))
      in if sv_ledger (nd_server nd) \<and> n > 0 then
           let (j, e) = Settle (ev_pg env) (or_Trades resp) (nd_journal nd);
               nd1 = nd\<lparr>nd_journal := j, nd_server := observeSettlement e (nd_server nd)\<rparr>
           in if e \<noteq> None
              then (Inl codes_Internal, nd1\<lparr>nd_server := observeOrder req ''unsettled'' n (nd_server nd1)\<rparr>)
              else ok nd1
         else ok nd)"

definition PlaceOrder :: "Env \<Rightarrow> pb_PlaceOrderRequest \<Rightarrow> Node \<Rightarrow> ((code + pb_PlaceOrderResponse) \<times> Node) option" where
  "PlaceOrder env req nd = (case orderFromRequest req of
     Inl c \<Rightarrow> Some (Inl c, nd\<lparr>nd_server := observeOrder req ''invalid'' 0 (nd_server nd)\<rparr>)
   | Inr order \<Rightarrow> do {
       (r, sys, e) \<leftarrow> Get (ev_json env) (ev_now env) (po_Symbol req) (nd_reg nd) (nd_sys nd);
       let nd1 = nd\<lparr>nd_reg := r, nd_sys := sys\<rparr>;
       (case e of
          Some err \<Rightarrow>
            Some (Inl (registryError err), nd1\<lparr>nd_server := observeOrder req ''unavailable'' 0 (nd_server nd1)\<rparr>)
        | None \<Rightarrow> do {
            (h, nd2) \<leftarrow> send (ev_json env) (ev_schedule env) (po_Symbol req) (submit_request order) nd1;
            (case Sequencer_Submit (ev_sentAt env) h of
               (_, Some err) \<Rightarrow>
                 Some (Inl (submitError err), nd2\<lparr>nd_server := observeOrder req (submitOutcome err) 0 (nd_server nd2)\<rparr>)
             | (resp, None) \<Rightarrow> Some (place_settle env req resp nd2)) }) })"

definition CancelOrder :: "Env \<Rightarrow> pb_CancelOrderRequest \<Rightarrow> Node \<Rightarrow> ((code + int) \<times> Node) option" where
  "CancelOrder env req nd = (case validateSymbol (pc_Symbol req) of
     Some c \<Rightarrow> Some (Inl c, nd)
   | None \<Rightarrow> (case validateAccountID (pc_AccountId req) of
       Inl c \<Rightarrow> Some (Inl c, nd)
     | Inr account \<Rightarrow>
         if pc_OrderId req \<le> 0 then Some (Inl codes_InvalidArgument, nd)
         else do {
           (r, sys, e) \<leftarrow> Get (ev_json env) (ev_now env) (pc_Symbol req) (nd_reg nd) (nd_sys nd);
           let nd1 = nd\<lparr>nd_reg := r, nd_sys := sys\<rparr>;
           (case e of
              Some err \<Rightarrow> Some (Inl (registryError err), nd1)
            | None \<Rightarrow> do {
                (h, nd2) \<leftarrow> send (ev_json env) (ev_schedule env) (pc_Symbol req) (cancel_request (pc_OrderId req) account) nd1;
                (case CancelFor h of
                   (_, Some err) \<Rightarrow>
                     Some (Inl (cancelError err), nd2\<lparr>nd_server := observeCancel (pc_Symbol req) (cancelOutcome err) (nd_server nd2)\<rparr>)
                 | (pos, None) \<Rightarrow>
                     Some (Inr pos, nd2\<lparr>nd_server := observeCancel (pc_Symbol req) ''cancelled'' (nd_server nd2)\<rparr>)) }) }))"

text \<open>\<open>GetBookSnapshot\<close> returns the depth and the position it was taken at; the JSON text is left out.\<close>

definition GetBookSnapshot :: "Env \<Rightarrow> string \<Rightarrow> Node \<Rightarrow> ((code + BookState option \<times> int) \<times> Node) option" where
  "GetBookSnapshot env symbol nd = (case validateSymbol symbol of
     Some c \<Rightarrow> Some (Inl c, nd)
   | None \<Rightarrow> do {
       (r, sys, e) \<leftarrow> Get (ev_json env) (ev_now env) symbol (nd_reg nd) (nd_sys nd);
       let nd1 = nd\<lparr>nd_reg := r, nd_sys := sys\<rparr>;
       (case e of
          Some err \<Rightarrow> Some (Inl (registryError err), nd1)
        | None \<Rightarrow> do {
            (h, nd2) \<leftarrow> send (ev_json env) (ev_schedule env) symbol snapshot_request nd1;
            (case Sequencer_Snapshot h of
               (_, _, Some err) \<Rightarrow> Some (Inl (submitError err), nd2)
             | (state, position, None) \<Rightarrow> Some (Inr (state, position), nd2)) }) })"

text \<open>
  \<open>StreamTrades\<close>: the subscription, then one turn of its loop, which sends a batch trade by trade
  until a send fails, and the deferred unsubscription.
\<close>

definition stream_open :: "Env \<Rightarrow> string \<Rightarrow> Node \<Rightarrow> ((code + int) \<times> Node) option" where
  "stream_open env symbol nd = (case validateSymbol symbol of
     Some c \<Rightarrow> Some (Inl c, nd)
   | None \<Rightarrow>
       let (s1, f) = feed symbol (nd_server nd); (f', i) = subscribe f; nd1 = nd\<lparr>nd_server := put_feed symbol f' s1\<rparr>
       in do {
         (r, sys, e) \<leftarrow> Get (ev_json env) (ev_now env) symbol (nd_reg nd1) (nd_sys nd1);
         let nd2 = nd1\<lparr>nd_reg := r, nd_sys := sys\<rparr>;
         (case e of
            Some err \<Rightarrow>
              let (s3, f3) = feed symbol (nd_server nd2)
              in Some (Inl (registryError err), nd2\<lparr>nd_server := put_feed symbol (unsubscribe i f3) s3\<rparr>)
          | None \<Rightarrow> Some (Inr i, nd2)) })"

definition stream_turn :: "(Trade \<Rightarrow> bool) \<Rightarrow> string \<Rightarrow> int \<Rightarrow> Node \<Rightarrow> (pb_Trade list \<times> bool \<times> Node) option" where
  "stream_turn sends symbol i nd =
     (let (s1, f) = feed symbol (nd_server nd) in
      case feed_receive i f of
        None \<Rightarrow> None
      | Some (f', batch) \<Rightarrow>
          let ok = takeWhile sends (tb_trades batch); broke = (length ok < length (tb_trades batch))
          in Some (map tradeToPB ok, broke,
                   nd\<lparr>nd_server := put_feed symbol (if broke then unsubscribe i f' else f') s1\<rparr>))"

definition stream_close :: "string \<Rightarrow> int \<Rightarrow> Node \<Rightarrow> Node" where
  "stream_close symbol i nd =
     (let (s1, f) = feed symbol (nd_server nd) in nd\<lparr>nd_server := put_feed symbol (unsubscribe i f) s1\<rparr>)"

end
