(* ===== verification/OMS_Api_Props.thy ===== *)
theory OMS_Api_Props
  imports OMS_Api OMS_Ledger_Props OMS_Registry_Props
begin

text \<open>
  What the order service promises its clients: which requests are refused and that refusing one
  has no effect, and what a successful answer means for the log and for the journal.
\<close>

section \<open>Validation\<close>

text \<open>The documented shape of a request.\<close>

definition valid_request :: "pb_PlaceOrderRequest \<Rightarrow> bool" where
  "valid_request req \<longleftrightarrow> po_Symbol req \<noteq> [] \<and> po_AccountId req \<noteq> [] \<and> length (po_AccountId req) \<le> 64 \<and>
     (\<forall>c \<in> set (po_AccountId req). 32 \<le> (of_char c :: nat) \<and> (of_char c :: nat) \<le> 126) \<and>
     po_Side req \<in> {SIDE_BUY, SIDE_SELL} \<and> 1 \<le> po_Quantity req \<and> po_Quantity req \<le> 2 ^ 32 \<and>
     (po_Type req = ORDER_TYPE_LIMIT \<and> 1 \<le> po_Price req \<and> po_Price req \<le> 2 ^ 40 \<or>
      po_Type req = ORDER_TYPE_MARKET \<and> po_Price req = 0)"

definition requested :: "pb_PlaceOrderRequest \<Rightarrow> Order" where
  "requested req = \<lparr>o_SeqID = 0, o_Symbol = po_Symbol req, o_Placer = po_AccountId req,
     o_Type = (if po_Type req = ORDER_TYPE_LIMIT then Limit else Market), o_Price = po_Price req,
     o_Quantity = po_Quantity req, o_Side = (if po_Side req = SIDE_BUY then Buy else Sell), o_TimeStamp = zero_Time\<rparr>"

lemma validateAccountID_iff:
  "validateAccountID account = (if account \<noteq> [] \<and> length account \<le> 64 \<and>
     (\<forall>c \<in> set account. 32 \<le> (of_char c :: nat) \<and> (of_char c :: nat) \<le> 126) then Inr account else Inl codes_InvalidArgument)"
  by (auto simp: validateAccountID_def maxAccountIDLen_def list_all_iff printable_def not_less)

lemma orderFromRequest_iff:
  "orderFromRequest req = (if valid_request req then Inr (requested req) else Inl codes_InvalidArgument)"
  unfolding orderFromRequest_def validateAccountID_iff
  by (cases "po_Side req"; cases "po_Type req")
    (auto simp: valid_request_def requested_def validateSymbol_def Let_def maxQuantity_def maxPrice_def zero_Order_def)

lemma valid_incoming: "valid_request req \<Longrightarrow> incoming (submit_request (requested req))"
  by (auto simp: incoming_def submit_request_def zero_request_def requested_def sane_order_def valid_request_def is_i64_def)


definition demo_request :: pb_PlaceOrderRequest where
  "demo_request = \<lparr>po_Symbol = ''NABIL'', po_AccountId = ''ram'', po_Side = SIDE_SELL, po_Type = ORDER_TYPE_LIMIT,
     po_Price = 100, po_Quantity = 5\<rparr>"


section \<open>An accepted order\<close>

definition acked :: "Record list \<Rightarrow> request list \<Rightarrow> result list \<Rightarrow> bool" where
  "acked M batch ress \<longleftrightarrow> (\<forall>i < length batch. rq_kind (batch ! i) = reqSubmit \<and> rs_err (ress ! i) = None \<longrightarrow>
     (\<exists>rec \<in> set M. r_Kind rec = RecordSubmit \<and> r_Seq rec = rs_seq (ress ! i) \<and> o_SeqID (r_Order rec) = rs_orderID (ress ! i) \<and>
        terms (r_Order rec) = terms (rq_order (batch ! i))))"

lemma ackedE:
  assumes "acked M batch ress" "i < length batch" "rq_kind (batch ! i) = reqSubmit" "rs_err (ress ! i) = None"
  obtains rec where "rec \<in> set M" "r_Kind rec = RecordSubmit" "r_Seq rec = rs_seq (ress ! i)"
    "o_SeqID (r_Order rec) = rs_orderID (ress ! i)" "terms (r_Order rec) = terms (rq_order (batch ! i))"
  using assms unfolding acked_def by blast

text \<open>What a request carries through the commit, and when the last loop answers it without an error.\<close>

definition wish :: "request \<Rightarrow> reqKind \<times> Err option \<times> string \<times> OrderType \<times> Price \<times> int \<times> OrderSide" where
  "wish r = (rq_kind r, rq_preErr r, terms (rq_order r))"

definition servable :: "request \<Rightarrow> bool" where
  "servable r \<longleftrightarrow> rq_kind r = reqSubmit \<and> rq_preErr r = None \<and> o_Side (rq_order r) \<noteq> UnknownSide \<and> o_Type (rq_order r) \<noteq> UnknownType"

lemma servable_wish: "wish r = wish r' \<Longrightarrow> servable r = servable r'"
  by (auto simp: wish_def servable_def terms_def)

lemma serve_accepts:
  assumes "serve ck i r s v = Some (res, s', v')" "servable r" "s_walErr s = None"
  shows "rs_err res = None"
proof -
  obtain b mr e where "SubmitOrder (ck_trade ck) (s_book s) (rq_order r) = Some (b, mr, e)" "rs_err res = e"
    using assms by (auto simp: serve_def serve_submit_def servable_def Let_def split: bind_splits)
  then show ?thesis using assms(2) by (auto simp: SubmitOrder_def servable_def Let_def split: if_splits bind_splits)
qed

lemma serve_all_accepts:
  assumes "serve_all ck i rs s v = Some (ress, s', v')" "s_walErr s = None"
  shows "list_all2 (\<lambda>r res. servable r \<longrightarrow> rs_err res = None) rs ress"
  using assms
proof (induction rs arbitrary: i s v ress)
  case (Cons r rs)
  obtain res s1 v1 ress1 where 1: "serve ck i r s v = Some (res, s1, v1)"
    "serve_all ck (Suc i) rs s1 v1 = Some (ress1, s', v')" "ress = res # ress1"
    using Cons.prems by (auto split: bind_splits)
  have one: "serve_all ck i [r] s v = Some ([res], s1, v1)" using 1(1) by simp
  have "s_walErr s1 = None" by (subst serve_all_state [OF one]) (simp add: Cons.prems(2))
  from Cons.IH [OF 1(2) this] serve_accepts [OF 1(1) _ Cons.prems(2)] show ?case by (simp add: 1(3))
qed simp

lemma log_requests_wish: "log_requests js ts rs seq w d = Some (rs', seq', w', d', e) \<Longrightarrow> map wish rs' = map wish rs"
proof (induction rs arbitrary: seq w d rs' e)
  case (Cons r rs)
  then show ?case by (auto simp: Let_def wish_def split: if_splits bind_splits option.splits)
qed simp

lemma log_phase_wish: "log_phase js ts rs s d = Some (rs', s', d') \<Longrightarrow> map wish rs' = map wish rs"
  by (auto simp: log_phase_def logBatch_def dest!: log_requests_wish split: option.splits bind_splits)

lemma assign_ids_wish: "map wish (fst (assign_ids rs s)) = map wish rs"
proof (induction rs arbitrary: s)
  case (Cons r rs)
  have "wish (fst (assign_id r s)) = wish r" by (simp add: assign_id_def wish_def terms_def Let_def)
  with Cons show ?case by (simp add: case_prod_beta Let_def)
qed simp

text \<open>The pre-trade check changes nothing of a request but the error it gives it.\<close>

definition let_through :: "Sequencer \<Rightarrow> request list \<Rightarrow> Accounts \<Rightarrow> nat \<Rightarrow> bool" where
  "let_through s batch a i \<longleftrightarrow> rq_preErr (prepared s batch a ! i) = None"

lemma let_through_servable:
  assumes "i < length batch" "servable (batch ! i)" "let_through s batch a i"
  shows "servable (prepared s batch a ! i)" "i < length (prepared s batch a)"
proof -
  let ?b = "fst (assign_ids batch s)"
  have w: "wish (?b ! i) = wish (batch ! i)" "i < length ?b"
    using arg_cong [OF assign_ids_wish [of batch s], of "\<lambda>xs. xs ! i"] arg_cong [OF assign_ids_wish [of batch s], of length] assms(1) by simp_all
  have b: "servable (?b ! i)" using servable_wish [OF w(1)] assms(2) by blast
  have r: "length (fst (reserve_all ?b a)) = length ?b" "rq_kind (fst (reserve_all ?b a) ! i) = rq_kind (?b ! i)"
    "rq_order (fst (reserve_all ?b a) ! i) = rq_order (?b ! i)"
    using reserve_all_frame(1,2) [of ?b a] w(2) by (auto simp: list_eq_iff_nth_eq)
  show "servable (prepared s batch a ! i)" "i < length (prepared s batch a)"
    using b r w(2) assms(3) by (simp_all add: prepared_def let_through_def servable_def Let_def split: if_splits)
qed

lemma commit_accepts:
  assumes c: "commit js ck batch s v = Some (ress, s', v')" and s: "s_walErr s' = None"
    and i: "i < length batch" "servable (batch ! i)" "let_through s batch (v_accounts v) i"
  shows "rs_err (ress ! i) = None"
proof -
  obtain s2 a2 b3 s3 d3 s4 where
    lp: "log_phase js (ck_pickedUp ck) (prepared s batch (v_accounts v)) s2 (v_disk v) = Some (b3, s3, d3)"
    and sa: "serve_all ck 0 b3 s3 (v\<lparr>v_accounts := a2, v_disk := d3\<rparr>) = Some (ress, s4, v')"
    and s3: "s_walErr s3 = s_walErr s'"
    by (rule commit_cases [OF c])
  note b = let_through_servable [OF i]
  have "wish (b3 ! i) = wish (prepared s batch (v_accounts v) ! i)" "i < length b3"
    using arg_cong [OF log_phase_wish [OF lp], of "\<lambda>xs. xs ! i"] arg_cong [OF log_phase_wish [OF lp], of length] b(2) by simp_all
  then have "servable (b3 ! i)" "i < length b3" using b(1) servable_wish by blast+
  then show ?thesis using list_all2_nthD [OF serve_all_accepts [OF sa]] s3 s by simp
qed

lemma commit_symbol_live:
  assumes s: "map_of (reg_seqs r) symb = Some s" and l: "live js s (dir_of sys symb) L" and d: "map_of (sys_dirs sys) symb \<noteq> None"
    and f: "fits_batch js ck batch s (venue_of sys symb)"
  shows "\<exists>ress s' sys'. commit_symbol js ck symb batch r sys = Some (ress, r\<lparr>reg_seqs := gput symb s' (reg_seqs r)\<rparr>, sys') \<and>
    live js s' (dir_of sys' symb) (L @ batch_records ck batch s (venue_of sys symb)) \<and> length ress = length batch \<and>
    acked (batch_records ck batch s (venue_of sys symb)) batch ress \<and>
    (\<forall>i < length batch. servable (batch ! i) \<and> let_through s batch (sys_accounts sys) i \<longrightarrow> rs_err (ress ! i) = None)"
proof -
  have "live js s (v_disk (venue_of sys symb)) L" using l by (simp add: venue_of_def)
  from commit_ok [OF this f] obtain ress s' v' where c: "commit js ck batch s (venue_of sys symb) = Some (ress, s', v')"
    "live js s' (v_disk v') (L @ batch_records ck batch s (venue_of sys symb))" "length ress = length batch"
    "acked (batch_records ck batch s (venue_of sys symb)) batch ress"
    unfolding acked_def by auto
  have "dir_of (with_venue symb v' sys) symb = v_disk v'" using d by (auto simp: with_venue_def update_dir_def dir_of_def)
  then have "commit_symbol js ck symb batch r sys = Some (ress, r\<lparr>reg_seqs := gput symb s' (reg_seqs r)\<rparr>, with_venue symb v' sys) \<and>
      live js s' (dir_of (with_venue symb v' sys) symb) (L @ batch_records ck batch s (venue_of sys symb))"
    using c s by (simp add: commit_symbol_def)
  moreover have "rs_err (ress ! i) = None" if "i < length batch" "servable (batch ! i)" "let_through s batch (sys_accounts sys) i" for i
    using commit_accepts [OF c(1) _ that(1,2)] that(3) c(2) by (simp add: live_def venue_of_def)
  ultimately show ?thesis using c(3,4) by blast
qed

lemma observe_frame [simp]:
  "sv_ledger (observe x s) = sv_ledger s" "sv_obs (observe x s) = sv_obs s" "sv_feeds (observe x s) = sv_feeds s"
  by (simp_all add: observe_def)

lemma feed_ledger [simp]: "sv_ledger (fst (feed symb s)) = sv_ledger s"
  by (cases "map_of (sv_feeds s) symb") (simp_all add: feed_def Let_def)

lemma put_feed_ledger [simp]: "sv_ledger (put_feed symb f s) = sv_ledger s"
  by (simp add: put_feed_def)

lemma observe_pow_ledger [simp]: "sv_ledger ((observe x ^^ n) s) = sv_ledger s"
  by (induction n) simp_all

lemma onTrades_ledger [simp]: "sv_ledger (onTrades symb ts s) = sv_ledger s"
proof -
  obtain s1 f where f: "feed symb s = (s1, f)" by (cases "feed symb s")
  obtain f' n where p: "feed_publish symb ts f = (f', n)" by (cases "feed_publish symb ts f")
  have "sv_ledger s1 = sv_ledger s" using feed_ledger [of symb s] unfolding f by simp
  then show ?thesis by (simp add: onTrades_def f p)
qed

lemma fold_onTrades_ledger: "sv_ledger (fold (\<lambda>(symbol, trades). onTrades symbol trades) xs s) = sv_ledger s"
proof (induction xs arbitrary: s)
  case (Cons x xs)
  obtain symb ts where x: "x = (symb, ts)" by (cases x)
  show ?case unfolding fold.simps comp_apply x prod.case Cons.IH by (rule onTrades_ledger)
qed simp

lemma run_callbacks_ledger [simp]: "sv_ledger (run_callbacks sys sys' s) = sv_ledger s"
  unfolding run_callbacks_def by (rule fold_onTrades_ledger)

text \<open>What an answer without an error says about the settlement.\<close>

lemma place_settle_ok:
  assumes "place_settle env req resp nd = (Inr out, nd')"
  shows "out = place_response resp" "nd_reg nd' = nd_reg nd" "nd_sys nd' = nd_sys nd" "sv_ledger (nd_server nd') = sv_ledger (nd_server nd)"
    "sv_ledger (nd_server nd) \<Longrightarrow> leg_key ` set (all_legs (or_Trades resp)) \<subseteq> leg_key ` set (nd_journal nd')"
proof -
  have "out = place_response resp \<and> nd_reg nd' = nd_reg nd \<and> nd_sys nd' = nd_sys nd \<and> sv_ledger (nd_server nd') = sv_ledger (nd_server nd) \<and>
    (sv_ledger (nd_server nd) \<longrightarrow> leg_key ` set (all_legs (or_Trades resp)) \<subseteq> leg_key ` set (nd_journal nd'))"
  proof (cases "sv_ledger (nd_server nd) \<and> length (or_Trades resp) > 0")
    case True
    obtain j e where se: "Settle (ev_pg env) (or_Trades resp) (nd_journal nd) = (j, e)" by fastforce
    with assms True have e: "e = None" and out: "out = place_response resp"
      "nd' = nd\<lparr>nd_journal := j, nd_server := observeOrder req ''accepted'' (length (or_Trades resp)) (observeSettlement e (nd_server nd))\<rparr>"
      by (auto simp: place_settle_def Let_def split: if_splits)
    from journal.success [OF se [unfolded e]] show ?thesis using out by (auto simp: observeOrder_def observeSettlement_def)
  next
    case False
    with assms show ?thesis by (auto simp: place_settle_def Let_def all_legs_def observeOrder_def)
  qed
  then show "out = place_response resp" "nd_reg nd' = nd_reg nd" "nd_sys nd' = nd_sys nd" "sv_ledger (nd_server nd') = sv_ledger (nd_server nd)"
    "sv_ledger (nd_server nd) \<Longrightarrow> leg_key ` set (all_legs (or_Trades resp)) \<subseteq> leg_key ` set (nd_journal nd')" by blast+
qed

text \<open>The handler up to the sequencer's answer, on a working log.\<close>

lemma place_sent:
  assumes req: "valid_request req" "validSymbol (po_Symbol req)"
    and s: "map_of (reg_seqs (nd_reg nd)) (po_Symbol req) = Some s"
    and l: "live (ev_json env) s (dir_of (nd_sys nd) (po_Symbol req)) L"
    and d: "map_of (sys_dirs (nd_sys nd)) (po_Symbol req) \<noteq> None"
    and sch: "ev_schedule env = Batched before after gone ck"
    and f: "fits_batch (ev_json env) ck (before @ submit_request (requested req) # after) s (venue_of (nd_sys nd) (po_Symbol req))"
  obtains h nd2 s' M where
    "PlaceOrder env req nd = (case Sequencer_Submit (ev_sentAt env) h of
      (_, Some err) \<Rightarrow> Some (Inl (submitError err), nd2\<lparr>nd_server := observeOrder req (submitOutcome err) 0 (nd_server nd2)\<rparr>)
    | (resp, None) \<Rightarrow> Some (place_settle env req resp nd2))"
    "map_of (reg_seqs (nd_reg nd2)) (po_Symbol req) = Some s'" "live (ev_json env) s' (dir_of (nd_sys nd2) (po_Symbol req)) (L @ M)"
    "sv_ledger (nd_server nd2) = sv_ledger (nd_server nd)"
    "\<And>r. Sequencer_Submit (ev_sentAt env) h = (r, None) \<Longrightarrow> \<exists>rec \<in> set M. r_Kind rec = RecordSubmit \<and>
       r_Seq rec = or_Seq r \<and> o_SeqID (r_Order rec) = or_OrderID r \<and> terms (r_Order rec) = terms (requested req)"
    "let_through s (before @ submit_request (requested req) # after) (sys_accounts (nd_sys nd)) (length before) \<Longrightarrow> gone = None \<Longrightarrow>
       snd (Sequencer_Submit (ev_sentAt env) h) = None"
proof -
  let ?symb = "po_Symbol req" and ?js = "ev_json env" and ?i = "length before"
  let ?batch = "before @ submit_request (requested req) # after"
  define M where "M = batch_records ck ?batch s (venue_of (nd_sys nd) ?symb)"
  obtain ress s' sys' where c: "commit_symbol ?js ck ?symb ?batch (nd_reg nd) (nd_sys nd) =
      Some (ress, (nd_reg nd)\<lparr>reg_seqs := gput ?symb s' (reg_seqs (nd_reg nd))\<rparr>, sys')" "live ?js s' (dir_of sys' ?symb) (L @ M)"
    and ack: "acked M ?batch ress"
    and acc: "\<forall>i < length ?batch. servable (?batch ! i) \<and> let_through s ?batch (sys_accounts (nd_sys nd)) i \<longrightarrow> rs_err (ress ! i) = None"
    using commit_symbol_live [OF s l d f] unfolding M_def by blast
  define h where "h = (case gone of Some g \<Rightarrow> GaveUpAfter g | None \<Rightarrow> Reply (ress ! ?i))"
  define nd2 where "nd2 = nd\<lparr>nd_reg := (nd_reg nd)\<lparr>reg_seqs := gput ?symb s' (reg_seqs (nd_reg nd))\<rparr>, nd_sys := sys',
      nd_server := run_callbacks (nd_sys nd) sys' (nd_server nd)\<rparr>"
  have nd2: "map_of (reg_seqs (nd_reg nd2)) ?symb = Some s'" "nd_sys nd2 = sys'" "sv_ledger (nd_server nd2) = sv_ledger (nd_server nd)"
    by (simp_all add: nd2_def)
  have get: "Get ?js (ev_now env) ?symb (nd_reg nd) (nd_sys nd) = Some (nd_reg nd, nd_sys nd, None)"
    using req(2) s by (simp add: Get_def)
  have "send ?js (ev_schedule env) ?symb (submit_request (requested req)) nd = Some (h, nd2)"
    using c(1) by (simp add: send_def sch h_def nd2_def)
  then have po: "PlaceOrder env req nd = (case Sequencer_Submit (ev_sentAt env) h of
      (_, Some err) \<Rightarrow> Some (Inl (submitError err), nd2\<lparr>nd_server := observeOrder req (submitOutcome err) 0 (nd_server nd2)\<rparr>)
    | (resp, None) \<Rightarrow> Some (place_settle env req resp nd2))"
    using req(1) get by (simp add: PlaceOrder_def orderFromRequest_iff split: prod.split option.split)
  have sub: "?i < length ?batch" "?batch ! ?i = submit_request (requested req)" "servable (submit_request (requested req))"
    "rq_kind (?batch ! ?i) = reqSubmit" "rq_order (?batch ! ?i) = requested req"
    by (simp_all add: servable_def submit_request_def zero_request_def requested_def)
  have quiet: "snd (Sequencer_Submit (ev_sentAt env) h) = None" if "let_through s ?batch (sys_accounts (nd_sys nd)) ?i" "gone = None"
  proof -
    have "rs_err (ress ! ?i) = None" using acc that(1) sub(1-3) by (metis (no_types))
    then show ?thesis using that(2) by (simp add: h_def Sequencer_Submit_def seq_do_def)
  qed
  have "\<exists>rec \<in> set M. r_Kind rec = RecordSubmit \<and> r_Seq rec = or_Seq r \<and> o_SeqID (r_Order rec) = or_OrderID r \<and>
      terms (r_Order rec) = terms (requested req)" if "Sequencer_Submit (ev_sentAt env) h = (r, None)" for r
  proof -
    have h: "rs_err (ress ! ?i) = None" "or_Seq r = rs_seq (ress ! ?i)" "or_OrderID r = rs_orderID (ress ! ?i)"
      using that by (auto simp: Sequencer_Submit_def seq_do_def h_def split: option.splits)
    show ?thesis using ackedE [OF ack sub(1,4) h(1)] h(2,3) sub(5) by metis
  qed
  with that [OF po nd2(1) c(2) [folded nd2(2)] nd2(3)] quiet show thesis by blast
qed

lemma placed_order_logged:
  assumes "valid_request req" "validSymbol (po_Symbol req)"
    "map_of (reg_seqs (nd_reg nd)) (po_Symbol req) = Some s"
    "live (ev_json env) s (dir_of (nd_sys nd) (po_Symbol req)) L"
    "map_of (sys_dirs (nd_sys nd)) (po_Symbol req) \<noteq> None"
    "ev_schedule env = Batched before after gone ck"
    "fits_batch (ev_json env) ck (before @ submit_request (requested req) # after) s (venue_of (nd_sys nd) (po_Symbol req))"
    and po: "PlaceOrder env req nd = Some (Inr resp, nd')"
  shows "\<exists>s' M rec ts. map_of (reg_seqs (nd_reg nd')) (po_Symbol req) = Some s' \<and>
    live (ev_json env) s' (dir_of (nd_sys nd') (po_Symbol req)) (L @ M) \<and> rec \<in> set M \<and> r_Kind rec = RecordSubmit \<and>
    r_Seq rec = pp_LogPosition resp \<and> o_SeqID (r_Order rec) = pp_OrderId resp \<and> terms (r_Order rec) = terms (requested req) \<and>
    pp_Trades resp = map tradeToPB ts \<and>
    (sv_ledger (nd_server nd) \<longrightarrow> leg_key ` set (all_legs ts) \<subseteq> leg_key ` set (nd_journal nd'))"
proof -
  obtain h nd2 s' M where p: "PlaceOrder env req nd = (case Sequencer_Submit (ev_sentAt env) h of
      (_, Some err) \<Rightarrow> Some (Inl (submitError err), nd2\<lparr>nd_server := observeOrder req (submitOutcome err) 0 (nd_server nd2)\<rparr>)
    | (resp, None) \<Rightarrow> Some (place_settle env req resp nd2))"
    and l: "map_of (reg_seqs (nd_reg nd2)) (po_Symbol req) = Some s'" "live (ev_json env) s' (dir_of (nd_sys nd2) (po_Symbol req)) (L @ M)"
    and led: "sv_ledger (nd_server nd2) = sv_ledger (nd_server nd)"
    and k: "\<And>r. Sequencer_Submit (ev_sentAt env) h = (r, None) \<Longrightarrow> \<exists>rec \<in> set M. r_Kind rec = RecordSubmit \<and>
       r_Seq rec = or_Seq r \<and> o_SeqID (r_Order rec) = or_OrderID r \<and> terms (r_Order rec) = terms (requested req)"
    by (rule place_sent [OF assms(1-7)]) (rule that; assumption)
  obtain r where r: "Sequencer_Submit (ev_sentAt env) h = (r, None)" and ps: "place_settle env req r nd2 = (Inr resp, nd')"
    using p po by (cases "Sequencer_Submit (ev_sentAt env) h") (auto split: option.splits)
  obtain rec where rec: "rec \<in> set M" "r_Kind rec = RecordSubmit" "r_Seq rec = or_Seq r" "o_SeqID (r_Order rec) = or_OrderID r"
    "terms (r_Order rec) = terms (requested req)" using k [OF r] by blast
  note q = place_settle_ok [OF ps]
  have "pp_Trades resp = map tradeToPB (or_Trades r)" "pp_LogPosition resp = or_Seq r" "pp_OrderId resp = or_OrderID r"
    unfolding q(1) by (simp_all add: place_response_def tradesToPB_def)
  then show ?thesis using q(2,3,5) l led rec
    by (intro exI [of _ s'] exI [of _ M] exI [of _ rec] exI [of _ "or_Trades r"]) simp
qed

lemma place_answers:
  assumes "valid_request req" "validSymbol (po_Symbol req)"
    "map_of (reg_seqs (nd_reg nd)) (po_Symbol req) = Some s"
    "live (ev_json env) s (dir_of (nd_sys nd) (po_Symbol req)) L"
    "map_of (sys_dirs (nd_sys nd)) (po_Symbol req) \<noteq> None"
    "ev_schedule env = Batched before after gone ck"
    "fits_batch (ev_json env) ck (before @ submit_request (requested req) # after) s (venue_of (nd_sys nd) (po_Symbol req))"
  shows "\<exists>out nd'. PlaceOrder env req nd = Some (out, nd') \<and>
    (let_through s (before @ submit_request (requested req) # after) (sys_accounts (nd_sys nd)) (length before) \<and>
       \<not> sv_ledger (nd_server nd) \<and> gone = None \<longrightarrow> (\<exists>resp. out = Inr resp))"
proof -
  obtain h nd2 where p: "PlaceOrder env req nd = (case Sequencer_Submit (ev_sentAt env) h of
      (_, Some err) \<Rightarrow> Some (Inl (submitError err), nd2\<lparr>nd_server := observeOrder req (submitOutcome err) 0 (nd_server nd2)\<rparr>)
    | (resp, None) \<Rightarrow> Some (place_settle env req resp nd2))"
    and led: "sv_ledger (nd_server nd2) = sv_ledger (nd_server nd)"
    and quiet: "let_through s (before @ submit_request (requested req) # after) (sys_accounts (nd_sys nd)) (length before) \<Longrightarrow> gone = None \<Longrightarrow>
       snd (Sequencer_Submit (ev_sentAt env) h) = None"
    by (rule place_sent [OF assms]) (rule that; assumption)
  have "\<exists>x. PlaceOrder env req nd = Some x" unfolding p by (auto split: prod.split option.split)
  then obtain out nd' where po: "PlaceOrder env req nd = Some (out, nd')" by auto
  have "\<exists>resp. out = Inr resp" if q: "let_through s (before @ submit_request (requested req) # after) (sys_accounts (nd_sys nd)) (length before)"
      "\<not> sv_ledger (nd_server nd)" "gone = None"
  proof -
    obtain r where "Sequencer_Submit (ev_sentAt env) h = (r, None)" using quiet [OF q(1,3)] by (metis prod.collapse)
    then show ?thesis using p po q(2) led by (auto simp: place_settle_def Let_def)
  qed
  with po show ?thesis by blast
qed


lemma fresh_start:
  obtains w d where "live js (NewSequencerWithWAL NewBook (Some w)) d []" "write_ok d" "sync_ok d" "lastSeq w = 0"
proof -
  obtain w d where w: "OpenWriter js empty_disk = (d, Inr w)" "writer_inv js w d [(1, [])]" "lastSeq w = 0" "write_ok d" "sync_ok d"
    using OpenWriter_new [of empty_disk js] by (auto simp: empty_disk_def segmentPaths_def LastSeq_def)
  have "w_buf w = []" using w(1)
    by (auto simp: OpenWriter_def empty_disk_def segmentPaths_def openSegment_def Let_def new_writer_def)
  moreover have "wal_log js (w, d) []"
    unfolding wal_log_def using w(2) by (intro exI [of _ "[(1, [])]"]) (simp add: log_of_def)
  ultimately have "live js (NewSequencerWithWAL NewBook (Some w)) d []"
    using w(3) by (simp add: live_def NewSequencerWithWAL_def LastSeq_def MaxOrderID_def replayable_def)
      (simp add: NewBook_def)
  with w that show thesis by blast
qed

text \<open>A codec that knows the one payload of the evaluation.\<close>

definition demo_placed :: Record where
  "demo_placed = submit_record 1 ((requested demo_request)\<lparr>o_SeqID := 1\<rparr>)"

definition one_json :: Json where
  "one_json = \<lparr>j_Marshal = (\<lambda>_. Some []), j_Unmarshal = (\<lambda>_. Some (payload_of demo_placed))\<rparr>"

definition demo_env :: Env where
  "demo_env = \<lparr>ev_json = one_json, ev_now = demo_clock, ev_sentAt = 0, ev_schedule = Batched [] [] None demo_ck,
     ev_pg = \<lparr>pg_begin = True, pg_exec = (\<lambda>_. True), pg_close = True, pg_commit = Committed, pg_query = True\<rparr>\<rparr>"

definition demo_node :: "Sequencer \<Rightarrow> Disk \<Rightarrow> Node" where
  "demo_node s d = \<lparr>nd_server = fst (NewServer False demo_registry), nd_reg = demo_registry\<lparr>reg_seqs := [(''NABIL'', s)]\<rparr>,
     nd_sys = demo_system d, nd_journal = []\<rparr>"

lemma fresh_counters:
  assumes "lastSeq w = 0"
  shows "s_seq (NewSequencerWithWAL NewBook (Some w)) = 0" "s_nextOrderID (NewSequencerWithWAL NewBook (Some w)) = 0"
  using assms by (simp_all add: NewSequencerWithWAL_def LastSeq_def MaxOrderID_def NewBook_def)

lemma demo_placed_records:
  assumes "lastSeq w = 0"
  shows "batch_records demo_ck [submit_request (requested demo_request)] (NewSequencerWithWAL NewBook (Some w)) v = [demo_placed]"
  using assms
  by (simp add: batch_records_def prepared_def submit_request_def NewSequencerWithWAL_def LastSeq_def MaxOrderID_def NewBook_def
      assign_id_def zero_request_def requested_def demo_placed_def skipped_def record_of_def submit_record_def demo_ck_def
      Let_def add64_def is_i64_def)

lemma demo_placed_loggable: "loggable one_json demo_placed"
  by (simp add: loggable_def wf_record_def json_reads_back_def payload_bytes_def one_json_def demo_placed_def submit_record_def
      is_i64_def maxRecordPayload_def)

lemma demo_place:
  obtains s d where "live (ev_json demo_env) s (dir_of (nd_sys (demo_node s d)) (po_Symbol demo_request)) []"
    "valid_request demo_request" "validSymbol (po_Symbol demo_request)"
    "map_of (reg_seqs (nd_reg (demo_node s d))) (po_Symbol demo_request) = Some s"
    "map_of (sys_dirs (nd_sys (demo_node s d))) (po_Symbol demo_request) \<noteq> None"
    "ev_schedule demo_env = Batched [] [] None demo_ck"
    "fits_batch (ev_json demo_env) demo_ck ([] @ submit_request (requested demo_request) # []) s (venue_of (nd_sys (demo_node s d)) (po_Symbol demo_request))"
    "let_through s ([] @ submit_request (requested demo_request) # []) (sys_accounts (nd_sys (demo_node s d))) (length ([] :: request list))"
    "\<not> sv_ledger (nd_server (demo_node s d))"
proof -
  obtain w d where w: "live one_json (NewSequencerWithWAL NewBook (Some w)) d []" "write_ok d" "sync_ok d" "lastSeq w = 0"
    by (rule fresh_start)
  let ?s = "NewSequencerWithWAL NewBook (Some w)" and ?nd = "demo_node (NewSequencerWithWAL NewBook (Some w)) d"
  have v: "valid_request demo_request" "validSymbol (po_Symbol demo_request)" by code_simp+
  have n: "po_Symbol demo_request = ''NABIL''" "dir_of (nd_sys ?nd) ''NABIL'' = d"
    by (simp_all add: demo_request_def demo_node_def demo_system_def dir_of_def)
  have "fits_batch one_json demo_ck [submit_request (requested demo_request)] ?s (venue_of (nd_sys ?nd) ''NABIL'')"
    unfolding fits_batch_def batch_records_def [symmetric]
    unfolding demo_placed_records [OF w(4)] fresh_counters [OF w(4)]
    using valid_incoming [OF v(1)] w(2,3) demo_placed_loggable n(2) by (simp add: venue_of_def max_i64_def)
  moreover have "let_through ?s [submit_request (requested demo_request)] (sys_accounts (nd_sys ?nd)) (length ([] :: request list))" "\<not> sv_ledger (nd_server ?nd)"
    by (simp_all add: let_through_def prepared_def assign_id_def submit_request_def zero_request_def Let_def
        NewSequencerWithWAL_def demo_node_def NewServer_def NewServerWithObserver_def)
  moreover have e: "ev_json demo_env = one_json" "ev_schedule demo_env = Batched [] [] None demo_ck" by (simp_all add: demo_env_def)
  moreover have "map_of (reg_seqs (nd_reg ?nd)) ''NABIL'' = Some ?s" "map_of (sys_dirs (nd_sys ?nd)) ''NABIL'' \<noteq> None"
    by (simp_all add: demo_node_def demo_system_def)
  ultimately show thesis using that [of ?s d] v w(1) unfolding n e append_Nil by blast
qed


section \<open>A refused subscription\<close>

text \<open>
  \<open>StreamTrades\<close> subscribes before the registry validates the symbol: a refused call leaves the
  registry as it was but keeps a feed for the bogus symbol, and nothing ever removes one.
\<close>

lemma refused_stream_keeps_a_feed:
  assumes "symb \<noteq> []" "\<not> validSymbol symb" "map_of (sv_feeds (nd_server nd)) symb = None"
  shows "\<exists>nd' f. stream_open env symb nd = Some (Inl codes_InvalidArgument, nd') \<and> nd_reg nd' = nd_reg nd \<and>
    map_of (sv_feeds (nd_server nd')) symb = Some f \<and> subscriberCount f = 0"
  using assms
  by (simp add: stream_open_def validateSymbol_def feed_def subscribe_def put_feed_def Get_def registryError_def unsubscribe_def
      subscriberCount_def newTradeFeed_def Let_def)

end
