(* ===== verification/OMS_Serve.thy ===== *)
theory OMS_Serve
  imports OMS_Registry_Inv OMS_Sequencer_Props OMS_Book_Props
begin

text \<open>
  One request inside a group commit: which book it meets, which record it leaves and how it is
  answered, whatever shares its batch.
\<close>

section \<open>Splitting a batch\<close>

lemma batch_mutations_append [simp]: "batch_mutations (xs @ ys) = batch_mutations xs @ batch_mutations ys"
  by (simp add: batch_mutations_def)

lemma numbered_append:
  "numbered (xs @ ys) seq = numbered xs seq @ numbered ys (seq + int (length (batch_mutations xs)))"
  by (induction xs arbitrary: seq) (simp_all add: add.assoc)

lemma records_for_append:
  "records_for (xs @ ys) seq ts = records_for xs seq ts @ records_for ys (seq + int (length (batch_mutations xs))) ts"
  by (induction xs arbitrary: seq) (simp_all add: add.assoc)

lemma serve_all_append:
  assumes "serve_all ck i (xs @ ys) s v = Some (ress, s', v')"
  obtains r1 s1 v1 r2 where "serve_all ck i xs s v = Some (r1, s1, v1)" "serve_all ck (i + length xs) ys s1 v1 = Some (r2, s', v')"
    "ress = r1 @ r2" "length r1 = length xs"
  using assms
proof (induction xs arbitrary: i s v ress thesis)
  case (Cons x xs)
  obtain res sa va rest where 1: "serve ck i x s v = Some (res, sa, va)" "serve_all ck (Suc i) (xs @ ys) sa va = Some (rest, s', v')"
    "ress = res # rest"
    using Cons.prems(2) by (auto split: bind_splits)
  from Cons.IH [OF _ 1(2)] obtain r1 s1 v1 r2 where
    "serve_all ck (Suc i) xs sa va = Some (r1, s1, v1)" "serve_all ck (Suc i + length xs) ys s1 v1 = Some (r2, s', v')"
    "rest = r1 @ r2" "length r1 = length xs" by blast
  then show ?case using 1 by (intro Cons.prems(1) [of "res # r1" s1 v1 r2]) simp_all
qed simp

text \<open>The first two phases leave cancels and snapshots alone.\<close>

lemma assign_ids_other: "i < length rs \<Longrightarrow> rq_kind (rs ! i) \<noteq> reqSubmit \<Longrightarrow> fst (assign_ids rs s) ! i = rs ! i"
proof (induction rs arbitrary: s i)
  case (Cons r rs)
  then show ?case by (cases i) (simp_all add: case_prod_beta Let_def assign_id_other)
qed simp

lemma reserve_all_other: "i < length rs \<Longrightarrow> rq_kind (rs ! i) \<noteq> reqSubmit \<Longrightarrow> fst (reserve_all rs a) ! i = rs ! i"
proof (induction rs arbitrary: a i)
  case (Cons r rs)
  then show ?case by (cases i) (simp_all add: case_prod_beta Let_def reserve_one_def)
qed simp

lemma prepared_other: "i < length rs \<Longrightarrow> rq_kind (rs ! i) \<noteq> reqSubmit \<Longrightarrow> prepared s rs a ! i = rs ! i"
  by (simp add: prepared_def Let_def assign_ids_other reserve_all_other)

section \<open>The moment a request is served\<close>

text \<open>
  \<open>served_at\<close>: the request \<open>r\<close> is answered \<open>res\<close> by a sequencer whose book is the log \<open>L\<close> replayed and
  whose position counter stands at \<open>pos\<close>.
\<close>

definition served_at :: "Clock \<Rightarrow> request \<Rightarrow> result \<Rightarrow> Record list \<Rightarrow> int \<Rightarrow> bool" where
  "served_at ck r res L pos \<longleftrightarrow> (\<exists>i s v s' v'. serve ck i r s v = Some (res, s', v') \<and> wf_book (s_book s) \<and> s_walErr s = None \<and>
     s_seq s = pos \<and> abs_book (s_book s) = fold spec_mutate (map mutation_of L) (abs_book NewBook))"

text \<open>The last loop of a commit on a working log.\<close>

lemma commit_serve_all:
  assumes l: "live js s (v_disk v) L" and f: "fits_batch js ck batch s v"
  obtains ress s' v' s3 v3 s4 where "commit js ck batch s v = Some (ress, s', v')"
    "live js s' (v_disk v') (L @ batch_records ck batch s v)" "length ress = length batch"
    "serve_all ck 0 (numbered (prepared s batch (v_accounts v)) (s_seq s)) s3 v3 = Some (ress, s4, v')"
    "s_book s3 = s_book s" "s_walErr s3 = None" "s_seq s3 = s_seq s'"
proof -
  let ?b = "prepared s batch (v_accounts v)" and ?ts = "ck_pickedUp ck"
  have inc: "\<And>x. x \<in> set batch \<Longrightarrow> incoming x" and nx: "s_nextOrderID s + int (length batch) \<le> max_i64"
    and io: "write_ok (v_disk v)" "sync_ok (v_disk v)" and sq: "s_seq s + int (length batch) \<le> max_i64"
    and lg: "\<And>rec. rec \<in> set (records_for ?b (s_seq s) ?ts) \<Longrightarrow> loggable js rec"
    using f unfolding fits_batch_def by blast+
  have n0: "0 \<le> s_nextOrderID s" and we: "s_walErr s = None" using l by (simp_all add: live_def)
  obtain ress s' v' where c: "commit js ck batch s v = Some (ress, s', v')"
    "live js s' (v_disk v') (L @ batch_records ck batch s v)" "length ress = length batch"
    using commit_ok [OF l f] by blast
  obtain s2 a2 b3 s3 d3 s4 where s2: "log_phase js ?ts ?b s2 (v_disk v) = Some (b3, s3, d3)"
    "serve_all ck 0 b3 s3 (v\<lparr>v_accounts := a2, v_disk := d3\<rparr>) = Some (ress, s4, v')"
    "s' = s4\<lparr>s_resting := i64 (int (RestingCount (s_book s4))), s_lastPos := s_seq s4\<rparr>"
    "s_book s2 = s_book s" "s_walErr s2 = s_walErr s" "s_seq s2 = s_seq s"
    and s2d: "s2 = (snd (assign_ids batch s))\<lparr>s_commits := add64 (s_commits s) 1, s_batched := add64 (s_batched s) (i64 (int (length batch)))\<rparr>"
    by (rule commit_cases [OF c(1)])
  have wal2: "s_wal s2 = s_wal s" unfolding s2d by (subst assign_ids_state) simp
  have nm: "s_seq s + int (length (batch_mutations ?b)) \<le> max_i64"
    using length_batch_mutations [of ?b] prepared_ids(4) [OF inc n0 nx, where a = "v_accounts v"] sq by linarith
  obtain w' where lp: "b3 = numbered ?b (s_seq s)" "s3 = s2\<lparr>s_seq := s_seq s + int (length (batch_mutations ?b)), s_wal := Some w'\<rparr>"
    using log_phase_ok [OF l wal2 s2(5) [unfolded we] s2(6) io nm, where ts = ?ts] lg s2(1) by auto
  have "s_seq s4 = s_seq s3" by (subst serve_all_state [OF s2(2)]) simp
  then have "s_seq s3 = s_seq s'" by (simp add: s2(3))
  with that [OF c s2(2) [unfolded lp(1)]] s2(4,5) we lp(2) show thesis by simp
qed

text \<open>Serving the first requests of a batch applies their mutations.\<close>

lemma serve_prefix:
  assumes l: "live js s d L" and inc: "\<And>x. x \<in> set batch \<Longrightarrow> incoming x" and nx: "s_nextOrderID s + int (length batch) \<le> max_i64"
    and b: "prepared s batch a = P @ Q" and s3: "s_book s3 = s_book s" "s_walErr s3 = None"
    and sv: "serve_all ck i (numbered P seq) s3 v3 = Some (ress, sa, va)"
  shows "wf_book (s_book sa) \<and> s_walErr sa = None \<and> s_seq sa = s_seq s3 \<and>
    abs_book (s_book sa) = fold spec_mutate (map mutation_of L @ batch_mutations P) (abs_book NewBook)"
proof -
  have n0: "0 \<le> s_nextOrderID s" and wb: "wf_book (s_book s)"
    and bk: "abs_book (s_book s) = fold spec_mutate (map mutation_of L) (abs_book NewBook)"
    using l by (simp_all add: live_def)
  note fr = live_fresh [OF l inc nx, of a]
  have sane: "\<And>x. x \<in> set (batch_mutations (P @ Q)) \<Longrightarrow> sane_mutation x"
    using sane_batch [of "P @ Q"] prepared_ids(3) [OF inc n0 nx, where a = a] unfolding b by blast
  obtain b0 where "sa = s3\<lparr>s_book := b0\<rparr>" "wf_book b0" "abs_book b0 = fold spec_mutate (batch_mutations P) (abs_book (s_book s))"
    using serve_all_ok [of s3 "numbered P seq" ck i v3] wb s3 sane sane_i64_mutation fr(1,3) sv unfolding b by auto
  then show ?thesis using s3(2) bk by simp
qed

lemma commit_serves:
  assumes l: "live js s (v_disk v) L" and f: "fits_batch js ck (before @ r # after) s v" and k: "rq_kind r \<noteq> reqSubmit"
  shows "\<exists>ress s' v' M1 M2. let pos = int (length (L @ M1)) + 1;
      own = (if rq_kind r = reqCancel then [record_of r pos (ck_pickedUp ck)] else []);
      r1 = (if rq_kind r = reqCancel then r\<lparr>rq_seq := pos\<rparr> else r) in
    commit js ck (before @ r # after) s v = Some (ress, s', v') \<and> live js s' (v_disk v') (L @ M1 @ own @ M2) \<and>
    length ress = length (before @ r # after) \<and> length M1 \<le> length before \<and> length M2 \<le> length after \<and>
    served_at ck r1 (ress ! length before) (L @ M1) (s_seq s')"
proof -
  let ?batch = "before @ r # after" and ?n = "length before" and ?ts = "ck_pickedUp ck"
  let ?b = "prepared s ?batch (v_accounts v)"
  have inc: "\<And>x. x \<in> set ?batch \<Longrightarrow> incoming x" and nx: "s_nextOrderID s + int (length ?batch) \<le> max_i64"
    using f unfolding fits_batch_def by blast+
  have n0: "0 \<le> s_nextOrderID s" and L: "map r_Seq L = [1..s_seq s]" "0 \<le> s_seq s" using l by (simp_all add: live_def)
  have pos: "s_seq s = int (length L)" using arg_cong [OF L(1), of length] L(2) by simp
  have len: "length ?b = length ?batch" by (rule prepared_ids(4) [OF inc n0 nx])
  define P where "P = take ?n ?b"
  define Q where "Q = drop (Suc ?n) ?b"
  have "?b ! ?n = r" using prepared_other [of ?n ?batch s "v_accounts v"] k by simp
  then have b: "?b = P @ r # Q" using id_take_nth_drop [of ?n ?b] len by (simp add: P_def Q_def)
  have lP: "length P = ?n" "length Q = length after" using len by (simp_all add: P_def Q_def)
  define M1 where "M1 = records_for P (s_seq s) ?ts"
  define m where "m = int (length (L @ M1))"
  have m: "s_seq s + int (length (batch_mutations P)) = m" by (simp add: m_def M1_def pos length_records_for)
  have sk: "skipped r \<longleftrightarrow> rq_kind r \<noteq> reqCancel"
    using inc [of r] k by (cases "rq_kind r") (auto simp: skipped_def incoming_def)
  define r1 where "r1 = (if rq_kind r = reqCancel then r\<lparr>rq_seq := m + 1\<rparr> else r)"
  define own where "own = (if rq_kind r = reqCancel then [record_of r (m + 1) ?ts] else [])"
  define M2 where "M2 = records_for Q (if rq_kind r = reqCancel then m + 1 else m) ?ts"
  have recs: "records_for ?b (s_seq s) ?ts = M1 @ own @ M2" "length M2 \<le> length Q"
    unfolding b records_for_append M1_def own_def M2_def m using length_batch_mutations [of Q] by (simp_all add: sk length_records_for)
  have nb: "numbered ?b (s_seq s) = numbered P (s_seq s) @ r1 # numbered Q (if rq_kind r = reqCancel then m + 1 else m)"
    unfolding b numbered_append r1_def m by (simp add: sk)
  obtain ress s' v' s3 v3 s4 where c: "commit js ck ?batch s v = Some (ress, s', v')"
    "live js s' (v_disk v') (L @ batch_records ck ?batch s v)" "length ress = length ?batch"
    "serve_all ck 0 (numbered ?b (s_seq s)) s3 v3 = Some (ress, s4, v')" "s_book s3 = s_book s" "s_walErr s3 = None" "s_seq s3 = s_seq s'"
    by (rule commit_serve_all [OF l f])
  obtain ra sa va rb where sv: "serve_all ck 0 (numbered P (s_seq s)) s3 v3 = Some (ra, sa, va)"
    "serve_all ck (0 + length (numbered P (s_seq s))) (r1 # numbered Q (if rq_kind r = reqCancel then m + 1 else m)) sa va = Some (rb, s4, v')" "ress = ra @ rb" "length ra = length (numbered P (s_seq s))"
    by (rule serve_all_append [OF c(4) [unfolded nb]])
  obtain sb vb where one: "serve ck (0 + length (numbered P (s_seq s))) r1 sa va = Some (ress ! ?n, sb, vb)"
    using sv(2,3,4) lP by (auto simp: nth_append split: bind_splits)
  have "served_at ck r1 (ress ! ?n) (L @ M1) (s_seq s')"
    unfolding served_at_def using one serve_prefix [OF l inc nx b c(5,6) sv(1)] c(7)
    by (intro exI [of _ "0 + length (numbered P (s_seq s))"] exI) (auto simp: M1_def mutations_of_records)
  moreover have "length M1 \<le> ?n" using length_batch_mutations [of P] lP by (simp add: M1_def length_records_for)
  ultimately show ?thesis using c(1-3) recs lP unfolding r1_def own_def m_def Let_def batch_records_def
    by (intro exI [of _ ress] exI [of _ s'] exI [of _ v'] exI [of _ M1] exI [of _ M2]) simp
qed

section \<open>Depth\<close>

text \<open>A depth snapshot as a function of a priority list: one row per price, with the total there.\<close>

definition spec_depth :: "Order list \<Rightarrow> depthLevel list" where
  "spec_depth q = map (\<lambda>p. \<lparr>d_Price = p, d_Quantity = i64 (offered (filter (\<lambda>y. o_Price y = p) q))\<rparr>) (remdups (map o_Price q))"

lemma remdups_block:
  assumes "ys \<noteq> []" "\<forall>y \<in> set ys. y = p" "p \<notin> set zs"
  shows "remdups (ys @ zs) = p # remdups zs"
proof -
  obtain n where ys: "ys = replicate (Suc n) p" using assms(1,2) by (metis Suc_pred length_greater_0_conv replicate_eqI)
  show ?thesis using assms(3) unfolding ys by (induction n) simp_all
qed

lemma remdups_concat_blocks:
  assumes "distinct ps" "\<And>p. p \<in> set ps \<Longrightarrow> g p \<noteq> [] \<and> (\<forall>y \<in> set (g p). f y = p)"
  shows "remdups (map f (concat (map g ps))) = ps"
  using assms
proof (induction ps)
  case (Cons p ps)
  have "p \<noteq> f y" if "q \<in> set ps" "y \<in> set (g q)" for q y using Cons.prems(1) Cons.prems(2) [of q] that by auto
  then have p: "p \<notin> set (map f (concat (map g ps)))" by auto
  have IH: "remdups (map f (concat (map g ps))) = ps" using Cons.IH Cons.prems by simp
  have "remdups (map f (g p) @ map f (concat (map g ps))) = p # remdups (map f (concat (map g ps)))"
    by (rule remdups_block [OF _ _ p]) (use Cons.prems(2) [of p] in auto)
  then show ?case unfolding IH by simp
qed simp

lemma level_orders_nonempty:
  assumes "wf_book b" "s \<in> {Buy, Sell}" "p \<in> set (ladder b s)"
  shows "level_orders b p \<noteq> []"
proof -
  obtain lvl where l: "map_of (levels b) p = Some lvl" by (rule wf_level_exists [OF assms])
  with wf_level_at(1) [OF assms(1) l] show ?thesis by (simp add: level_orders_def wf_level_def)
qed

lemma queue_prices:
  assumes "wf_book b" "s \<in> {Buy, Sell}"
  shows "remdups (map o_Price (queue b s)) = ladder b s"
proof -
  have "distinct (ladder b s)" using assms wf_ladder_sorted sorted_better_distinct by (auto simp: wf_book_def)
  then show ?thesis unfolding queue_def
    by (rule remdups_concat_blocks) (use level_orders_price(1) [OF assms(1)] level_orders_nonempty [OF assms] in blast)
qed

lemma Snapshot_spec:
  assumes "wf_book b"
  shows "Snapshot b = Some (spec_depth (a_buys (abs_book b)), spec_depth (a_sells (abs_book b)))"
proof -
  have "depth b (ladder b s) = Some (spec_depth (queue b s))" if s: "s \<in> {Buy, Sell}" for s
  proof -
    have "depth b (ladder b s) = Some (map (\<lambda>p. \<lparr>d_Price = p, d_Quantity = i64 (offered (level_orders b p))\<rparr>) (ladder b s))"
      by (rule depth_rows) (meson assms s wf_level_exists)
    then show ?thesis unfolding spec_depth_def queue_prices [OF assms s] using level_orders_filter [OF assms s] by simp
  qed
  from this [of Buy] this [of Sell] show ?thesis by (simp add: Snapshot_def abs_book_def ladder_def)
qed

section \<open>The answers\<close>

definition replay_of :: "Record list \<Rightarrow> abook" where
  "replay_of L = fold spec_mutate (map mutation_of L) (abs_book NewBook)"

lemma served_cancel:
  assumes "served_at ck r res L pos" "rq_kind r = reqCancel" "rq_preErr r = None"
  shows "rs_seq res = rq_seq r \<and> rs_err res = snd (spec_cancel (replay_of L) (rq_cancelID r) (rq_cancelBy r))"
proof -
  obtain i s v s' v' where s: "serve ck i r s v = Some (res, s', v')" "wf_book (s_book s)" "s_walErr s = None"
    "abs_book (s_book s) = replay_of L"
    using assms(1) by (auto simp: served_at_def replay_of_def)
  obtain b e where "CancelOwned (s_book s) (rq_cancelID r) (rq_cancelBy r) = Some (b, e)"
    "(abs_book b, e) = spec_cancel (abs_book (s_book s)) (rq_cancelID r) (rq_cancelBy r)"
    using CancelOwned_refines [OF s(2)] by blast
  with s assms(2,3) show ?thesis
    by (auto simp: serve_def serve_cancel_def zero_result_def Let_def prod_eq_iff split: bind_splits)
qed

lemma served_snapshot:
  assumes "served_at ck r res L pos" "rq_kind r = reqSnapshot"
  shows "rs_state res = Some (spec_depth (a_buys (replay_of L)), spec_depth (a_sells (replay_of L))) \<and> rs_seq res = pos \<and> rs_err res = None"
proof -
  obtain i s v s' v' where s: "serve ck i r s v = Some (res, s', v')" "wf_book (s_book s)" "s_seq s = pos" "abs_book (s_book s) = replay_of L"
    using assms(1) by (auto simp: served_at_def replay_of_def)
  show ?thesis using assms(2) s(1,3) Snapshot_spec [OF s(2)] unfolding s(4)
    by (auto simp: serve_def zero_result_def Let_def split: bind_splits)
qed

end
