(* ===== verification/OMS_Api_Calls.thy ===== *)
theory OMS_Api_Calls
  imports OMS_Api_Props OMS_Serve
begin

text \<open>
  What a cancel and a snapshot through the order service are answered, as functions of the log of
  the symbol, whatever batch the request falls into.
\<close>

section \<open>A request that is not an order, sent to its sequencer\<close>

definition sent_record :: "request \<Rightarrow> int \<Rightarrow> Time \<Rightarrow> Record list" where
  "sent_record rq pos ts = (if rq_kind rq = reqCancel then [record_of rq pos ts] else [])"

definition stamped :: "request \<Rightarrow> int \<Rightarrow> request" where
  "stamped rq pos = (if rq_kind rq = reqCancel then rq\<lparr>rq_seq := pos\<rparr> else rq)"

lemma send_serves:
  assumes s: "map_of (reg_seqs (nd_reg nd)) symb = Some s" and l: "live js s (dir_of (nd_sys nd) symb) L"
    and d: "map_of (sys_dirs (nd_sys nd)) symb \<noteq> None"
    and f: "fits_batch js ck (before @ rq # after) s (venue_of (nd_sys nd) symb)" and k: "rq_kind rq \<noteq> reqSubmit"
  obtains nd' s' A B res where
    "send js (Batched before after gone ck) symb rq nd = Some (case gone of Some c \<Rightarrow> GaveUpAfter c | None \<Rightarrow> Reply res, nd')"
    "map_of (reg_seqs (nd_reg nd')) symb = Some s'"
    "live js s' (dir_of (nd_sys nd') symb) (L @ A @ sent_record rq (int (length (L @ A)) + 1) (ck_pickedUp ck) @ B)"
    "length A \<le> length before" "length B \<le> length after"
    "served_at ck (stamped rq (int (length (L @ A)) + 1)) res (L @ A) (s_seq s')"
proof -
  have lv: "live js s (v_disk (venue_of (nd_sys nd) symb)) L" using l by (simp add: venue_of_def)
  obtain ress s' v' A B where c: "commit js ck (before @ rq # after) s (venue_of (nd_sys nd) symb) = Some (ress, s', v')"
    "live js s' (v_disk v') (L @ A @ sent_record rq (int (length (L @ A)) + 1) (ck_pickedUp ck) @ B)"
    "length A \<le> length before" "length B \<le> length after"
    "served_at ck (stamped rq (int (length (L @ A)) + 1)) (ress ! length before) (L @ A) (s_seq s')"
    using commit_serves [OF lv f k] unfolding Let_def sent_record_def [symmetric] stamped_def [symmetric] by blast
  define sys' where "sys' = with_venue symb v' (nd_sys nd)"
  define nd' where "nd' = nd\<lparr>nd_reg := (nd_reg nd)\<lparr>reg_seqs := gput symb s' (reg_seqs (nd_reg nd))\<rparr>, nd_sys := sys',
      nd_server := run_callbacks (nd_sys nd) sys' (nd_server nd)\<rparr>"
  have "commit_symbol js ck symb (before @ rq # after) (nd_reg nd) (nd_sys nd) =
      Some (ress, (nd_reg nd)\<lparr>reg_seqs := gput symb s' (reg_seqs (nd_reg nd))\<rparr>, sys')"
    using c(1) s by (simp add: commit_symbol_def sys'_def)
  then have "send js (Batched before after gone ck) symb rq nd =
      Some (case gone of Some c \<Rightarrow> GaveUpAfter c | None \<Rightarrow> Reply (ress ! length before), nd')"
    by (simp add: send_def nd'_def)
  moreover have "dir_of (nd_sys nd') symb = v_disk v'" using d by (auto simp: nd'_def sys'_def with_venue_def update_dir_def dir_of_def)
  moreover have "map_of (reg_seqs (nd_reg nd')) symb = Some s'" by (simp add: nd'_def)
  ultimately show thesis using that [of "ress ! length before" nd' s' A B] c(2-5) by simp
qed

section \<open>Cancelling\<close>

definition resting_in :: "abook \<Rightarrow> SeqID \<Rightarrow> Order option" where
  "resting_in a i = List.find (\<lambda>y. o_SeqID y = i) (a_buys a @ a_sells a)"

text \<open>The answer the log determines: position, wrong owner, or nothing to cancel.\<close>

definition cancel_verdict :: "abook \<Rightarrow> SeqID \<Rightarrow> string \<Rightarrow> int \<Rightarrow> code + int" where
  "cancel_verdict a i account pos = (case resting_in a i of
     None \<Rightarrow> Inl codes_NotFound
   | Some y \<Rightarrow> if o_Placer y = account then Inr pos else Inl codes_PermissionDenied)"

lemma cancel_verdict_spec:
  assumes "account \<noteq> []" "rs_seq res = pos" "rs_err res = snd (spec_cancel a i account)"
  shows "(case CancelFor (Reply res) of (_, Some err) \<Rightarrow> Inl (cancelError err) | (p, None) \<Rightarrow> Inr p) = cancel_verdict a i account pos"
  using assms
  by (auto simp: cancel_verdict_def resting_in_def spec_cancel_def CancelFor_def seq_do_def cancelError_def Let_def split: option.splits)

definition valid_cancel :: "pb_CancelOrderRequest \<Rightarrow> bool" where
  "valid_cancel req \<longleftrightarrow> validSymbol (pc_Symbol req) \<and> validateAccountID (pc_AccountId req) = Inr (pc_AccountId req) \<and> 0 < pc_OrderId req"


text \<open>On a log without orders there is nothing to cancel, and the record of the attempt is kept.\<close>

definition demo_cancel :: pb_CancelOrderRequest where
  "demo_cancel = \<lparr>pc_Symbol = ''NABIL'', pc_OrderId = 1, pc_AccountId = ''ram''\<rparr>"

definition demo_cancelled :: Record where
  "demo_cancelled = record_of (cancel_request 1 ''ram'') 1 (ck_pickedUp demo_ck)"

definition cancel_env :: Env where
  "cancel_env = demo_env\<lparr>ev_json := \<lparr>j_Marshal = (\<lambda>_. Some []), j_Unmarshal = (\<lambda>_. Some (payload_of demo_cancelled))\<rparr>\<rparr>"

lemma demo_node_lookups:
  "map_of (reg_seqs (nd_reg (demo_node s d))) ''NABIL'' = Some s"
  "dir_of (nd_sys (demo_node s d)) ''NABIL'' = d"
  "map_of (sys_dirs (nd_sys (demo_node s d))) ''NABIL'' \<noteq> None"
  by (simp_all add: demo_node_def demo_system_def dir_of_def)

lemma demo_cancel_fits:
  assumes "write_ok d" "sync_ok d" "lastSeq w = 0"
  shows "fits_batch (ev_json cancel_env) demo_ck [cancel_request 1 ''ram''] (NewSequencerWithWAL NewBook (Some w))
    (venue_of (nd_sys (demo_node (NewSequencerWithWAL NewBook (Some w)) d)) ''NABIL'')"
proof -
  let ?s = "NewSequencerWithWAL NewBook (Some w)"
  have inc: "incoming (cancel_request 1 ''ram'')" by (simp add: incoming_def cancel_request_def zero_request_def)
  have "prepared ?s [cancel_request 1 ''ram''] a = [cancel_request 1 ''ram'']" for a
    by (simp add: prepared_def assign_id_other reserve_one_def cancel_request_def zero_request_def Let_def)
  then have r: "batch_records demo_ck [cancel_request 1 ''ram''] ?s v = [demo_cancelled]" for v
    by (simp add: batch_records_def fresh_counters [OF assms(3)] demo_cancelled_def skipped_def cancel_request_def zero_request_def)
  have "loggable (ev_json cancel_env) demo_cancelled"
    by (simp add: loggable_def wf_record_def json_reads_back_def payload_bytes_def cancel_env_def demo_cancelled_def record_of_def
        cancel_request_def zero_request_def demo_ck_def is_i64_def maxRecordPayload_def)
  then show ?thesis unfolding fits_batch_def batch_records_def [symmetric]
    unfolding r fresh_counters [OF assms(3)] using inc assms(1,2) demo_node_lookups(2) by (simp add: venue_of_def max_i64_def)
qed


section \<open>Snapshots\<close>



end
