(* ===== verification/OMS_Metrics.thy ===== *)
theory OMS_Metrics
  imports OMS_Api_Props
begin

text \<open>
  The measurements of \<open>internal/metrics/metrics.go\<close>. The collectors themselves belong to the
  Prometheus library: an observer method is the list of calls it makes on them, and a scrape is
  the list of constant metrics it emits. Sample values are the integers handed over; their
  conversion to \<open>float64\<close> and the histogram buckets are the library's.
\<close>

section \<open>Observing\<close>

datatype vec = ordersTotal | cancelsTotal | tradesTotal | orderLatency | settleTotal | settleLatency | feedDropped

datatype prom_call = Inc vec "string list" | Add vec "string list" int | Observe vec "string list" int

definition Metrics_ObserveOrder :: "string \<Rightarrow> string \<Rightarrow> string \<Rightarrow> string \<Rightarrow> nat \<Rightarrow> int \<Rightarrow> prom_call list" where
  "Metrics_ObserveOrder symbol side orderType outcome trades d =
     [Inc ordersTotal [symbol, side, orderType, outcome], Observe orderLatency [symbol] d] @
     (if trades > 0 then [Add tradesTotal [symbol] (int trades)] else [])"

definition Metrics_ObserveCancel :: "string \<Rightarrow> string \<Rightarrow> prom_call list" where
  "Metrics_ObserveCancel symbol outcome = [Inc cancelsTotal [symbol, outcome]]"

definition Metrics_ObserveSettlement :: "string \<Rightarrow> int \<Rightarrow> prom_call list" where
  "Metrics_ObserveSettlement outcome d = [Inc settleTotal [outcome], Observe settleLatency [] d]"

definition Metrics_ObserveFeedDrop :: "string \<Rightarrow> prom_call list" where
  "Metrics_ObserveFeedDrop symbol = [Inc feedDropped [symbol]]"

text \<open>
  The generated \<open>String\<close> methods of the two enums; a number without a name is printed by the
  protobuf runtime.
\<close>

definition Side_String :: "(int \<Rightarrow> string) \<Rightarrow> pb_Side \<Rightarrow> string" where
  "Side_String number s = (case s of
     SIDE_UNSPECIFIED \<Rightarrow> ''SIDE_UNSPECIFIED'' | SIDE_BUY \<Rightarrow> ''SIDE_BUY'' | SIDE_SELL \<Rightarrow> ''SIDE_SELL'' | SIDE_unnamed n \<Rightarrow> number n)"

definition OrderType_String :: "(int \<Rightarrow> string) \<Rightarrow> pb_OrderType \<Rightarrow> string" where
  "OrderType_String number t = (case t of
     ORDER_TYPE_UNSPECIFIED \<Rightarrow> ''ORDER_TYPE_UNSPECIFIED'' | ORDER_TYPE_LIMIT \<Rightarrow> ''ORDER_TYPE_LIMIT''
   | ORDER_TYPE_MARKET \<Rightarrow> ''ORDER_TYPE_MARKET'' | ORDER_TYPE_unnamed n \<Rightarrow> number n)"

text \<open>The observer the server was given, with the duration the clock measured.\<close>

definition observer :: "(int \<Rightarrow> string) \<Rightarrow> int \<Rightarrow> observation \<Rightarrow> prom_call list" where
  "observer number d x = (case x of
     ObserveOrder symbol side orderType outcome trades \<Rightarrow>
       Metrics_ObserveOrder symbol (Side_String number side) (OrderType_String number orderType) outcome trades d
   | ObserveCancel symbol outcome \<Rightarrow> Metrics_ObserveCancel symbol outcome
   | ObserveSettlement outcome \<Rightarrow> Metrics_ObserveSettlement outcome d
   | ObserveFeedDrop symbol \<Rightarrow> Metrics_ObserveFeedDrop symbol)"

section \<open>Scraping\<close>

datatype desc =
    descResting | descLogPosition | descCommits | descBatched
  | descReplPrimary | descReplFollower | descReplBehind | descReplMillis | descReplSeen

definition Describe :: "desc list" where
  "Describe = [descResting, descLogPosition, descCommits, descBatched,
     descReplPrimary, descReplFollower, descReplBehind, descReplMillis, descReplSeen]"

type_synonym metric = "desc \<times> int \<times> string"

definition sequencer_metrics :: "string \<Rightarrow> Sequencer \<Rightarrow> metric list" where
  "sequencer_metrics symbol s =
     (let (commits, requests) = CommitStats s
      in [(descResting, Sequencer_RestingOrders s, symbol), (descLogPosition, Sequencer_LastPosition s, symbol),
          (descCommits, commits, symbol), (descBatched, requests, symbol)])"

fun collect_symbols ::
  "Json \<Rightarrow> (SeqID \<Rightarrow> Time) \<Rightarrow> string list \<Rightarrow> Registry \<Rightarrow> System \<Rightarrow> (metric list \<times> Registry \<times> System) option" where
  "collect_symbols js now [] r sys = Some ([], r, sys)"
| "collect_symbols js now (symbol # symbols) r sys = do {
     (r1, sys1, e) \<leftarrow> Get js now symbol r sys;
     (ms, r2, sys2) \<leftarrow> collect_symbols js now symbols r1 sys1;
     Some ((case (e, map_of (reg_seqs r1) symbol) of
              (None, Some s) \<Rightarrow> sequencer_metrics symbol s @ ms
            | _ \<Rightarrow> ms), r2, sys2) }"

definition lag_metrics :: "string \<times> FollowerLag \<Rightarrow> metric list" where
  "lag_metrics x = (case x of (symbol, l) \<Rightarrow>
     [(descReplPrimary, fl_PrimaryPosition l, symbol), (descReplFollower, fl_FollowerPosition l, symbol),
      (descReplBehind, sub64 (fl_PrimaryPosition l) (fl_FollowerPosition l), symbol),
      (descReplMillis, fl_MillisBehind l, symbol), (descReplSeen, if fl_FollowerSeen l then 1 else 0, symbol)])"

definition Collect ::
  "Json \<Rightarrow> (SeqID \<Rightarrow> Time) \<Rightarrow> Time \<Rightarrow> ReplicationServer option \<Rightarrow> Registry \<Rightarrow> System \<Rightarrow> (metric list \<times> Registry \<times> System) option" where
  "Collect js now clock lag r sys = do {
     (ms, r1, sys1) \<leftarrow> collect_symbols js now (Symbols r) r sys;
     (case lag of
        None \<Rightarrow> Some (ms, r1, sys1)
      | Some repl \<Rightarrow> do {
          (lags, r2, sys2) \<leftarrow> SymbolLag js now clock repl r1 sys1;
          Some (ms @ concat (map lag_metrics lags), r2, sys2) }) }"

section \<open>What a request adds to the observations\<close>

text \<open>Between two states of the server only feed drops were observed.\<close>

definition only_drops :: "Server \<Rightarrow> Server \<Rightarrow> bool" where
  "only_drops s s' \<longleftrightarrow> sv_obs s' = sv_obs s \<and>
     (\<exists>ds. sv_seen s' = sv_seen s @ ds \<and> (\<forall>x \<in> set ds. \<exists>symbol. x = ObserveFeedDrop symbol))"

lemma only_drops_refl [simp]: "only_drops s s"
  by (simp add: only_drops_def)

lemma only_drops_trans: "only_drops s t \<Longrightarrow> only_drops t u \<Longrightarrow> only_drops s u"
  unfolding only_drops_def by (metis Un_iff append_assoc set_append)

lemma observe_drop: "only_drops s (observe (ObserveFeedDrop symb) s)"
  by (simp add: only_drops_def observe_def)

lemma observe_drops: "only_drops s ((observe (ObserveFeedDrop symb) ^^ n) s)"
proof (induction n)
  case (Suc n)
  then show ?case using only_drops_trans [OF Suc observe_drop] by simp
qed simp

lemma onTrades_drops: "only_drops s (onTrades symb ts s)"
proof -
  obtain s1 f where f: "feed symb s = (s1, f)" by (cases "feed symb s")
  obtain f' n where p: "feed_publish symb ts f = (f', n)" by (cases "feed_publish symb ts f")
  have "sv_seen s1 = sv_seen s" "sv_obs s1 = sv_obs s" using f by (auto simp: feed_def Let_def split: option.splits)
  then have "only_drops s (put_feed symb f' s1)" by (simp add: only_drops_def put_feed_def)
  then have "only_drops s ((observe (ObserveFeedDrop symb) ^^ n) (put_feed symb f' s1))"
    by (rule only_drops_trans) (rule observe_drops)
  then show ?thesis by (simp add: onTrades_def f p)
qed

lemma run_callbacks_drops: "only_drops s (run_callbacks sys sys' s)"
proof -
  have "only_drops s (fold (\<lambda>(symbol, trades). onTrades symbol trades) xs s)" for xs
  proof (induction xs arbitrary: s)
    case (Cons x xs)
    obtain symb ts where x: "x = (symb, ts)" by (cases x)
    show ?case unfolding fold.simps comp_apply x prod.case by (rule only_drops_trans [OF onTrades_drops Cons.IH])
  qed simp
  then show ?thesis by (simp add: run_callbacks_def)
qed

lemma send_drops:
  assumes "send js sch symb rq nd = Some (h, nd')"
  shows "only_drops (nd_server nd) (nd_server nd') \<and> sv_ledger (nd_server nd') = sv_ledger (nd_server nd)"
  using assms run_callbacks_drops
  by (cases sch) (auto simp: send_def split: bind_splits)

text \<open>The part of the observations that one call adds before its own.\<close>

definition side_notes :: "observation list \<Rightarrow> bool" where
  "side_notes xs \<longleftrightarrow> (\<forall>x \<in> set xs. (\<exists>symbol. x = ObserveFeedDrop symbol) \<or> (\<exists>outcome. x = ObserveSettlement outcome))"

definition noted :: "pb_PlaceOrderRequest \<Rightarrow> (code + pb_PlaceOrderResponse) \<Rightarrow> Server \<Rightarrow> Server \<Rightarrow> bool" where
  "noted req out s s' \<longleftrightarrow> (\<exists>xs outcome n. sv_seen s' = sv_seen s @ xs @ [ObserveOrder (po_Symbol req) (po_Side req) (po_Type req) outcome n] \<and>
     side_notes xs \<and> (outcome = ''accepted'' \<longleftrightarrow> (\<exists>resp. out = Inr resp)) \<and>
     (\<forall>resp. out = Inr resp \<longrightarrow> n = length (pp_Trades resp)))"

lemma notedI:
  assumes "only_drops s t" "sv_obs s" "sv_seen u = sv_seen t @ ys @ [ObserveOrder (po_Symbol req) (po_Side req) (po_Type req) outcome n]"
    "side_notes ys" "outcome = ''accepted'' \<longleftrightarrow> (\<exists>resp. out = Inr resp)" "\<And>resp. out = Inr resp \<Longrightarrow> n = length (pp_Trades resp)"
  shows "noted req out s u"
proof -
  obtain ds where "sv_seen t = sv_seen s @ ds" "\<forall>x \<in> set ds. \<exists>symbol. x = ObserveFeedDrop symbol"
    using assms(1) by (auto simp: only_drops_def)
  with assms(3-6) show ?thesis
    unfolding noted_def by (intro exI [of _ "ds @ ys"] exI [of _ outcome] exI [of _ n]) (auto simp: side_notes_def)
qed

lemma submitOutcome_refusal: "submitOutcome err \<noteq> ''accepted''"
  by (cases err) (simp_all add: submitOutcome_def)

lemma place_settle_noted:
  assumes "place_settle env req resp nd = (out, nd')" "only_drops s (nd_server nd)" "sv_obs s"
  shows "noted req out s (nd_server nd')"
proof -
  have obs: "sv_obs (nd_server nd)" using assms(2,3) by (simp add: only_drops_def)
  have len: "length (pp_Trades (place_response resp)) = length (or_Trades resp)" by (simp add: place_response_def tradesToPB_def)
  show ?thesis
  proof (cases "sv_ledger (nd_server nd) \<and> length (or_Trades resp) > 0")
    case False
    then have o: "out = Inr (place_response resp)"
      "nd' = nd\<lparr>nd_server := observeOrder req ''accepted'' (length (or_Trades resp)) (nd_server nd)\<rparr>"
      using assms(1) by (auto simp: place_settle_def Let_def)
    show ?thesis
      by (rule notedI [OF assms(2,3), where ys = "[]" and outcome = "''accepted''" and n = "length (or_Trades resp)"])
        (use obs len in \<open>simp_all add: o observeOrder_def observe_def side_notes_def\<close>)
  next
    case True
    obtain j e where se: "Settle (ev_pg env) (or_Trades resp) (nd_journal nd) = (j, e)" by fastforce
    let ?oc = "if e = None then ''accepted'' else ''unsettled''"
    have o: "out = (if e = None then Inr (place_response resp) else Inl codes_Internal)"
      "nd_server nd' = observeOrder req ?oc (length (or_Trades resp)) (observeSettlement e (nd_server nd))"
      using assms(1) True se by (auto simp: place_settle_def Let_def split: if_splits)
    show ?thesis
      by (rule notedI [OF assms(2,3), where ys = "[ObserveSettlement (if e \<noteq> None then ''failed'' else ''ok'')]"
            and outcome = ?oc and n = "length (or_Trades resp)"])
        (use obs len in \<open>simp_all add: o observeOrder_def observeSettlement_def observe_def side_notes_def split: if_splits\<close>)
  qed
qed

lemma PlaceOrder_noted:
  assumes p: "PlaceOrder env req nd = Some (out, nd')" and obs: "sv_obs (nd_server nd)"
  shows "noted req out (nd_server nd) (nd_server nd')"
proof -
  have refused: "noted req out (nd_server nd) (observeOrder req oc 0 s)"
    if "only_drops (nd_server nd) s" "oc \<noteq> ''accepted''" "out = Inl c" for oc s c
    by (rule notedI [OF that(1) obs, where ys = "[]" and outcome = oc and n = 0])
      (use that obs in \<open>simp_all add: observeOrder_def observe_def side_notes_def only_drops_def\<close>)
  show ?thesis
  proof (cases "orderFromRequest req")
    case (Inl c)
    then show ?thesis using p refused [of "nd_server nd" "''invalid''" c] by (auto simp: PlaceOrder_def)
  next
    case (Inr order)
    obtain r sys e where g: "Get (ev_json env) (ev_now env) (po_Symbol req) (nd_reg nd) (nd_sys nd) = Some (r, sys, e)"
      using p Inr by (auto simp: PlaceOrder_def split: bind_splits)
    let ?nd1 = "nd\<lparr>nd_reg := r, nd_sys := sys\<rparr>"
    show ?thesis
    proof (cases e)
      case (Some err)
      then show ?thesis using p Inr g refused [of "nd_server nd" "''unavailable''"] by (auto simp: PlaceOrder_def)
    next
      case None
      obtain h nd2 where s: "send (ev_json env) (ev_schedule env) (po_Symbol req) (submit_request order) ?nd1 = Some (h, nd2)"
        and rest: "(case Sequencer_Submit (ev_sentAt env) h of
            (_, Some err) \<Rightarrow> Some (Inl (submitError err), nd2\<lparr>nd_server := observeOrder req (submitOutcome err) 0 (nd_server nd2)\<rparr>)
          | (resp, None) \<Rightarrow> Some (place_settle env req resp nd2)) = Some (out, nd')"
        using p Inr g None by (auto simp: PlaceOrder_def Let_def split: bind_splits)
      have d: "only_drops (nd_server nd) (nd_server nd2)" using send_drops [OF s] by simp
      obtain resp er where ss: "Sequencer_Submit (ev_sentAt env) h = (resp, er)" by (cases "Sequencer_Submit (ev_sentAt env) h")
      show ?thesis
      proof (cases er)
        case (Some err)
        then show ?thesis using rest ss refused [OF d submitOutcome_refusal [of err]] by auto
      next
        case None
        then have "place_settle env req resp nd2 = (out, nd')" using rest ss by simp
        from place_settle_noted [OF this d obs] show ?thesis .
      qed
    qed
  qed
qed

section \<open>Counters\<close>

text \<open>What the calls add to the counter of a label combination, and to all of a vector.\<close>

fun added :: "prom_call \<Rightarrow> int" where
  "added (Inc v labels) = 1"
| "added (Add v labels n) = n"
| "added (Observe v labels d) = 0"

fun target :: "prom_call \<Rightarrow> vec \<times> string list" where
  "target (Inc v labels) = (v, labels)"
| "target (Add v labels n) = (v, labels)"
| "target (Observe v labels d) = (v, labels)"

definition counter :: "vec \<Rightarrow> string list \<Rightarrow> prom_call list \<Rightarrow> int" where
  "counter v labels calls = sum_list (map added (filter (\<lambda>c. target c = (v, labels)) calls))"

definition counter_all :: "vec \<Rightarrow> prom_call list \<Rightarrow> int" where
  "counter_all v calls = sum_list (map added (filter (\<lambda>c. fst (target c) = v) calls))"

lemma counter_append [simp]:
  "counter v ls (xs @ ys) = counter v ls xs + counter v ls ys" "counter_all v (xs @ ys) = counter_all v xs + counter_all v ys"
  by (simp_all add: counter_def counter_all_def)

lemma side_notes_uncounted:
  assumes "side_notes xs" "v \<in> {ordersTotal, tradesTotal}"
  shows "counter v ls (concat (map (observer number d) xs)) = 0 \<and> counter_all v (concat (map (observer number d) xs)) = 0"
  using assms
proof (induction xs)
  case (Cons x xs)
  then have "counter v ls (observer number d x) = 0 \<and> counter_all v (observer number d x) = 0"
    by (auto simp: side_notes_def observer_def Metrics_ObserveFeedDrop_def Metrics_ObserveSettlement_def counter_def counter_all_def)
  with Cons show ?case by (simp add: side_notes_def)
qed (simp add: counter_def counter_all_def)

text \<open>C35: Every order is counted exactly once: whatever becomes of a request, the calls its handling
  makes on the collectors add one to the orders counter in all, under the symbol, side and type
  it asked for; the outcome label is \<open>accepted\<close> exactly when the client gets a response, and then
  the trades counter of the symbol grows by the number of trades in that response.\<close>

theorem orders_are_counted_once:
  assumes "PlaceOrder env req nd = Some (out, nd')" "sv_obs (nd_server nd)"
    and calls: "calls = concat (map (observer number d) (drop (length (sv_seen (nd_server nd))) (sv_seen (nd_server nd'))))"
  shows "\<exists>outcome. counter_all ordersTotal calls = 1 \<and>
    counter ordersTotal [po_Symbol req, Side_String number (po_Side req), OrderType_String number (po_Type req), outcome] calls = 1 \<and>
    (outcome = ''accepted'' \<longleftrightarrow> (\<exists>resp. out = Inr resp)) \<and>
    (\<forall>resp. out = Inr resp \<longrightarrow> counter tradesTotal [po_Symbol req] calls = int (length (pp_Trades resp)))"
proof -
  obtain xs outcome n where x: "sv_seen (nd_server nd') = sv_seen (nd_server nd) @ xs @ [ObserveOrder (po_Symbol req) (po_Side req) (po_Type req) outcome n]"
    and nt: "side_notes xs" "outcome = ''accepted'' \<longleftrightarrow> (\<exists>resp. out = Inr resp)" "\<forall>resp. out = Inr resp \<longrightarrow> n = length (pp_Trades resp)"
    using PlaceOrder_noted [OF assms(1,2)] unfolding noted_def by blast
  define own where "own = Metrics_ObserveOrder (po_Symbol req) (Side_String number (po_Side req)) (OrderType_String number (po_Type req)) outcome n d"
  have c: "calls = concat (map (observer number d) xs) @ own" unfolding calls x by (simp add: observer_def own_def)
  have o: "counter_all ordersTotal own = 1" "counter tradesTotal [po_Symbol req] own = int n"
    "counter ordersTotal [po_Symbol req, Side_String number (po_Side req), OrderType_String number (po_Type req), outcome] own = 1"
    by (simp_all add: own_def Metrics_ObserveOrder_def counter_def counter_all_def)
  show ?thesis unfolding c using o nt side_notes_uncounted [OF nt(1), of _ _ number d]
    by (intro exI [of _ outcome]) simp
qed

theorem orders_are_counted_once_witness:
  "\<exists>nd nd' calls. PlaceOrder demo_env (demo_request\<lparr>po_Quantity := 0\<rparr>) nd = Some (Inl codes_InvalidArgument, nd') \<and>
     counter_all ordersTotal calls = 1"
proof -
  let ?req = "demo_request\<lparr>po_Quantity := 0\<rparr>"
  define s where "s = fst (NewServerWithObserver False True demo_registry)"
  define nd where "nd = (demo_node (NewSequencer NewBook) empty_disk)\<lparr>nd_server := s\<rparr>"
  have obs: "sv_obs (nd_server nd)" by (simp add: nd_def s_def NewServerWithObserver_def)
  have "orderFromRequest ?req = Inl codes_InvalidArgument" by code_simp
  then obtain nd' where p: "PlaceOrder demo_env ?req nd = Some (Inl codes_InvalidArgument, nd')" by (auto simp: PlaceOrder_def)
  show ?thesis using p orders_are_counted_once [OF p obs refl, of "\<lambda>_. []" 0] by blast
qed

section \<open>A scrape\<close>

text \<open>A scrape reports every sequencer and changes nothing.\<close>

lemma collect_symbols_reports:
  assumes "\<And>symbol. symbol \<in> set symbols \<Longrightarrow> validSymbol symbol \<and> map_of (reg_seqs r) symbol \<noteq> None"
  shows "collect_symbols js now symbols r sys =
    Some (concat (map (\<lambda>symbol. sequencer_metrics symbol (the (map_of (reg_seqs r) symbol))) symbols), r, sys)"
  using assms
proof (induction symbols)
  case (Cons symb symbols)
  then obtain s where "validSymbol symb" "map_of (reg_seqs r) symb = Some s" by (metis list.set_intros(1) not_None_eq)
  with Cons show ?case by (simp add: Get_def)
qed simp

end
