(* ===== verification/OMS_Node.thy ===== *)
theory OMS_Node
  imports OMS_Api OMS_Ledger_Props OMS_Registry_Props
begin

text \<open>
  The trading node of \<open>cmd/server/main.go\<close>: the order in which \<open>run\<close> migrates the ledger, rebuilds the
  balances from the journal, seeds development accounts and wires registry and server, and the
  closing of the registry at the end. Listening, tracing, the metrics endpoint and log lines are
  left out; \<open>opened\<close> says whether the connection pool of the ledger could be opened.
\<close>

section \<open>Seeding\<close>

text \<open>\<open>strings.FieldsFunc\<close>: the maximal runs of characters that are not separators.\<close>

fun FieldsFunc :: "(char \<Rightarrow> bool) \<Rightarrow> string \<Rightarrow> string \<Rightarrow> string list" where
  "FieldsFunc sep run [] = (if run = [] then [] else [run])"
| "FieldsFunc sep run (c # cs) =
     (if sep c then (if run = [] then FieldsFunc sep [] cs else run # FieldsFunc sep [] cs) else FieldsFunc sep (run @ [c]) cs)"

definition seedCash :: int where
  "seedCash = 1000000000"

definition seedPosition :: int where
  "seedPosition = 1000000"

definition seed_account :: "nat \<Rightarrow> string" where
  "seed_account i = ''acct-'' @ dec i"

definition seedAccounts :: "nat \<Rightarrow> string \<Rightarrow> Accounts \<Rightarrow> Accounts" where
  "seedAccounts n symbolList a =
     (let symbols = FieldsFunc (\<lambda>c. c = CHR '','') [] symbolList
      in fold (\<lambda>i a. fold (\<lambda>symbol. SetPosition (seed_account i) symbol seedPosition) symbols
                      (Deposit (seed_account i) seedCash a)) [0..<n] a)"

section \<open>Start and stop\<close>

record Config =
  cf_wal :: bool
  cf_db :: bool
  cf_seed :: int
  cf_seedSymbols :: string

datatype StartErr = NotOpened | NotMigrated LedgerErr | NotRebuilt LedgerErr | NotLoaded Err

text \<open>The ledger is opened and its schema brought up to date.\<close>

definition open_ledger ::
  "bool \<Rightarrow> Postgres \<Rightarrow> (string \<Rightarrow> bool) \<Rightarrow> (string, string) gomap \<Rightarrow> Config \<Rightarrow> Schema \<Rightarrow> Schema \<times> (StartErr + bool)" where
  "open_ledger opened pg mig_ok fs cf sc =
     (if \<not> cf_db cf then (sc, Inr False)
      else if \<not> opened then (sc, Inl NotOpened)
      else (case Migrate pg mig_ok fs sc of
              (sc', Some e) \<Rightarrow> (sc', Inl (NotMigrated e))
            | (sc', None) \<Rightarrow> (sc', Inr True)))"

text \<open>The account store before anything can trade.\<close>

definition rebuild_accounts :: "Postgres \<Rightarrow> journal \<Rightarrow> bool \<Rightarrow> StartErr + Accounts" where
  "rebuild_accounts pg J settle =
     (if \<not> settle then Inr NewAccounts
      else (case Balances pg J of
              Inl e \<Rightarrow> Inl (NotRebuilt e)
            | Inr (cs, ps) \<Rightarrow> (case LoadBalances cs ps NewAccounts of
                 (_, Some e) \<Rightarrow> Inl (NotLoaded e)
               | (a, None) \<Rightarrow> Inr a)))"

definition start_node ::
  "bool \<Rightarrow> Postgres \<Rightarrow> (string \<Rightarrow> bool) \<Rightarrow> (string, string) gomap \<Rightarrow> Config \<Rightarrow> (string, Disk) gomap \<Rightarrow> bool \<Rightarrow> Schema \<Rightarrow> journal
     \<Rightarrow> Schema \<times> (StartErr + Node)" where
  "start_node opened pg mig_ok fs cf dirs root_ok sc J = (case open_ledger opened pg mig_ok fs cf sc of
     (sc', Inl e) \<Rightarrow> (sc', Inl e)
   | (sc', Inr settle) \<Rightarrow> (case rebuild_accounts pg J settle of
        Inl e \<Rightarrow> (sc', Inl e)
      | Inr a \<Rightarrow>
          let a1 = (if cf_seed cf > 0 then seedAccounts (nat (cf_seed cf)) (cf_seedSymbols cf) a else a);
              (server, reg) = NewServerWithObserver settle True (NewRegistry (cf_wal cf) True)
          in (sc', Inr \<lparr>nd_server = server, nd_reg = reg,
                nd_sys = \<lparr>sys_accounts = a1, sys_dirs = dirs, sys_root_ok = root_ok, sys_feed = []\<rparr>, nd_journal = J\<rparr>)))"

definition stop_node :: "Node \<Rightarrow> (Node \<times> (string \<times> Err) list) option" where
  "stop_node nd = do {
     (r, sys, errs) \<leftarrow> Registry_Close (nd_reg nd) (nd_sys nd);
     Some (nd\<lparr>nd_reg := r, nd_sys := sys\<rparr>, errs) }"

section \<open>Balances are those of the journal\<close>

definition signed :: "journal_entry \<Rightarrow> int" where
  "signed e = (if je_direction e = DirectionDebit then je_amount e else if je_direction e = DirectionCredit then - je_amount e else 0)"

lemma net_signed: "net J = sum_list (map signed J)"
  by (induction J) (auto simp: net_def sum_direction_def signed_def asset_direction_defs)

lemma sum_groups:
  assumes "distinct ks"
  shows "sum_list (map (\<lambda>k. net (filter (\<lambda>e. g e = k) J)) ks) = net (filter (\<lambda>e. g e \<in> set ks) J)"
  using assms
proof (induction ks)
  case (Cons k ks)
  have "net (filter (\<lambda>e. g e \<in> set (k # ks)) J) = net (filter (\<lambda>e. g e = k) J) + net (filter (\<lambda>e. g e \<in> set ks) J)"
    using Cons.prems by (induction J) (auto simp: net_signed)
  with Cons show ?case by simp
qed (simp add: net_signed)

text \<open>What the loop over the rows collects.\<close>

definition row_cash :: "string \<Rightarrow> ((string \<times> string \<times> string) \<times> int) list \<Rightarrow> int" where
  "row_cash who rows = sum_list (map snd (filter (\<lambda>r. fst (fst r) = who \<and> fst (snd (fst r)) = AssetCash) rows))"

lemma fold_rows_cash:
  assumes "fold_rows rows c p = Inr (c', p')" "gwf c"
  shows "gwf c' \<and> i64 (gget0 c' who) = i64 (gget0 c who + row_cash who rows) \<and>
    (is_i64 (gget0 c who) \<longrightarrow> is_i64 (gget0 c' who))"
  using assms
proof (induction rows c p rule: fold_rows.induct)
  case (2 account asset symb n rows c p)
  show ?case
  proof (cases "asset = AssetCash")
    case True
    let ?c = "gput account (add64 (gget0 c account) n) c"
    have "gwf c' \<and> i64 (gget0 c' who) = i64 (gget0 ?c who + row_cash who rows) \<and> (is_i64 (gget0 ?c who) \<longrightarrow> is_i64 (gget0 c' who))"
      using "2.IH"(1) "2.prems" True by (simp split: if_splits)
    then show ?thesis using True by (auto simp: row_cash_def add64_def add.assoc)
  next
    case False
    then have "\<exists>p1. fold_rows rows c p1 = Inr (c', p')" and row: "row_cash who (((account, asset, symb), n) # rows) = row_cash who rows"
      using "2.prems"(1) by (auto simp: Let_def row_cash_def split: if_splits)
    then show ?thesis unfolding row
      using "2.IH"(2,3) "2.prems" False by (cases "asset = AssetPosition") (auto simp: Let_def split: if_splits)
  qed
qed (simp add: row_cash_def)

lemma fold_rows_position:
  assumes "fold_rows rows c p = Inr (c', p')" "distinct (map fst rows)"
  shows "gget2 p' who symb =
    (case map_of rows (who, AssetPosition, symb) of None \<Rightarrow> gget2 p who symb | Some n \<Rightarrow> add64 (gget2 p who symb) n)"
  using assms
proof (induction rows arbitrary: c p)
  case (Cons r rows)
  obtain account asset symb' n where r: "r = ((account, asset, symb'), n)" by (metis prod_cases4 surj_pair)
  have d: "distinct (map fst rows)" "map_of rows (account, asset, symb') = None"
    using Cons.prems(2) by (auto simp: r map_of_eq_None_iff)
  show ?case
  proof (cases "asset = AssetPosition")
    case True
    define q where "q = gput account (gput symb' (add64 (gget0 (inner p account) symb') n) (inner p account)) p"
    have "fold_rows rows c q = Inr (c', p')"
      using Cons.prems(1) True by (auto simp: r Let_def q_def inner_def asset_direction_defs split: if_splits)
    note IH = Cons.IH [OF this d(1)]
    have "gget2 q who symb = (if account = who \<and> symb' = symb then add64 (gget2 p who symb) n else gget2 p who symb)"
      unfolding q_def by (auto simp: gget2_def inner_def)
    then show ?thesis using IH True d(2) by (auto simp: r split: option.splits)
  next
    case False
    then obtain c1 where "fold_rows rows c1 p = Inr (c', p')" using Cons.prems(1) by (auto simp: r split: if_splits)
    from Cons.IH [OF this d(1)] False show ?thesis by (simp add: r)
  qed
qed simp

definition wf_nested :: "(string, (string, int) gomap) gomap \<Rightarrow> bool" where
  "wf_nested p \<longleftrightarrow> gwf p \<and> (\<forall>x \<in> set p. gwf (snd x))"

lemma wf_nested_put: "wf_nested p \<Longrightarrow> gwf i \<Longrightarrow> wf_nested (gput k i p)"
  by (auto simp: wf_nested_def set_gput)

lemma wf_nested_inner: "wf_nested p \<Longrightarrow> gwf (inner p k)"
  by (auto simp: wf_nested_def inner_def split: option.splits dest: map_of_SomeD)

lemma fold_rows_wf:
  assumes "fold_rows rows c p = Inr (c', p')" "wf_nested p"
  shows "wf_nested p'"
  using assms
proof (induction rows c p rule: fold_rows.induct)
  case (2 account asset symb n rows c p)
  then show ?case
    using wf_nested_put [OF "2.prems"(2) gwf_gput [OF wf_nested_inner [OF "2.prems"(2)]]]
    by (auto simp: Let_def inner_def split: if_splits)
qed simp

lemma fold_rows_fits: "\<forall>r \<in> set rows. is_i64 (snd r) \<Longrightarrow> \<exists>c' p'. fold_rows rows c p = Inr (c', p')"
  by (induction rows c p rule: fold_rows.induct) (auto simp: Let_def)

text \<open>What \<open>LoadBalances\<close> makes of two maps.\<close>

lemma map_of_fold_gput: "gwf xs \<Longrightarrow> map_of (fold (\<lambda>(k, v). gput k v) xs m) = map_of m ++ map_of xs"
proof (induction xs arbitrary: m)
  case (Cons x xs)
  obtain k v where x: "x = (k, v)" by (cases x)
  have "k \<notin> dom (map_of xs)" using Cons.prems by (simp add: x dom_map_of_conv_image_fst)
  from map_add_upd_left [OF this, of "map_of m" v] show ?case using Cons
    by (simp add: x) (auto simp: map_add_def fun_eq_iff)
qed simp

lemma fold_setPosition_cash: "cash (fold (\<lambda>(symb, q). setPositionLocked account symb q) xs a) = cash a"
  by (rule fold_frame) (auto simp: setPositionLocked_def)

lemma fold_setPosition:
  "gwf xs \<Longrightarrow> gget2 (positions (fold (\<lambda>(symb, q). setPositionLocked account symb q) xs a)) who symb =
    (if who = account \<and> map_of xs symb \<noteq> None then the (map_of xs symb) else gget2 (positions a) who symb)"
proof (induction xs arbitrary: a)
  case (Cons x xs)
  obtain y q where x: "x = (y, q)" by (cases x)
  have y: "map_of xs y = None" using Cons.prems by (simp add: x map_of_eq_None_iff)
  have "gget2 (positions (setPositionLocked account y q a)) who symb =
      (if who = account \<and> y = symb then q else gget2 (positions a) who symb)"
    by (auto simp: setPositionLocked_def gget2_def inner_def)
  with Cons.IH [of "setPositionLocked account y q a"] Cons.prems y show ?case by (auto simp: x)
qed simp

lemma fold_positions:
  "wf_nested ps \<Longrightarrow> gget2 (positions (fold (\<lambda>(account, bySymbol) a.
      fold (\<lambda>(symb, q). setPositionLocked account symb q) bySymbol a) ps a)) who symb =
    (if map_of (inner ps who) symb \<noteq> None then the (map_of (inner ps who) symb) else gget2 (positions a) who symb)"
proof (induction ps arbitrary: a)
  case (Cons x ps)
  obtain account bs where x: "x = (account, bs)" by (cases x)
  let ?a = "fold (\<lambda>(symb, q). setPositionLocked account symb q) bs a"
  have wf: "wf_nested ps" "gwf bs" "map_of ps account = None" using Cons.prems by (auto simp: wf_nested_def x map_of_eq_None_iff)
  have "inner (x # ps) who = (if who = account then bs else inner ps who)" by (simp add: inner_def x)
  moreover have "inner ps account = []" using wf(3) by (simp add: inner_def)
  ultimately show ?case using Cons.IH [OF wf(1), of ?a] fold_setPosition [OF wf(2), of account a who symb] by (auto simp: x)
qed (simp add: inner_def)

lemma LoadBalances_values:
  assumes "gwf cs" "wf_nested ps"
  shows "\<exists>a'. LoadBalances cs ps NewAccounts = (a', None) \<and> Cash a' who = gget0 cs who \<and> Position a' who symb = gget2 ps who symb"
proof -
  let ?outer = "\<lambda>(account, bySymbol) a. fold (\<lambda>(symb, q). setPositionLocked account symb q) bySymbol a"
  let ?a1 = "NewAccounts\<lparr>cash := fold (\<lambda>(k, v). gput k v) cs [], positions := []\<rparr>"
  let ?a2 = "(fold ?outer ps ?a1)\<lparr>reservedCash := [], reservedShares := []\<rparr>"
  have "LoadBalances cs ps NewAccounts = (?a2, None)" by (simp add: LoadBalances_def NewAccounts_def Let_def)
  moreover have "cash (fold ?outer ps ?a1) = cash ?a1"
    by (rule fold_frame) (auto simp: fold_setPosition_cash)
  then have "Cash ?a2 who = gget0 cs who" by (simp add: Cash_def gget0_def map_of_fold_gput [OF assms(1)])
  moreover have "Position ?a2 who symb = gget2 ps who symb"
    using fold_positions [OF assms(2), of ?a1 who symb] by (auto simp: Position_def gget2_def gget0_def inner_def)
  ultimately show ?thesis by blast
qed

text \<open>The rows of the query against the two single-account queries.\<close>

lemma row_cash_rows: "row_cash who (balance_rows J) = net (filter (\<lambda>e. je_account e = who \<and> je_asset e = AssetCash) J)"
proof -
  let ?Q = "\<lambda>k :: string \<times> string \<times> string. fst k = who \<and> fst (snd k) = AssetCash"
  have "row_cash who (balance_rows J) =
      sum_list (map (\<lambda>k. net (filter (\<lambda>e. group_key e = k) J)) (filter ?Q (remdups (map group_key J))))"
    by (simp add: row_cash_def balance_rows_def filter_map comp_def)
  also have "\<dots> = net (filter (\<lambda>e. group_key e \<in> set (filter ?Q (remdups (map group_key J)))) J)" by (rule sum_groups) simp
  also have "filter (\<lambda>e. group_key e \<in> set (filter ?Q (remdups (map group_key J)))) J = filter (\<lambda>e. je_account e = who \<and> je_asset e = AssetCash) J"
    by (rule filter_cong) (auto simp: group_key_def)
  finally show ?thesis .
qed

lemma map_of_rows:
  "map_of (balance_rows J) k = (if k \<in> group_key ` set J then Some (net (filter (\<lambda>e. group_key e = k) J)) else None)"
  by (simp add: balance_rows_def map_of_map_restrict restrict_map_def)

lemma gget2_rows:
  assumes "fold_rows (balance_rows J) [] [] = Inr (c, p)" "\<forall>r \<in> set (balance_rows J). is_i64 (snd r)"
  shows "is_i64 (gget2 p who symb) \<and>
    gget2 p who symb = net (filter (\<lambda>e. je_account e = who \<and> je_asset e = AssetPosition \<and> je_symbol e = symb) J)"
proof -
  let ?k = "(who, AssetPosition, symb)"
  have f: "filter (\<lambda>e. group_key e = ?k) J = filter (\<lambda>e. je_account e = who \<and> je_asset e = AssetPosition \<and> je_symbol e = symb) J"
    by (rule filter_cong) (auto simp: group_key_def)
  have "distinct (map fst (balance_rows J))" by (simp add: balance_rows_def comp_def)
  from fold_rows_position [OF assms(1) this, of who symb]
  have g: "gget2 p who symb = (if ?k \<in> group_key ` set J then add64 0 (net (filter (\<lambda>e. group_key e = ?k) J)) else 0)"
    by (simp add: map_of_rows gget2_def inner_def)
  show ?thesis
  proof (cases "?k \<in> group_key ` set J")
    case True
    then have "(?k, net (filter (\<lambda>e. group_key e = ?k) J)) \<in> set (balance_rows J)" by (auto simp: balance_rows_def)
    then have "is_i64 (net (filter (\<lambda>e. group_key e = ?k) J))" using assms(2) by fastforce
    with g True f show ?thesis by (simp add: add64_def)
  next
    case False
    then have "\<forall>e \<in> set J. group_key e \<noteq> ?k" by (metis imageI)
    then have "filter (\<lambda>e. group_key e = ?k) J = []" by (simp add: filter_empty_conv)
    with g False f show ?thesis by (simp add: net_signed)
  qed
qed

section \<open>What a restarted node knows\<close>

definition journal_fits :: "journal \<Rightarrow> bool" where
  "journal_fits J \<longleftrightarrow> (\<forall>r \<in> set (balance_rows J). is_i64 (snd r))"


definition demo_config :: Config where
  "demo_config = \<lparr>cf_wal = True, cf_db = True, cf_seed = 0, cf_seedSymbols = ''NABIL,ADBL''\<rparr>"


text \<open>
  Seeding runs after the balances were rebuilt and sets positions instead of adding to them: a
  seeded account that has traded starts again with the seed position.
\<close>

lemma seeding_overwrites_positions:
  "Position a ''acct-0'' ''NABIL'' = 999995 \<Longrightarrow> Position (seedAccounts 1 ''NABIL'' a) ''acct-0'' ''NABIL'' = 1000000"
proof -
  have "seed_account 0 = ''acct-0''" by code_simp
  have "seedAccounts 1 ''NABIL'' a = SetPosition ''acct-0'' ''NABIL'' seedPosition (Deposit ''acct-0'' seedCash a)"
    using \<open>seed_account 0 = ''acct-0''\<close> by (simp add: seedAccounts_def Let_def)
  then show ?thesis by (simp add: SetPosition_def setPositionLocked_def Position_def gget2_def inner_def seedPosition_def)
qed

end
