(* ===== verification/OMS_Recovery.thy ===== *)
theory OMS_Recovery
  imports OMS_Api_Calls OMS_Node
begin

text \<open>
  The order service, the registry and the log together across a crash: what a client was told
  holds on the node that is started on what the crash left.
\<close>

section \<open>What a crash leaves\<close>

text \<open>
  \<open>crash_leaves js L d\<close>: the directory \<open>d\<close> is what is left of a symbol's log by a crash at a moment when
  at least the records \<open>L\<close> had been synced. More may have been synced since, more still
  appended, and of the latter any number of bytes may have reached the disk.
\<close>

definition crash_leaves :: "Json \<Rightarrow> Record list \<Rightarrow> Disk \<Rightarrow> bool" where
  "crash_leaves js L d \<longleftrightarrow> (\<exists>w d0 segs sg rs extra k more. writer_inv js w d0 (segs @ [(sg, rs @ extra)]) \<and>
     map r_Seq (log_of segs @ rs @ extra) = [1..lastSeq w] \<and> own_log (log_of segs @ rs @ extra) \<and>
     log_of segs @ rs = L @ more \<and> length (seg_bytes js rs) \<le> k \<and> write_ok d0 \<and> sync_ok d0 \<and> d = crash_at k w d0)"

text \<open>The mildest crash: everything written reached the disk.\<close>

definition whole_disk :: "Sequencer \<Rightarrow> Disk \<Rightarrow> Disk" where
  "whole_disk s d = (let w = the (s_wal s)
     in crash_at (length (content d (the (w_seg w)))) w (d\<lparr>write_ok := True, sync_ok := True\<rparr>))"

lemma live_crash_leaves:
  assumes "live js s d L"
  shows "crash_leaves js L (whole_disk s d)"
proof -
  let ?d = "d\<lparr>write_ok := True, sync_ok := True\<rparr>"
  obtain w segs where w: "s_wal s = Some w" "writer_inv js w d segs" "log_of segs = L" "lastSeq w = s_seq s" "w_buf w = []"
    and p: "map r_Seq L = [1..s_seq s]" using assms(1) by (auto simp: live_def wal_log_def)
  have sp: "segmentPaths ?d = segmentPaths d" "files ?d = files d" by (simp_all add: segmentPaths_def)
  have d: "writer_inv js w ?d segs" using w(2) unfolding writer_inv_def holds_segments_def sp .
  have "segs \<noteq> []" using w(2) by (auto simp: writer_inv_def wf_segments_def)
  then obtain pre sg rs where segs: "segs = pre @ [(sg, rs @ [])]" by (metis append_Nil2 append_butlast_last_id prod.collapse)
  then have L: "log_of pre @ rs @ [] = L" "log_of pre @ rs = L @ []" using w(3) by simp_all
  have "content d (the (w_seg w)) = seg_bytes js rs"
    using w(2,5) by (auto simp: segs writer_inv_def holds_segments_def content_def)
  then show ?thesis
    unfolding crash_leaves_def whole_disk_def Let_def w(1) option.sel using d [unfolded segs] p live_own_log [OF assms(1)] w(4) L
    by (intro exI [of _ w] exI [of _ ?d] exI [of _ pre] exI [of _ sg] exI [of _ rs] exI [of _ "[]"]
        exI [of _ "length (seg_bytes js rs)"] exI [of _ "[]"]) simp
qed

lemma crash_leaves_log:
  assumes "crash_leaves js L d"
  obtains segs tail n M where "disk_log js d segs tail" "gap_free segs n" "own_log (log_of segs)" "log_of segs = L @ M"
    "write_ok d" "sync_ok d"
proof -
  obtain w d0 segs sg rs extra k more where c: "writer_inv js w d0 (segs @ [(sg, rs @ extra)])"
    "map r_Seq (log_of segs @ rs @ extra) = [1..lastSeq w]" "own_log (log_of segs @ rs @ extra)"
    "log_of segs @ rs = L @ more" "length (seg_bytes js rs) \<le> k" "write_ok d0" "sync_ok d0" "d = crash_at k w d0"
    using assms unfolding crash_leaves_def by blast
  obtain j tail where j: "disk_log js d (segs @ [(sg, rs @ take j extra)]) tail"
    using crash_disk_log [OF c(1,5)] unfolding c(8) by blast
  have "own_log (log_of (segs @ [(sg, rs @ take j extra)]))" using own_log_take [of "log_of segs @ rs" extra j] c(3) by simp
  moreover have "log_of (segs @ [(sg, rs @ take j extra)]) = L @ more @ take j extra"
    using c(4) by (metis append_assoc log_of_snoc)
  moreover have "write_ok d" "sync_ok d" using c(6,7) by (auto simp: c(8) crash_at_def split: option.split)
  ultimately show thesis using that [OF j crash_gap_free [OF c(1,2)]] by blast
qed

section \<open>The first request after the restart\<close>

lemma newSequencer_after_crash:
  assumes "crash_leaves js L (dir_of sys symb)" "reg_walDir r"
  obtains s sys' M where "newSequencer js now symb r sys = Some (sys', Inr s)" "live js s (dir_of sys' symb) (L @ M)"
proof -
  obtain segs tail n M where d: "disk_log js (dir_of sys symb) segs tail" "gap_free segs n" "own_log (log_of segs)"
    "log_of segs = L @ M" "write_ok (dir_of sys symb)" "sync_ok (dir_of sys symb)"
    by (rule crash_leaves_log [OF assms(1)])
  obtain b w d' where b: "Recover js now (dir_of sys symb) NewBook 0 = Some (b, n, None)"
    "OpenWriter js (dir_of sys symb) = (d', Inr w)" "live js (NewSequencerWithWAL b (Some w)) d' (L @ M)"
    using start_live [OF d(1,2,3,5,6)] unfolding d(4) by blast
  obtain s sys' where a: "registry_attach symb r (NewSequencerWithWAL b (Some w)) (put_dir symb d' sys) = (s, sys')"
    by (cases "registry_attach symb r (NewSequencerWithWAL b (Some w)) (put_dir symb d' sys)")
  then have "live js s (dir_of sys' symb) (L @ M)"
    using b(3) dir_of_put_dir [OF d(5), of d'] by (auto simp: registry_attach_def Let_def split: if_splits)
  with that [of sys' s M] a b assms(2) show thesis by (simp add: newSequencer_def)
qed

lemma Get_after_crash:
  assumes "crash_leaves js L (dir_of sys symb)" "reg_walDir r" "validSymbol symb" "map_of (reg_seqs r) symb = None"
    "length (reg_seqs r) < MaxSymbols"
  obtains r' sys' s M where "Get js now symb r sys = Some (r', sys', None)" "map_of (reg_seqs r') symb = Some s"
    "live js s (dir_of sys' symb) (L @ M)"
proof -
  obtain s sys' M where "newSequencer js now symb r sys = Some (sys', Inr s)" "live js s (dir_of sys' symb) (L @ M)"
    by (rule newSequencer_after_crash [OF assms(1,2)])
  with that [of "r\<lparr>reg_seqs := gput symb s (reg_seqs r)\<rparr>" sys' s M] assms(3-5) show thesis
    by (simp add: Get_def get_locked_def)
qed

section \<open>An accepted order survives\<close>

lemma start_node_registry:
  assumes "start_node opened pg mig_ok fs cf dirs root_ok sc J = (sc', Inr nd)" "map_of dirs symb = Some d"
  shows "reg_walDir (nd_reg nd) = cf_wal cf \<and> reg_seqs (nd_reg nd) = [] \<and> dir_of (nd_sys nd) symb = d"
  using assms
  by (auto simp: start_node_def NewServerWithObserver_def NewRegistry_def dir_of_def Let_def split: prod.splits sum.splits)

text \<open>An accepted order survives a crash. When \<open>PlaceOrder\<close> has answered a success, then however
  much later the machine crashes, and wherever in the part of the log that is not synced yet,
  a node started on what is left finds the symbol's sequencer working again at its first use, its
  log continues the one of the moment of the answer, its book is that log replayed, and the
  log holds the order with the terms, the identifier and at the position the client was told.\<close>

lemma accepted_order_survives_crash:
  assumes req: "valid_request req" "validSymbol (po_Symbol req)"
    and s: "map_of (reg_seqs (nd_reg nd)) (po_Symbol req) = Some s"
    and l: "live (ev_json env) s (dir_of (nd_sys nd) (po_Symbol req)) L"
    and d: "map_of (sys_dirs (nd_sys nd)) (po_Symbol req) \<noteq> None"
    and sch: "ev_schedule env = Batched before after gone ck"
    and f: "fits_batch (ev_json env) ck (before @ submit_request (requested req) # after) s (venue_of (nd_sys nd) (po_Symbol req))"
    and po: "PlaceOrder env req nd = Some (Inr resp, nd')"
  shows "\<exists>s' L' rec. map_of (reg_seqs (nd_reg nd')) (po_Symbol req) = Some s' \<and> live (ev_json env) s' (dir_of (nd_sys nd') (po_Symbol req)) L' \<and>
    rec \<in> set L' \<and> r_Kind rec = RecordSubmit \<and> r_Seq rec = pp_LogPosition resp \<and> o_SeqID (r_Order rec) = pp_OrderId resp \<and>
    terms (r_Order rec) = terms (requested req) \<and>
    (\<forall>cf opened pg mig_ok fs dirs left root_ok sc J sc' nd2 now. crash_leaves (ev_json env) L' left \<and> map_of dirs (po_Symbol req) = Some left \<and>
       cf_wal cf \<and> start_node opened pg mig_ok fs cf dirs root_ok sc J = (sc', Inr nd2) \<longrightarrow>
       (\<exists>r sys s2 M. Get (ev_json env) now (po_Symbol req) (nd_reg nd2) (nd_sys nd2) = Some (r, sys, None) \<and>
          map_of (reg_seqs r) (po_Symbol req) = Some s2 \<and> live (ev_json env) s2 (dir_of sys (po_Symbol req)) (L' @ M) \<and>
          abs_book (s_book s2) = replay_of (L' @ M)))"
proof -
  obtain s' M rec where p: "map_of (reg_seqs (nd_reg nd')) (po_Symbol req) = Some s'"
    "live (ev_json env) s' (dir_of (nd_sys nd') (po_Symbol req)) (L @ M)" "rec \<in> set M" "r_Kind rec = RecordSubmit"
    "r_Seq rec = pp_LogPosition resp" "o_SeqID (r_Order rec) = pp_OrderId resp" "terms (r_Order rec) = terms (requested req)"
    using placed_order_logged [OF assms] by blast
  have restart: "\<exists>r sys s2 N. Get (ev_json env) now (po_Symbol req) (nd_reg nd2) (nd_sys nd2) = Some (r, sys, None) \<and>
      map_of (reg_seqs r) (po_Symbol req) = Some s2 \<and> live (ev_json env) s2 (dir_of sys (po_Symbol req)) ((L @ M) @ N) \<and>
      abs_book (s_book s2) = replay_of ((L @ M) @ N)"
    if c: "crash_leaves (ev_json env) (L @ M) left" "map_of dirs (po_Symbol req) = Some left" "cf_wal cf"
      and st: "start_node opened pg mig_ok fs cf dirs root_ok sc J = (sc', Inr nd2)"
    for cf opened pg mig_ok fs dirs left root_ok sc J sc' nd2 now
  proof -
    have n: "reg_walDir (nd_reg nd2)" "map_of (reg_seqs (nd_reg nd2)) (po_Symbol req) = None"
      "length (reg_seqs (nd_reg nd2)) < MaxSymbols" "dir_of (nd_sys nd2) (po_Symbol req) = left"
      using start_node_registry [OF st c(2)] c(3) by (simp_all add: MaxSymbols_def)
    obtain r sys s2 N where "Get (ev_json env) now (po_Symbol req) (nd_reg nd2) (nd_sys nd2) = Some (r, sys, None)"
      "map_of (reg_seqs r) (po_Symbol req) = Some s2" "live (ev_json env) s2 (dir_of sys (po_Symbol req)) ((L @ M) @ N)"
      by (rule Get_after_crash [OF c(1) [unfolded n(4) [symmetric]] n(1) req(2) n(2,3)])
    moreover from this(3) have "abs_book (s_book s2) = replay_of ((L @ M) @ N)" by (simp add: live_def replay_of_def)
    ultimately show ?thesis by blast
  qed
  have "rec \<in> set (L @ M)" using p(3) by simp
  with p(1,2,4-7) restart show ?thesis
    by (intro exI [of _ s'] exI [of _ "L @ M"] exI [of _ rec] conjI allI impI) (assumption | elim conjE)+
qed

lemma accepted_order_survives_crash_witness:
  "\<exists>s d resp nd' L' left nd2 r sys s2 M rec. PlaceOrder demo_env demo_request (demo_node s d) = Some (Inr resp, nd') \<and>
     crash_leaves one_json L' left \<and> rec \<in> set L' \<and> o_SeqID (r_Order rec) = pp_OrderId resp \<and>
     Get one_json demo_clock ''NABIL'' (nd_reg (nd2 :: Node)) (nd_sys nd2) = Some (r, sys, None) \<and> map_of (reg_seqs r) ''NABIL'' = Some s2 \<and>
     live one_json s2 (dir_of sys ''NABIL'') (L' @ M)"
proof -
  obtain s d where q: "live (ev_json demo_env) s (dir_of (nd_sys (demo_node s d)) (po_Symbol demo_request)) []"
    "valid_request demo_request" "validSymbol (po_Symbol demo_request)"
    "map_of (reg_seqs (nd_reg (demo_node s d))) (po_Symbol demo_request) = Some s"
    "map_of (sys_dirs (nd_sys (demo_node s d))) (po_Symbol demo_request) \<noteq> None"
    "ev_schedule demo_env = Batched [] [] None demo_ck"
    "fits_batch (ev_json demo_env) demo_ck ([] @ submit_request (requested demo_request) # []) s (venue_of (nd_sys (demo_node s d)) (po_Symbol demo_request))"
    "let_through s ([] @ submit_request (requested demo_request) # []) (sys_accounts (nd_sys (demo_node s d))) (length ([] :: request list))"
    "\<not> sv_ledger (nd_server (demo_node s d))"
    by (rule demo_place)
  have n: "po_Symbol demo_request = ''NABIL''" "ev_json demo_env = one_json" by (simp_all add: demo_request_def demo_env_def)
  obtain resp nd' where po: "PlaceOrder demo_env demo_request (demo_node s d) = Some (Inr resp, nd')"
    using place_answers [OF q(2,3,4,1,5,6,7)] q(8,9) by blast
  let ?cf = "\<lparr>cf_wal = True, cf_db = False, cf_seed = 0, cf_seedSymbols = []\<rparr>"
  obtain s' L' rec where x: "live one_json s' (dir_of (nd_sys nd') ''NABIL'') L'" "rec \<in> set L'" "o_SeqID (r_Order rec) = pp_OrderId resp"
    and y: "\<forall>cf opened pg mig_ok fs dirs left root_ok sc J sc' nd2 now. crash_leaves one_json L' left \<and> map_of dirs ''NABIL'' = Some left \<and>
       cf_wal cf \<and> start_node opened pg mig_ok fs cf dirs root_ok sc J = (sc', Inr nd2) \<longrightarrow>
       (\<exists>r sys s2 M. Get one_json now ''NABIL'' (nd_reg nd2) (nd_sys nd2) = Some (r, sys, None) \<and>
          map_of (reg_seqs r) ''NABIL'' = Some s2 \<and> live one_json s2 (dir_of sys ''NABIL'') (L' @ M) \<and>
          abs_book (s_book s2) = replay_of (L' @ M))"
    using accepted_order_survives_crash [OF q(2,3,4,1,5,6,7) po] unfolding n by blast
  obtain left where left: "crash_leaves one_json L' left" using live_crash_leaves [OF x(1)] by blast
  obtain sc' nd2 where nd2: "start_node True demo_pg (\<lambda>_. True) [] ?cf [(''NABIL'', left)] True \<lparr>sc_applied = [], sc_executed = []\<rparr> [] = (sc', Inr nd2)"
    by (simp add: start_node_def open_ledger_def rebuild_accounts_def NewServerWithObserver_def)
  have "\<exists>r sys s2 M. Get one_json demo_clock ''NABIL'' (nd_reg nd2) (nd_sys nd2) = Some (r, sys, None) \<and>
      map_of (reg_seqs r) ''NABIL'' = Some s2 \<and> live one_json s2 (dir_of sys ''NABIL'') (L' @ M) \<and> abs_book (s_book s2) = replay_of (L' @ M)"
    by (rule y [rule_format, OF conjI [OF left conjI [OF _ conjI [OF _ nd2]]]]) simp_all
  then obtain r sys s2 M where "Get one_json demo_clock ''NABIL'' (nd_reg nd2) (nd_sys nd2) = Some (r, sys, None)"
    "map_of (reg_seqs r) ''NABIL'' = Some s2" "live one_json s2 (dir_of sys ''NABIL'') (L' @ M)" by blast
  with po left x(2,3) show ?thesis
    by (intro exI conjI)
qed

end
