(* ===== verification/OMS_System.thy ===== *)
theory OMS_System
  imports OMS_Recovery
begin

text \<open>
  The whole node as a state machine: clients' calls, trade streams, orderly restarts and crashes
  in any order, with the orders acknowledged so far as a history. The invariant says that every
  symbol's log is intact and that nothing acknowledged is ever missing from it.
\<close>

section \<open>The durable log of a symbol\<close>

text \<open>A directory nobody writes to.\<close>

definition recoverable :: "Json \<Rightarrow> Record list \<Rightarrow> Disk \<Rightarrow> bool" where
  "recoverable js L d \<longleftrightarrow> (\<exists>segs tail n. disk_log js d segs tail \<and> gap_free segs n \<and> own_log L \<and> log_of segs = L) \<and> write_ok d \<and> sync_ok d"

definition durable :: "Json \<Rightarrow> Registry \<Rightarrow> System \<Rightarrow> string \<Rightarrow> Record list \<Rightarrow> bool" where
  "durable js r sys symb L \<longleftrightarrow> (case map_of (reg_seqs r) symb of
     Some s \<Rightarrow> live js s (dir_of sys symb) L \<and> map_of (sys_dirs sys) symb \<noteq> None
   | None \<Rightarrow> (case map_of (sys_dirs sys) symb of None \<Rightarrow> L = [] | Some d \<Rightarrow> recoverable js L d))"

text \<open>What a call for one symbol leaves alone.\<close>

definition only_touches :: "string \<Rightarrow> Registry \<Rightarrow> System \<Rightarrow> Registry \<Rightarrow> System \<Rightarrow> bool" where
  "only_touches symb r sys r' sys' \<longleftrightarrow> reg_walDir r' = reg_walDir r \<and> sys_root_ok sys' = sys_root_ok sys \<and>
     (gwf (reg_seqs r) \<longrightarrow> gwf (reg_seqs r')) \<and>
     (\<forall>x. x \<noteq> symb \<longrightarrow> map_of (reg_seqs r') x = map_of (reg_seqs r) x \<and> map_of (sys_dirs sys') x = map_of (sys_dirs sys) x)"

lemma only_touches_refl [simp]: "only_touches symb r sys r sys"
  by (simp add: only_touches_def)

lemma only_touches_trans:
  "only_touches symb r sys r1 sys1 \<Longrightarrow> only_touches symb r1 sys1 r2 sys2 \<Longrightarrow> only_touches symb r sys r2 sys2"
  by (simp add: only_touches_def)

lemma durable_frame:
  "only_touches symb r sys r' sys' \<Longrightarrow> x \<noteq> symb \<Longrightarrow> durable js r' sys' x L = durable js r sys x L"
  by (simp add: only_touches_def durable_def dir_of_def split: option.split)

lemma recoverable_start:
  assumes "recoverable js L d"
  obtains b w n d' where "Recover js now d NewBook 0 = Some (b, n, None)" "OpenWriter js d = (d', Inr w)"
    "live js (NewSequencerWithWAL b (Some w)) d' L"
proof -
  obtain segs tail n where d: "disk_log js d segs tail" "gap_free segs n" "own_log L" "log_of segs = L" "write_ok d" "sync_ok d"
    using assms by (auto simp: recoverable_def)
  from start_live [OF d(1,2) _ d(5,6), of now] d(3,4) that show thesis by auto
qed

lemma empty_start:
  assumes "files d = []" "write_ok d" "sync_ok d"
  obtains w n d' where "Recover js now d NewBook 0 = Some (NewBook, n, None)" "OpenWriter js d = (d', Inr w)"
    "live js (NewSequencerWithWAL NewBook (Some w)) d' []"
proof -
  have d: "segmentPaths d = []" "gwf (files d)" using assms(1) by (simp_all add: segmentPaths_def)
  obtain w d' where w: "OpenWriter js d = (d', Inr w)" "writer_inv js w d' [(1, [])]" "LastSeq w = 0"
    using OpenWriter_new [OF d assms(2,3)] by blast
  have "w_buf w = []" using w(1) assms d(1) by (auto simp: OpenWriter_def openSegment_def Let_def new_writer_def)
  moreover have "wal_log js (w, d') []" unfolding wal_log_def using w(2) by (intro exI [of _ "[(1, [])]"]) (simp add: log_of_def)
  ultimately have "live js (NewSequencerWithWAL NewBook (Some w)) d' []"
    using w(3) by (simp add: live_def NewSequencerWithWAL_def LastSeq_def MaxOrderID_def replayable_def) (simp add: NewBook_def)
  moreover have "Recover js now d NewBook 0 = Some (NewBook, 0, None)" by (simp add: Recover_def d(1))
  ultimately show thesis using that w(1) by blast
qed

lemma newSequencer_durable:
  assumes "durable js r sys symb L" "map_of (reg_seqs r) symb = None" "reg_walDir r" "sys_root_ok sys"
  obtains s sys' where "newSequencer js now symb r sys = Some (sys', Inr s)" "live js s (dir_of sys' symb) L"
    "map_of (sys_dirs sys') symb \<noteq> None" "only_touches symb r sys r sys'"
proof -
  have ok: "write_ok (dir_of sys symb)" using assms by (auto simp: durable_def dir_of_def recoverable_def split: option.splits)
  obtain b w n d' where b: "Recover js now (dir_of sys symb) NewBook 0 = Some (b, n, None)"
    "OpenWriter js (dir_of sys symb) = (d', Inr w)" "live js (NewSequencerWithWAL b (Some w)) d' L"
  proof (cases "map_of (sys_dirs sys) symb")
    case None
    then have "L = []" using assms(1,2) by (simp add: durable_def)
    moreover have e: "files (dir_of sys symb) = []" "write_ok (dir_of sys symb)" "sync_ok (dir_of sys symb)"
      using None assms(4) by (simp_all add: dir_of_def)
    obtain w n d' where "Recover js now (dir_of sys symb) NewBook 0 = Some (NewBook, n, None)"
      "OpenWriter js (dir_of sys symb) = (d', Inr w)" "live js (NewSequencerWithWAL NewBook (Some w)) d' []"
      by (rule empty_start [OF e])
    ultimately show ?thesis using that by blast
  next
    case (Some d)
    then have "recoverable js L (dir_of sys symb)" using assms(1,2) by (simp add: durable_def dir_of_def)
    then show ?thesis by (rule recoverable_start [where now = now]) (rule that)
  qed
  obtain s sys' where a: "registry_attach symb r (NewSequencerWithWAL b (Some w)) (put_dir symb d' sys) = (s, sys')"
    by (cases "registry_attach symb r (NewSequencerWithWAL b (Some w)) (put_dir symb d' sys)")
  have "live js s (dir_of sys' symb) L"
    using a b(3) dir_of_put_dir [OF ok, of d'] by (auto simp: registry_attach_def Let_def split: if_splits)
  moreover have sd: "sys_dirs sys' = gput symb d' (sys_dirs sys)" "sys_root_ok sys' = sys_root_ok sys"
    using a assms(4) by (auto simp: registry_attach_def put_dir_def Let_def split: if_splits)
  moreover have "map_of (sys_dirs sys') symb \<noteq> None" "only_touches symb r sys r sys'" unfolding only_touches_def sd by simp_all
  ultimately show thesis using that [of sys' s] a b assms(3) by (simp add: newSequencer_def)
qed

text \<open>A lookup never fails on an intact node but for its own two reasons, and keeps every log.\<close>

lemma Get_durable:
  assumes "durable js r sys symb L" "reg_walDir r" "sys_root_ok sys"
  obtains r' sys' e where "Get js now symb r sys = Some (r', sys', e)" "only_touches symb r sys r' sys'"
    "durable js r' sys' symb L" "e = None \<longrightarrow> validSymbol symb \<and> map_of (reg_seqs r') symb \<noteq> None"
proof -
  consider (refused) e where "Get js now symb r sys = Some (r, sys, Some e)"
    | (found) "Get js now symb r sys = Some (r, sys, None)" "validSymbol symb" "map_of (reg_seqs r) symb \<noteq> None"
    | (new) "validSymbol symb" "map_of (reg_seqs r) symb = None" "length (reg_seqs r) < MaxSymbols"
    by (force simp: Get_def get_locked_def not_le split: if_splits)
  then show thesis
  proof cases
    case new
    obtain s sys' where s: "newSequencer js now symb r sys = Some (sys', Inr s)" "live js s (dir_of sys' symb) L"
      "map_of (sys_dirs sys') symb \<noteq> None" "only_touches symb r sys r sys'"
      by (rule newSequencer_durable [OF assms(1) new(2) assms(2,3)])
    let ?r = "r\<lparr>reg_seqs := gput symb s (reg_seqs r)\<rparr>"
    have "Get js now symb r sys = Some (?r, sys', None)" using new s(1) by (simp add: Get_def get_locked_def)
    moreover have "only_touches symb r sys ?r sys'" "durable js ?r sys' symb L"
      using s by (simp_all add: only_touches_def durable_def)
    ultimately show thesis using that new(1) by simp
  qed (use assms that in auto)
qed

section \<open>Calls\<close>

text \<open>
  The request of a call falls into a batch the log can take: its disk works and counters are far
  from overflow. A call that is not served needs nothing.
\<close>

definition served :: "Env \<Rightarrow> string \<Rightarrow> request \<Rightarrow> Node \<Rightarrow> bool" where
  "served env symb rq nd \<longleftrightarrow> (case ev_schedule env of
     Batched before after gone ck \<Rightarrow> (\<forall>r sys s. Get (ev_json env) (ev_now env) symb (nd_reg nd) (nd_sys nd) = Some (r, sys, None) \<and>
       map_of (reg_seqs r) symb = Some s \<longrightarrow> fits_batch (ev_json env) ck (before @ rq # after) s (venue_of sys symb))
   | _ \<Rightarrow> True)"

text \<open>\<open>call_keeps js symb L nd nd'\<close>: the call returned, the log of its symbol has at most grown, nothing else moved.\<close>

definition call_keeps :: "Json \<Rightarrow> string \<Rightarrow> Record list \<Rightarrow> Node \<Rightarrow> Node \<Rightarrow> bool" where
  "call_keeps js symb L nd nd' \<longleftrightarrow> only_touches symb (nd_reg nd) (nd_sys nd) (nd_reg nd') (nd_sys nd') \<and>
     (\<exists>M. durable js (nd_reg nd') (nd_sys nd') symb (L @ M))"

lemma call_keeps_same:
  "durable js (nd_reg nd) (nd_sys nd) symb L \<Longrightarrow> nd_reg nd' = nd_reg nd \<Longrightarrow> nd_sys nd' = nd_sys nd \<Longrightarrow> call_keeps js symb L nd nd'"
  unfolding call_keeps_def by (auto intro!: exI [of _ "[]"])

lemma call_keeps_reply: "call_keeps js symb L nd nd1 \<Longrightarrow> nd_reg nd' = nd_reg nd1 \<Longrightarrow> nd_sys nd' = nd_sys nd1 \<Longrightarrow> call_keeps js symb L nd nd'"
  by (simp add: call_keeps_def)

lemma send_keeps:
  assumes s: "map_of (reg_seqs (nd_reg nd)) symb = Some s" and d: "durable js (nd_reg nd) (nd_sys nd) symb L"
    and f: "\<And>before after gone ck. sch = Batched before after gone ck \<Longrightarrow>
      fits_batch js ck (before @ rq # after) s (venue_of (nd_sys nd) symb)"
  obtains h nd' where "send js sch symb rq nd = Some (h, nd')" "call_keeps js symb L nd nd'"
proof (cases sch)
  case (Batched before after gone ck)
  have l: "live js s (dir_of (nd_sys nd) symb) L" "map_of (sys_dirs (nd_sys nd)) symb \<noteq> None" using s d by (simp_all add: durable_def)
  obtain ress s' sys' M where c: "commit_symbol js ck symb (before @ rq # after) (nd_reg nd) (nd_sys nd) =
      Some (ress, (nd_reg nd)\<lparr>reg_seqs := gput symb s' (reg_seqs (nd_reg nd))\<rparr>, sys')" "live js s' (dir_of sys' symb) (L @ M)"
    using commit_symbol_live [OF s l f [OF Batched]] by blast
  obtain v' where "sys' = with_venue symb v' (nd_sys nd)" using c(1) by (auto simp: commit_symbol_def split: bind_splits)
  then have "only_touches symb (nd_reg nd) (nd_sys nd) ((nd_reg nd)\<lparr>reg_seqs := gput symb s' (reg_seqs (nd_reg nd))\<rparr>) sys'"
    "map_of (sys_dirs sys') symb \<noteq> None"
    using l(2) by (auto simp: only_touches_def with_venue_def update_dir_def)
  with c Batched show thesis by (intro that) (auto simp: send_def call_keeps_def durable_def)
qed (use call_keeps_same [OF d, of nd] that in \<open>simp_all add: send_def\<close>)

text \<open>A call up to the answer of the sequencer.\<close>

lemma call_sent:
  assumes d: "durable (ev_json env) (nd_reg nd) (nd_sys nd) symb L" and k: "reg_walDir (nd_reg nd)" "sys_root_ok (nd_sys nd)"
    and f: "served env symb rq nd"
  obtains (refused) r sys e where "Get (ev_json env) (ev_now env) symb (nd_reg nd) (nd_sys nd) = Some (r, sys, Some e)"
      "call_keeps (ev_json env) symb L nd (nd\<lparr>nd_reg := r, nd_sys := sys\<rparr>)"
    | (sent) r sys s h nd2 where "Get (ev_json env) (ev_now env) symb (nd_reg nd) (nd_sys nd) = Some (r, sys, None)"
      "validSymbol symb" "map_of (reg_seqs r) symb = Some s" "durable (ev_json env) r sys symb L"
      "send (ev_json env) (ev_schedule env) symb rq (nd\<lparr>nd_reg := r, nd_sys := sys\<rparr>) = Some (h, nd2)"
      "call_keeps (ev_json env) symb L nd nd2"
proof -
  let ?js = "ev_json env"
  obtain r sys e where g: "Get ?js (ev_now env) symb (nd_reg nd) (nd_sys nd) = Some (r, sys, e)"
    "only_touches symb (nd_reg nd) (nd_sys nd) r sys" "durable ?js r sys symb L"
    "e = None \<longrightarrow> validSymbol symb \<and> map_of (reg_seqs r) symb \<noteq> None"
    by (rule Get_durable [OF d k, where now = "ev_now env"])
  show thesis
  proof (cases e)
    case (Some err)
    then show thesis using g by (intro refused) (auto simp: call_keeps_def intro!: exI [of _ "[]"])
  next
    case None
    then obtain s where s: "validSymbol symb" "map_of (reg_seqs r) symb = Some s" using g(4) by auto
    let ?nd = "nd\<lparr>nd_reg := r, nd_sys := sys\<rparr>"
    have s': "map_of (reg_seqs (nd_reg ?nd)) symb = Some s" "durable ?js (nd_reg ?nd) (nd_sys ?nd) symb L" using s g(3) by simp_all
    obtain h nd2 where "send ?js (ev_schedule env) symb rq ?nd = Some (h, nd2)" "call_keeps ?js symb L ?nd nd2"
    proof (rule send_keeps [OF s', where sch = "ev_schedule env" and rq = rq])
      fix before after gone ck assume "ev_schedule env = Batched before after gone ck"
      with f g(1) s(2) None show "fits_batch ?js ck (before @ rq # after) s (venue_of (nd_sys ?nd) symb)" by (simp add: served_def)
    qed
    moreover from this(2) g(2) have "call_keeps ?js symb L nd nd2" unfolding call_keeps_def by (auto intro: only_touches_trans)
    ultimately show thesis using sent g(1,3) s None by blast
  qed
qed

lemma CancelOrder_keeps:
  assumes "durable (ev_json env) (nd_reg nd) (nd_sys nd) (pc_Symbol req) L" "reg_walDir (nd_reg nd)" "sys_root_ok (nd_sys nd)"
    "served env (pc_Symbol req) (cancel_request (pc_OrderId req) (pc_AccountId req)) nd"
  obtains out nd' where "CancelOrder env req nd = Some (out, nd')" "call_keeps (ev_json env) (pc_Symbol req) L nd nd'"
proof (cases "validateSymbol (pc_Symbol req) \<noteq> None \<or> (\<exists>c. validateAccountID (pc_AccountId req) = Inl c) \<or> pc_OrderId req \<le> 0")
  case True
  then have "\<exists>c. CancelOrder env req nd = Some (Inl c, nd)"
    by (cases "validateSymbol (pc_Symbol req)"; cases "validateAccountID (pc_AccountId req)") (auto simp: CancelOrder_def)
  with that call_keeps_same [OF assms(1), of nd] show thesis by auto
next
  case False
  then have v: "validateSymbol (pc_Symbol req) = None" "validateAccountID (pc_AccountId req) = Inr (pc_AccountId req)" "\<not> pc_OrderId req \<le> 0"
    by (auto simp: validateAccountID_def split: if_splits)
  from assms show thesis
  proof (cases rule: call_sent)
    case (refused r sys e)
    with v that show thesis by (simp add: CancelOrder_def)
  next
    case (sent r sys s h nd2)
    obtain p e where "CancelFor h = (p, e)" by (cases "CancelFor h")
    with sent v that call_keeps_reply [OF sent(6)] show thesis by (cases e) (auto simp: CancelOrder_def)
  qed
qed

lemma GetBookSnapshot_keeps:
  assumes "durable (ev_json env) (nd_reg nd) (nd_sys nd) symb L" "reg_walDir (nd_reg nd)" "sys_root_ok (nd_sys nd)"
    "served env symb snapshot_request nd"
  obtains out nd' where "GetBookSnapshot env symb nd = Some (out, nd')" "call_keeps (ev_json env) symb L nd nd'"
proof (cases "validateSymbol symb")
  case (Some c)
  with that call_keeps_same [OF assms(1), of nd] show thesis by (simp add: GetBookSnapshot_def)
next
  case None
  from assms show thesis
  proof (cases rule: call_sent)
    case (refused r sys e)
    with None that show thesis by (simp add: GetBookSnapshot_def)
  next
    case (sent r sys s h nd2)
    obtain st p e where "Sequencer_Snapshot h = (st, p, e)" by (cases "Sequencer_Snapshot h")
    with sent None that show thesis by (cases e) (auto simp: GetBookSnapshot_def)
  qed
qed

lemma stream_open_keeps:
  assumes "durable (ev_json env) (nd_reg nd) (nd_sys nd) symb L" "reg_walDir (nd_reg nd)" "sys_root_ok (nd_sys nd)"
  obtains out nd' where "stream_open env symb nd = Some (out, nd')" "call_keeps (ev_json env) symb L nd nd'"
proof (cases "validateSymbol symb")
  case (Some c)
  with that call_keeps_same [OF assms(1), of nd] show thesis by (simp add: stream_open_def)
next
  case None
  obtain r sys e where g: "Get (ev_json env) (ev_now env) symb (nd_reg nd) (nd_sys nd) = Some (r, sys, e)"
    "only_touches symb (nd_reg nd) (nd_sys nd) r sys" "durable (ev_json env) r sys symb L"
    "e = None \<longrightarrow> validSymbol symb \<and> map_of (reg_seqs r) symb \<noteq> None"
    by (rule Get_durable [OF assms, where now = "ev_now env"])
  have "\<exists>out nd'. stream_open env symb nd = Some (out, nd') \<and> nd_reg nd' = r \<and> nd_sys nd' = sys"
    using None g(1) by (cases e) (simp_all add: stream_open_def Let_def split: prod.split)
  then obtain out nd' where o: "stream_open env symb nd = Some (out, nd')" "nd_reg nd' = r" "nd_sys nd' = sys" by blast
  have "call_keeps (ev_json env) symb L nd nd'" unfolding call_keeps_def o(2,3) using g(2,3) by (auto intro!: exI [of _ "[]"])
  with that o(1) show thesis by blast
qed

text \<open>An acknowledgement is a request with its response; \<open>log_has\<close> says where the log keeps it.\<close>

type_synonym ack = "pb_PlaceOrderRequest \<times> pb_PlaceOrderResponse"

definition log_has :: "Record list \<Rightarrow> ack \<Rightarrow> bool" where
  "log_has L a \<longleftrightarrow> (\<exists>rec \<in> set L. r_Kind rec = RecordSubmit \<and> r_Seq rec = pp_LogPosition (snd a) \<and>
     o_SeqID (r_Order rec) = pp_OrderId (snd a) \<and> terms (r_Order rec) = terms (requested (fst a)))"

lemma log_has_append: "log_has L a \<Longrightarrow> log_has (L @ M) a"
  by (auto simp: log_has_def)

lemma PlaceOrder_after_Get:
  assumes "Get (ev_json env) (ev_now env) (po_Symbol req) (nd_reg nd) (nd_sys nd) = Some (r, sys, None)"
    "map_of (reg_seqs r) (po_Symbol req) = Some s" "validSymbol (po_Symbol req)" "orderFromRequest req = Inr x"
  shows "PlaceOrder env req nd = PlaceOrder env req (nd\<lparr>nd_reg := r, nd_sys := sys\<rparr>)"
proof -
  have "Get (ev_json env) (ev_now env) (po_Symbol req) r sys = Some (r, sys, None)" using assms(2,3) by (simp add: Get_def)
  with assms(1,4) show ?thesis by (simp add: PlaceOrder_def)
qed

lemma place_settle_frame:
  assumes "place_settle env req resp nd = (out, nd')"
  shows "nd_reg nd' = nd_reg nd" "nd_sys nd' = nd_sys nd"
  using assms by (auto simp: place_settle_def Let_def split: if_splits prod.splits)

text \<open>Placing an order: the call returns, and a success is in the part of the log it added.\<close>

lemma PlaceOrder_keeps:
  assumes d: "durable (ev_json env) (nd_reg nd) (nd_sys nd) (po_Symbol req) L" and k: "reg_walDir (nd_reg nd)" "sys_root_ok (nd_sys nd)"
    and f: "served env (po_Symbol req) (submit_request (requested req)) nd"
  obtains out nd' where "PlaceOrder env req nd = Some (out, nd')" "call_keeps (ev_json env) (po_Symbol req) L nd nd'"
    "\<forall>resp. out = Inr resp \<longrightarrow> (\<exists>M. durable (ev_json env) (nd_reg nd') (nd_sys nd') (po_Symbol req) (L @ M) \<and> log_has M (req, resp))"
proof (cases "orderFromRequest req")
  case (Inl c)
  with that call_keeps_same [OF d] show thesis by (simp add: PlaceOrder_def)
next
  case (Inr x)
  then have v: "valid_request req" "x = requested req" by (auto simp: orderFromRequest_iff split: if_splits)
  from d k f show thesis
  proof (cases rule: call_sent)
    case (refused r sys e)
    with Inr that call_keeps_reply [OF refused(2)] show thesis by (simp add: PlaceOrder_def)
  next
    case (sent r sys s h nd2)
    let ?nd = "nd\<lparr>nd_reg := r, nd_sys := sys\<rparr>"
    obtain resp e where h: "Sequencer_Submit (ev_sentAt env) h = (resp, e)" by (cases "Sequencer_Submit (ev_sentAt env) h")
    obtain out nd' where po: "PlaceOrder env req nd = Some (out, nd')" "nd_reg nd' = nd_reg nd2" "nd_sys nd' = nd_sys nd2"
      "e \<noteq> None \<longrightarrow> (\<exists>c. out = Inl c)"
    proof (cases e)
      case None
      obtain out nd' where ps: "place_settle env req resp nd2 = (out, nd')" by (cases "place_settle env req resp nd2")
      with that [of out nd'] place_settle_frame [OF ps] None Inr v(2) sent h show thesis by (simp add: PlaceOrder_def)
    qed (use that Inr v(2) sent h in \<open>auto simp: PlaceOrder_def\<close>)
    have "\<exists>M. durable (ev_json env) (nd_reg nd') (nd_sys nd') (po_Symbol req) (L @ M) \<and> log_has M (req, resp)" if o: "out = Inr resp" for resp
    proof (cases "ev_schedule env")
      case (Batched before after gone ck)
      have l: "live (ev_json env) s (dir_of (nd_sys ?nd) (po_Symbol req)) L" "map_of (sys_dirs (nd_sys ?nd)) (po_Symbol req) \<noteq> None"
        "map_of (reg_seqs (nd_reg ?nd)) (po_Symbol req) = Some s" using sent(3,4) by (simp_all add: durable_def)
      have fb: "fits_batch (ev_json env) ck (before @ submit_request (requested req) # after) s (venue_of (nd_sys ?nd) (po_Symbol req))"
        using f sent(1,3) Batched by (simp add: served_def)
      have "PlaceOrder env req ?nd = Some (Inr resp, nd')" using po(1) o PlaceOrder_after_Get [OF sent(1,3,2) Inr] by simp
      from placed_order_logged [OF v(1) sent(2) l(3,1,2) Batched fb this] obtain s' M rec where
        p: "map_of (reg_seqs (nd_reg nd')) (po_Symbol req) = Some s'" "live (ev_json env) s' (dir_of (nd_sys nd') (po_Symbol req)) (L @ M)"
        "rec \<in> set M" "r_Kind rec = RecordSubmit" "r_Seq rec = pp_LogPosition resp" "o_SeqID (r_Order rec) = pp_OrderId resp"
        "terms (r_Order rec) = terms (requested req)" by blast
      have "map_of (sys_dirs (nd_sys nd')) (po_Symbol req) \<noteq> None"
        using sent(6) p(1) unfolding call_keeps_def durable_def po(2,3) by auto
      with p show ?thesis by (intro exI [of _ M]) (auto simp: durable_def log_has_def)
    qed (use sent(5) h po(4) o in \<open>auto simp: send_def Sequencer_Submit_def seq_do_def split: option.splits\<close>)
    then show thesis using that po call_keeps_reply [OF sent(6)] by blast
  qed
qed

section \<open>Stopping and crashing\<close>

text \<open>Closing a sequencer on a synced log leaves its files as they are.\<close>

lemma Sequencer_Close_live:
  assumes "live js s d L"
  obtains s' e where "Sequencer_Close s d = Some (s', d, e)"
proof -
  obtain w segs where w: "s_wal s = Some w" "writer_inv js w d segs" "w_buf w = []"
    using assms by (auto simp: live_def wal_log_def)
  let ?p = "segmentName (fst (last segs))"
  have p: "w_seg w = Some ?p" "\<not> w_err w" "map_of (files d) ?p \<noteq> None"
    using w(2) by (auto simp: writer_inv_def holds_segments_def)
  then have "append_file ?p [] d = d" by (auto simp: append_file_def content_def gput_same)
  with p w have "\<exists>s' e. Sequencer_Close s d = Some (s', d, e)" by (simp add: Sequencer_Close_def closeWAL_def Close_def Sync_def Let_def)
  with that show thesis by blast
qed

lemma close_all_live:
  assumes "\<forall>(x, s) \<in> set qs. \<exists>L. live js s (dir_of sys x) L \<and> map_of (sys_dirs sys) x \<noteq> None"
  obtains errs where "close_all qs sys = Some (sys, errs)"
  using assms
proof (induction qs arbitrary: thesis)
  case (Cons q qs)
  obtain x s where q: "q = (x, s)" by (cases q)
  obtain L where l: "live js s (dir_of sys x) L" "map_of (sys_dirs sys) x \<noteq> None" using Cons.prems(2) by (auto simp: q)
  obtain s' e where c: "Sequencer_Close s (dir_of sys x) = Some (s', dir_of sys x, e)" by (rule Sequencer_Close_live [OF l(1)])
  have "update_dir x (dir_of sys x) sys = sys" using l(2) by (auto simp: update_dir_def dir_of_def gput_same)
  moreover obtain errs where "close_all qs sys = Some (sys, errs)" using Cons.IH Cons.prems(2) by auto
  ultimately show ?case using c Cons.prems(1) by (simp add: q)
qed simp

text \<open>
  What is left of a symbol's directory when the node dies: nobody wrote to a directory without a
  sequencer; a sequencer may have been anywhere in a commit, of which some bytes may be on disk.
\<close>

definition left_behind :: "Json \<Rightarrow> Node \<Rightarrow> string \<Rightarrow> Disk option \<Rightarrow> bool" where
  "left_behind js nd symb od \<longleftrightarrow> (case map_of (reg_seqs (nd_reg nd)) symb of
     None \<Rightarrow> od = map_of (sys_dirs (nd_sys nd)) symb
   | Some s \<Rightarrow> \<exists>d. od = Some d \<and> (\<forall>L. live js s (dir_of (nd_sys nd) symb) L \<longrightarrow> crash_leaves js L d))"

lemma live_recoverable:
  assumes "live js s d L" "write_ok d" "sync_ok d"
  shows "recoverable js L d"
proof -
  obtain w segs where w: "writer_inv js w d segs" "log_of segs = L" "w_buf w = []" "lastSeq w = s_seq s"
    using assms(1) by (auto simp: live_def wal_log_def)
  have "disk_log js d segs []" using w(1,3) by (simp add: disk_log_def writer_inv_def torn_tail_def)
  moreover have "gap_free segs (s_seq s)" using assms(1) w by (auto simp: gap_free_def live_def writer_inv_def)
  ultimately show ?thesis using assms(2,3) w(2) live_own_log [OF assms(1)] unfolding recoverable_def by blast
qed

section \<open>The node as a state machine\<close>

inductive node_step :: "Json \<Rightarrow> Node \<times> ack list \<Rightarrow> Node \<times> ack list \<Rightarrow> bool" for js where
  place: "ev_json env = js \<Longrightarrow> served env (po_Symbol req) (submit_request (requested req)) nd \<Longrightarrow> PlaceOrder env req nd = Some (out, nd') \<Longrightarrow>
    node_step js (nd, acks) (nd', case out of Inl _ \<Rightarrow> acks | Inr resp \<Rightarrow> acks @ [(req, resp)])"
| cancel: "ev_json env = js \<Longrightarrow> served env (pc_Symbol creq) (cancel_request (pc_OrderId creq) (pc_AccountId creq)) nd \<Longrightarrow>
    CancelOrder env creq nd = Some (cout, nd') \<Longrightarrow> node_step js (nd, acks) (nd', acks)"
| snapshot: "ev_json env = js \<Longrightarrow> served env symb snapshot_request nd \<Longrightarrow> GetBookSnapshot env symb nd = Some (sout, nd') \<Longrightarrow>
    node_step js (nd, acks) (nd', acks)"
| stream: "ev_json env = js \<Longrightarrow> stream_open env symb nd = Some (tout, nd') \<Longrightarrow> node_step js (nd, acks) (nd', acks)"
| turn: "stream_turn sends symb i nd = Some (ts, broke, nd') \<Longrightarrow> node_step js (nd, acks) (nd', acks)"
| hang_up: "node_step js (nd, acks) (stream_close symb i nd, acks)"
| restart: "stop_node nd = Some (nd1, errs) \<Longrightarrow> (\<forall>d \<in> ran (map_of (sys_dirs (nd_sys nd1))). write_ok d \<and> sync_ok d) \<Longrightarrow> cf_wal cf \<Longrightarrow>
    start_node opened pg mig_ok fs cf (sys_dirs (nd_sys nd1)) True sc (nd_journal nd1) = (sc', Inr nd') \<Longrightarrow> node_step js (nd, acks) (nd', acks)"
| crash: "(\<And>x. left_behind js nd x (map_of dirs x)) \<Longrightarrow> cf_wal cf \<Longrightarrow>
    start_node opened pg mig_ok fs cf dirs True sc J = (sc', Inr nd') \<Longrightarrow> node_step js (nd, acks) (nd', acks)"

inductive node_reachable :: "Json \<Rightarrow> Node \<times> ack list \<Rightarrow> bool" for js where
  start: "start_node opened pg mig_ok fs cf [] True sc J = (sc', Inr nd) \<Longrightarrow> cf_wal cf \<Longrightarrow> node_reachable js (nd, [])"
| step: "node_reachable js st \<Longrightarrow> node_step js st st' \<Longrightarrow> node_reachable js st'"

section \<open>The invariant\<close>

definition node_inv :: "Json \<Rightarrow> Node \<Rightarrow> ack list \<Rightarrow> (string \<Rightarrow> Record list) \<Rightarrow> bool" where
  "node_inv js nd acks logs \<longleftrightarrow> reg_walDir (nd_reg nd) \<and> sys_root_ok (nd_sys nd) \<and> gwf (reg_seqs (nd_reg nd)) \<and>
     (\<forall>x. durable js (nd_reg nd) (nd_sys nd) x (logs x)) \<and> (\<forall>a \<in> set acks. log_has (logs (po_Symbol (fst a))) a) \<and>
     distinct (map (\<lambda>a. (po_Symbol (fst a), pp_OrderId (snd a))) acks)"

lemma node_invD:
  assumes "node_inv js nd acks logs"
  shows "reg_walDir (nd_reg nd)" "sys_root_ok (nd_sys nd)" "durable js (nd_reg nd) (nd_sys nd) x (logs x)"
  using assms by (simp_all add: node_inv_def)

lemma durable_own_log: "durable js r sys x L \<Longrightarrow> own_log L"
  by (auto simp: durable_def recoverable_def own_log_def replayable_def dest: live_own_log split: option.splits)

lemma log_has_placed: "log_has L a \<Longrightarrow> pp_OrderId (snd a) \<in> set (placed_ids (map mutation_of L))"
  unfolding log_has_def placed_ids_def mutation_of_def by force

lemma call_inv:
  assumes inv: "node_inv js nd acks logs" and k: "only_touches symb (nd_reg nd) (nd_sys nd) (nd_reg nd') (nd_sys nd')"
    and d: "durable js (nd_reg nd') (nd_sys nd') symb (logs symb @ M)"
  shows "node_inv js nd' acks (logs(symb := logs symb @ M))"
proof -
  have "durable js (nd_reg nd') (nd_sys nd') x ((logs(symb := logs symb @ M)) x)" for x
    using d node_invD(3) [OF inv, of x] durable_frame [OF k, of x js "logs x"] by (cases "x = symb") auto
  moreover have "log_has ((logs(symb := logs symb @ M)) y) a" if "log_has (logs y) a" for a y
    using that log_has_append [of "logs symb" a M] by (cases "y = symb") simp_all
  ultimately show ?thesis using inv k unfolding node_inv_def only_touches_def by blast
qed

lemma call_keeps_inv: "node_inv js nd acks logs \<Longrightarrow> call_keeps js symb (logs symb) nd nd' \<Longrightarrow> \<exists>logs'. node_inv js nd' acks logs'"
  unfolding call_keeps_def using call_inv by blast

lemma server_only_inv:
  "node_inv js nd acks logs \<Longrightarrow> nd_reg nd' = nd_reg nd \<Longrightarrow> nd_sys nd' = nd_sys nd \<Longrightarrow> \<exists>logs'. node_inv js nd' acks logs'"
  unfolding node_inv_def by auto

lemma ack_inv:
  assumes inv: "node_inv js nd acks logs" and k: "only_touches (po_Symbol req) (nd_reg nd) (nd_sys nd) (nd_reg nd') (nd_sys nd')"
    and d: "durable js (nd_reg nd') (nd_sys nd') (po_Symbol req) (logs (po_Symbol req) @ M)" and a: "log_has M (req, resp)"
  shows "node_inv js nd' (acks @ [(req, resp)]) (logs(po_Symbol req := logs (po_Symbol req) @ M))"
proof -
  let ?x = "po_Symbol req"
  have "distinct (placed_ids (map mutation_of (logs ?x @ M)))" using durable_own_log [OF d] by (simp add: own_log_def replayable_def)
  then have "pp_OrderId resp \<notin> set (placed_ids (map mutation_of (logs ?x)))" using log_has_placed [OF a] by auto
  then have "(?x, pp_OrderId resp) \<notin> set (map (\<lambda>a. (po_Symbol (fst a), pp_OrderId (snd a))) acks)"
    using inv log_has_placed unfolding node_inv_def by fastforce
  moreover have "log_has (logs ?x @ M) (req, resp)" using a by (auto simp: log_has_def)
  ultimately show ?thesis using call_inv [OF inv k d] by (auto simp: node_inv_def)
qed

lemma start_node_inv:
  assumes st: "start_node opened pg mig_ok fs cf dirs True sc J = (sc', Inr nd')" "cf_wal cf"
    and inv: "node_inv js nd acks logs" and d: "\<And>x. \<exists>M. case map_of dirs x of None \<Rightarrow> logs x @ M = [] | Some d \<Rightarrow> recoverable js (logs x @ M) d"
  shows "\<exists>logs'. node_inv js nd' acks logs'"
proof -
  have n: "reg_walDir (nd_reg nd')" "reg_seqs (nd_reg nd') = []" "sys_root_ok (nd_sys nd')" "sys_dirs (nd_sys nd') = dirs"
    using st by (auto simp: start_node_def NewServerWithObserver_def NewRegistry_def Let_def split: prod.splits sum.splits)
  obtain M where M: "\<And>x. case map_of dirs x of None \<Rightarrow> logs x @ M x = [] | Some d \<Rightarrow> recoverable js (logs x @ M x) d" using d by metis
  have "durable js (nd_reg nd') (nd_sys nd') x (logs x @ M x)" for x using M [of x] by (simp add: durable_def n split: option.splits)
  then have "node_inv js nd' acks (\<lambda>x. logs x @ M x)" using inv n log_has_append by (simp add: node_inv_def)
  then show ?thesis by blast
qed

lemma stop_returns:
  assumes inv: "node_inv js nd acks logs"
  shows "\<exists>errs. stop_node nd = Some (nd\<lparr>nd_reg := (nd_reg nd)\<lparr>reg_seqs := []\<rparr>\<rparr>, errs)"
proof -
  have "\<exists>L. live js s (dir_of (nd_sys nd) y) L \<and> map_of (sys_dirs (nd_sys nd)) y \<noteq> None" if "(y, s) \<in> set (reg_seqs (nd_reg nd))" for y s
    using node_invD(3) [OF inv, of y] that inv by (auto simp: durable_def node_inv_def)
  then have "\<forall>(y, s) \<in> set (reg_seqs (nd_reg nd)). \<exists>L. live js s (dir_of (nd_sys nd) y) L \<and> map_of (sys_dirs (nd_sys nd)) y \<noteq> None" by blast
  then obtain errs where "close_all (reg_seqs (nd_reg nd)) (nd_sys nd) = Some (nd_sys nd, errs)" by (rule close_all_live)
  then show ?thesis by (simp add: stop_node_def Registry_Close_def)
qed

lemma stop_inv:
  assumes inv: "node_inv js nd acks logs" and stop: "stop_node nd = Some (nd1, errs)"
    and ok: "\<forall>d \<in> ran (map_of (sys_dirs (nd_sys nd1))). write_ok d \<and> sync_ok d"
  shows "\<exists>M. case map_of (sys_dirs (nd_sys nd1)) x of None \<Rightarrow> logs x @ M = [] | Some d \<Rightarrow> recoverable js (logs x @ M) d"
proof -
  have s: "nd_sys nd1 = nd_sys nd" using stop_returns [OF inv] stop by auto
  note d = node_invD(3) [OF inv, of x]
  show ?thesis
  proof (cases "map_of (sys_dirs (nd_sys nd)) x")
    case None
    then show ?thesis using d by (auto simp: s durable_def split: option.splits)
  next
    case (Some dr)
    then have "write_ok dr" "sync_ok dr" "dir_of (nd_sys nd) x = dr" using ok by (auto simp: s ran_def dir_of_def)
    then have "recoverable js (logs x) dr" using d Some live_recoverable by (auto simp: durable_def split: option.splits)
    then show ?thesis using Some by (intro exI [of _ "[]"]) (simp add: s)
  qed
qed

text \<open>A crash is possible in every state.\<close>

lemma map_of_map_keyed: "map_of (map (\<lambda>(x, d). (x, g x d)) xs) x = map_option (g x) (map_of xs x)"
  by (induction xs) auto

lemma crash_possible:
  assumes inv: "node_inv js nd acks logs"
  shows "\<exists>dirs. \<forall>x. left_behind js nd x (map_of dirs x)"
proof -
  let ?g = "\<lambda>x d. case map_of (reg_seqs (nd_reg nd)) x of None \<Rightarrow> d | Some s \<Rightarrow> whole_disk s d"
  have "left_behind js nd x (map_of (map (\<lambda>(x, d). (x, ?g x d)) (sys_dirs (nd_sys nd))) x)" for x
    unfolding map_of_map_keyed using node_invD(3) [OF inv, of x] live_crash_leaves
    by (auto simp: left_behind_def durable_def dir_of_def split: option.splits)
  then show ?thesis by blast
qed

lemma crash_inv:
  assumes inv: "node_inv js nd acks logs" and l: "left_behind js nd x (map_of dirs x)"
  shows "\<exists>M. case map_of dirs x of None \<Rightarrow> logs x @ M = [] | Some d \<Rightarrow> recoverable js (logs x @ M) d"
proof (cases "map_of (reg_seqs (nd_reg nd)) x")
  case None
  then show ?thesis using l node_invD(3) [OF inv, of x] by (intro exI [of _ "[]"]) (simp add: left_behind_def durable_def split: option.splits)
next
  case (Some s)
  then have "live js s (dir_of (nd_sys nd) x) (logs x)" using node_invD(3) [OF inv, of x] by (simp add: durable_def)
  then obtain d where d: "map_of dirs x = Some d" "crash_leaves js (logs x) d" using l Some by (auto simp: left_behind_def)
  obtain segs tail n M where "disk_log js d segs tail" "gap_free segs n" "own_log (log_of segs)" "log_of segs = logs x @ M" "write_ok d" "sync_ok d"
    by (rule crash_leaves_log [OF d(2)])
  then have "recoverable js (logs x @ M) d" unfolding recoverable_def by metis
  then show ?thesis using d(1) by auto
qed

lemma node_step_inv:
  assumes "node_step js (nd, acks) (nd', acks')" "node_inv js nd acks logs"
  shows "\<exists>logs'. node_inv js nd' acks' logs'"
  using assms(1)
proof cases
  case (place env req out)
  note d = node_invD [OF assms(2)]
  obtain o1 n1 where o: "PlaceOrder env req nd = Some (o1, n1)" "call_keeps js (po_Symbol req) (logs (po_Symbol req)) nd n1"
    "\<forall>resp. o1 = Inr resp \<longrightarrow> (\<exists>M. durable js (nd_reg n1) (nd_sys n1) (po_Symbol req) (logs (po_Symbol req) @ M) \<and> log_has M (req, resp))"
    using PlaceOrder_keeps [of env nd req "logs (po_Symbol req)"] d place(2,3) by metis
  show ?thesis
  proof (cases out)
    case (Inl c)
    then show ?thesis using call_keeps_inv [OF assms(2) o(2)] o(1) place by auto
  next
    case (Inr resp)
    then obtain M where "durable js (nd_reg nd') (nd_sys nd') (po_Symbol req) (logs (po_Symbol req) @ M)" "log_has M (req, resp)"
      using o place(4) by auto
    with ack_inv [OF assms(2)] o place Inr show ?thesis unfolding call_keeps_def by fastforce
  qed
next
  case (cancel env creq cout)
  note d = node_invD [OF assms(2)]
  show ?thesis using CancelOrder_keeps [of env nd creq "logs (pc_Symbol creq)"] d cancel call_keeps_inv [OF assms(2)] by (metis Pair_inject option.inject)
next
  case (snapshot env symb sout)
  note d = node_invD [OF assms(2)]
  show ?thesis using GetBookSnapshot_keeps [of env nd symb "logs symb"] d snapshot call_keeps_inv [OF assms(2)] by (metis Pair_inject option.inject)
next
  case (stream env symb tout)
  note d = node_invD [OF assms(2)]
  show ?thesis using stream_open_keeps [of env nd symb "logs symb"] d stream call_keeps_inv [OF assms(2)] by (metis Pair_inject option.inject)
next
  case (turn sends symb i ts broke)
  then show ?thesis using server_only_inv [OF assms(2), of nd']
    by (auto simp: stream_turn_def Let_def split: prod.splits option.splits)
next
  case (hang_up symb i)
  then show ?thesis using server_only_inv [OF assms(2), of nd'] by (auto simp: stream_close_def Let_def split: prod.splits)
next
  case (restart nd1 errs cf opened pg mig_ok fs sc sc')
  then show ?thesis using start_node_inv [OF restart(5,4) assms(2) stop_inv [OF assms(2) restart(2,3)]] by simp
next
  case (crash dirs cf opened pg mig_ok fs sc J sc')
  then show ?thesis using start_node_inv [OF crash(4,3) assms(2) crash_inv [OF assms(2) crash(2)]] by simp
qed

lemma node_reachable_inv: "node_reachable js st \<Longrightarrow> \<exists>logs. node_inv js (fst st) (snd st) logs"
proof (induction rule: node_reachable.induct)
  case (start opened pg mig_ok fs cf sc J sc' nd)
  then have "reg_walDir (nd_reg nd) \<and> reg_seqs (nd_reg nd) = [] \<and> sys_root_ok (nd_sys nd) \<and> sys_dirs (nd_sys nd) = []"
    by (auto simp: start_node_def NewServerWithObserver_def NewRegistry_def Let_def split: prod.splits sum.splits)
  then have "node_inv js nd [] (\<lambda>_. [])" by (simp add: node_inv_def durable_def)
  then show ?case by auto
next
  case (step st st')
  then show ?case using node_step_inv [of js "fst st" "snd st" "fst st'" "snd st'"] by auto
qed

end
