(* ===== verification/OMS_System_Props.thy ===== *)
theory OMS_System_Props
  imports OMS_System
begin

text \<open>The properties of the node as a state machine, and one of its runs to evaluate them on.\<close>

section \<open>A run\<close>

text \<open>
  A node without a ledger is started with one seeded account; the account offers shares, is told
  so, the machine crashes and the node is started again.
\<close>

definition town_config :: Config where
  "town_config = \<lparr>cf_wal = True, cf_db = False, cf_seed = 1, cf_seedSymbols = ''NABIL''\<rparr>"

definition town_accounts :: Accounts where
  "town_accounts = seedAccounts 1 ''NABIL'' NewAccounts"

definition town_node :: "(string, Disk) gomap \<Rightarrow> Node" where
  "town_node dirs = \<lparr>nd_server = \<lparr>sv_ledger = False, sv_obs = True, sv_feeds = [], sv_seen = []\<rparr>,
     nd_reg = \<lparr>reg_OnTrades = True, reg_walDir = True, reg_accounts = True, reg_seqs = []\<rparr>,
     nd_sys = \<lparr>sys_accounts = town_accounts, sys_dirs = dirs, sys_root_ok = True, sys_feed = []\<rparr>, nd_journal = []\<rparr>"

lemma town_starts:
  "start_node True demo_pg (\<lambda>_. True) [] town_config dirs True sc [] = (sc, Inr (town_node dirs))"
  by (simp add: start_node_def open_ledger_def rebuild_accounts_def NewServerWithObserver_def NewRegistry_def town_config_def town_node_def
      town_accounts_def)

definition town_request :: pb_PlaceOrderRequest where
  "town_request = demo_request\<lparr>po_AccountId := seed_account 0\<rparr>"

definition town_record :: Record where
  "town_record = submit_record 1 ((requested town_request)\<lparr>o_SeqID := 1\<rparr>)"

definition town_env :: Env where
  "town_env = demo_env\<lparr>ev_json := \<lparr>j_Marshal = (\<lambda>_. Some []), j_Unmarshal = (\<lambda>_. Some (payload_of town_record))\<rparr>\<rparr>"

lemma town_reserve: "snd (Reserve ((requested town_request)\<lparr>o_SeqID := 1\<rparr>) town_accounts) = None"
  by code_simp

lemma town_request_valid: "valid_request town_request" "po_Symbol town_request = ''NABIL''" "validSymbol ''NABIL''"
  by code_simp+

definition town_sequencer :: "Writer \<Rightarrow> Sequencer" where
  "town_sequencer w = attach ''NABIL'' True (Some ''NABIL'') (NewSequencerWithWAL NewBook (Some w))"

lemma town_get:
  obtains w r sys where "Get (ev_json town_env) now ''NABIL'' (nd_reg (town_node [])) (nd_sys (town_node [])) = Some (r, sys, None)"
    "map_of (reg_seqs r) ''NABIL'' = Some (town_sequencer w)" "lastSeq w = 0" "sys_accounts sys = town_accounts"
    "write_ok (dir_of sys ''NABIL'')" "sync_ok (dir_of sys ''NABIL'')"
proof -
  let ?js = "ev_json town_env" and ?r = "nd_reg (town_node [])" and ?sys = "nd_sys (town_node [])"
  let ?e = "\<lparr>files = [], write_ok = True, sync_ok = True\<rparr> :: Disk"
  have e: "segmentPaths ?e = []" by (simp add: segmentPaths_def)
  obtain w d where w: "OpenWriter ?js ?e = (d, Inr w)" "LastSeq w = 0" "write_ok d" "sync_ok d"
    using OpenWriter_new [OF e, of ?js] by auto
  have n: "dir_of ?sys ''NABIL'' = ?e" "reg_walDir ?r" "reg_accounts ?r" "reg_OnTrades ?r" "reg_seqs ?r = []" "sys_accounts ?sys = town_accounts"
    "put_dir ''NABIL'' d ?sys = ?sys\<lparr>sys_dirs := [(''NABIL'', d)]\<rparr>"
    by (simp_all add: town_node_def dir_of_def put_dir_def)
  have "Recover ?js now ?e NewBook 0 = Some (NewBook, 0, None)" by (simp add: Recover_def e)
  moreover have "RestingOrders (s_book (town_sequencer w)) = []"
    by (simp add: town_sequencer_def attach_def NewSequencerWithWAL_def RestingOrders_def NewBook_def)
  ultimately have "newSequencer ?js now ''NABIL'' ?r ?sys = Some (?sys\<lparr>sys_dirs := [(''NABIL'', d)]\<rparr>, Inr (town_sequencer w))"
    using w(1) n by (simp add: newSequencer_def registry_attach_def town_sequencer_def Let_def)
  then have "Get ?js now ''NABIL'' ?r ?sys =
      Some (?r\<lparr>reg_seqs := [(''NABIL'', town_sequencer w)]\<rparr>, ?sys\<lparr>sys_dirs := [(''NABIL'', d)]\<rparr>, None)"
    using town_request_valid(3) n(5) by (simp add: Get_def get_locked_def MaxSymbols_def)
  then show thesis by (rule that [where w = w]) (use w n in \<open>simp_all add: LastSeq_def dir_of_def\<close>)
qed

lemma town_prepared:
  assumes "lastSeq w = 0"
  shows "prepared (town_sequencer w) [submit_request (requested town_request)] town_accounts =
    [(submit_request ((requested town_request)\<lparr>o_SeqID := 1\<rparr>))\<lparr>rq_orderID := 1\<rparr>]"
proof -
  have s: "s_nextOrderID (town_sequencer w) = 0" "s_symbol (town_sequencer w) = ''NABIL''" "s_accounts (town_sequencer w)"
    by (simp_all add: town_sequencer_def attach_def NewSequencerWithWAL_def MaxOrderID_def NewBook_def)
  have q: "o_SeqID (requested town_request) = 0" "o_Symbol (requested town_request) = ''NABIL''" by code_simp+
  have "fst (assign_id (submit_request (requested town_request)) (town_sequencer w)) =
      (submit_request ((requested town_request)\<lparr>o_SeqID := 1\<rparr>))\<lparr>rq_orderID := 1\<rparr>"
    by (simp add: assign_id_def s q submit_request_def zero_request_def add64_def is_i64_def Let_def)
  then show ?thesis using town_reserve
    by (simp add: prepared_def s reserve_one_def submit_request_def zero_request_def case_prod_beta Let_def)
qed

lemma town_fits:
  assumes "lastSeq w = 0" "sys_accounts sys = town_accounts" "write_ok (dir_of sys ''NABIL'')" "sync_ok (dir_of sys ''NABIL'')"
  shows "fits_batch (ev_json town_env) demo_ck [submit_request (requested town_request)] (town_sequencer w) (venue_of sys ''NABIL'')"
    "let_through (town_sequencer w) [submit_request (requested town_request)] town_accounts 0"
proof -
  let ?b = "[submit_request (requested town_request)]"
  have s: "s_nextOrderID (town_sequencer w) = 0" "s_seq (town_sequencer w) = 0"
    using assms(1) by (simp_all add: town_sequencer_def attach_def NewSequencerWithWAL_def MaxOrderID_def NewBook_def LastSeq_def)
  have "records_for (prepared (town_sequencer w) ?b town_accounts) 0 (ck_pickedUp demo_ck) = [town_record]"
    unfolding town_prepared [OF assms(1)]
    by (simp add: submit_request_def zero_request_def skipped_def record_of_def town_record_def submit_record_def demo_ck_def)
  moreover have "loggable (ev_json town_env) town_record"
    by (simp add: loggable_def wf_record_def json_reads_back_def payload_bytes_def town_env_def town_record_def submit_record_def
        is_i64_def maxRecordPayload_def)
  ultimately show "fits_batch (ev_json town_env) demo_ck ?b (town_sequencer w) (venue_of sys ''NABIL'')"
    using valid_incoming [OF town_request_valid(1)] assms(2-4) by (simp add: fits_batch_def s venue_of_def max_i64_def)
  show "let_through (town_sequencer w) ?b town_accounts 0"
    unfolding let_through_def town_prepared [OF assms(1)] by (simp add: submit_request_def zero_request_def)
qed

lemma town_served: "served town_env (po_Symbol town_request) (submit_request (requested town_request)) (town_node [])"
proof -
  obtain w r sys where g: "Get (ev_json town_env) (ev_now town_env) ''NABIL'' (nd_reg (town_node [])) (nd_sys (town_node [])) = Some (r, sys, None)"
    "map_of (reg_seqs r) ''NABIL'' = Some (town_sequencer w)" "lastSeq w = 0" "sys_accounts sys = town_accounts"
    "write_ok (dir_of sys ''NABIL'')" "sync_ok (dir_of sys ''NABIL'')" by (rule town_get)
  have "ev_schedule town_env = Batched [] [] None demo_ck" by (simp add: town_env_def demo_env_def)
  then show ?thesis using town_fits(1) [OF g(3-6)] g(1,2) by (simp add: served_def town_request_valid(2))
qed

lemma town_start: "node_reachable (ev_json town_env) (town_node [], [])"
  by (rule node_reachable.start [OF town_starts [where sc = "\<lparr>sc_applied = [], sc_executed = []\<rparr>"]]) (simp add: town_config_def)

lemma town_run:
  obtains nd resp where "node_reachable (ev_json town_env) (nd, [(town_request, resp)])" "reg_seqs (nd_reg nd) = []"
proof -
  let ?js = "ev_json town_env" and ?nd = "town_node []"
  obtain w r sys where g: "Get ?js (ev_now town_env) ''NABIL'' (nd_reg ?nd) (nd_sys ?nd) = Some (r, sys, None)"
    "map_of (reg_seqs r) ''NABIL'' = Some (town_sequencer w)" "lastSeq w = 0" "sys_accounts sys = town_accounts"
    "write_ok (dir_of sys ''NABIL'')" "sync_ok (dir_of sys ''NABIL'')" by (rule town_get)
  obtain logs where inv: "node_inv ?js ?nd [] logs" using node_reachable_inv [OF town_start] by auto
  let ?nd1 = "?nd\<lparr>nd_reg := r, nd_sys := sys\<rparr>"
  have d: "durable ?js r sys ''NABIL'' (logs ''NABIL'')"
    using Get_durable [OF node_invD(3) [OF inv, of "''NABIL''"] node_invD(1,2) [OF inv], where now = "ev_now town_env"] g(1)
    by (metis option.inject prod.inject)
  have sch: "ev_schedule town_env = Batched [] [] None demo_ck" by (simp add: town_env_def demo_env_def)
  have l: "live ?js (town_sequencer w) (dir_of sys ''NABIL'') (logs ''NABIL'')" "map_of (sys_dirs sys) ''NABIL'' \<noteq> None"
    using d g(2) by (simp_all add: durable_def)
  have o: "orderFromRequest town_request = Inr (requested town_request)" by (simp add: orderFromRequest_iff town_request_valid(1))
  have "\<exists>out nd'. PlaceOrder town_env town_request ?nd1 = Some (out, nd') \<and> (\<exists>resp. out = Inr resp)"
    using place_answers [OF town_request_valid(1), where nd = ?nd1 and s = "town_sequencer w" and env = town_env and L = "logs ''NABIL''", OF _ _ _ _ sch]
      town_request_valid(2,3) g(2,4) l town_fits [OF g(3-6)] by (simp add: town_node_def)
  then obtain resp nd1 where po: "PlaceOrder town_env town_request ?nd = Some (Inr resp, nd1)"
    using PlaceOrder_after_Get [of town_env town_request ?nd r sys] town_request_valid(2,3) g(1,2) o by auto
  have r1: "node_reachable ?js (nd1, [(town_request, resp)])"
    using node_reachable.step [OF town_start node_step.place [OF refl town_served po, where acks = "[]"]] by simp
  obtain dirs where "\<And>x. left_behind ?js nd1 x (map_of dirs x)" using node_reachable_inv [OF r1] crash_possible by auto metis
  from node_step.crash [OF this _ town_starts] have "node_step ?js (nd1, [(town_request, resp)]) (town_node dirs, [(town_request, resp)])"
    by (simp add: town_config_def)
  from node_reachable.step [OF r1 this] that show thesis by (simp add: town_node_def)
qed

section \<open>Nothing acknowledged is ever lost\<close>



text \<open>C10: A reachable node answers. In whatever state calls, restarts and crashes have brought it, no
  handler panics: placing, cancelling, a snapshot and opening a trade stream return, as long as the
  batch the request falls into is one a working log can take, and an orderly stop returns too.\<close>

theorem reachable_node_answers:
  assumes "node_reachable js (nd, acks)" "ev_json env = js"
  shows "(served env (po_Symbol req) (submit_request (requested req)) nd \<longrightarrow> PlaceOrder env req nd \<noteq> None) \<and>
    (served env (pc_Symbol creq) (cancel_request (pc_OrderId creq) (pc_AccountId creq)) nd \<longrightarrow> CancelOrder env creq nd \<noteq> None) \<and>
    (served env symb snapshot_request nd \<longrightarrow> GetBookSnapshot env symb nd \<noteq> None) \<and>
    stream_open env symb nd \<noteq> None \<and> stop_node nd \<noteq> None"
proof -
  obtain logs where inv: "node_inv js nd acks logs" using node_reachable_inv [OF assms(1)] by auto
  note d = node_invD(3) [OF inv, folded assms(2)] and k = node_invD(1,2) [OF inv]
  have "PlaceOrder env req nd \<noteq> None" if "served env (po_Symbol req) (submit_request (requested req)) nd"
    using PlaceOrder_keeps [OF d k that] by (metis option.distinct(1))
  moreover have "CancelOrder env creq nd \<noteq> None" if "served env (pc_Symbol creq) (cancel_request (pc_OrderId creq) (pc_AccountId creq)) nd"
    using CancelOrder_keeps [OF d k that] by (metis option.distinct(1))
  moreover have "GetBookSnapshot env symb nd \<noteq> None" if "served env symb snapshot_request nd"
    using GetBookSnapshot_keeps [OF d k that] by (metis option.distinct(1))
  moreover have "stream_open env symb nd \<noteq> None" using stream_open_keeps [OF d k] by (metis option.distinct(1))
  moreover have "stop_node nd \<noteq> None" using stop_returns [OF inv] by auto
  ultimately show ?thesis by blast
qed

theorem reachable_node_answers_witness:
  "node_reachable (ev_json town_env) (town_node [], []) \<and> PlaceOrder town_env town_request (town_node []) \<noteq> None \<and>
   stop_node (town_node []) \<noteq> None"
  using reachable_node_answers [OF town_start refl, of town_request] town_served town_start by blast

end
