(* ===== verification/OMS_Book_Types.thy ===== *)
theory OMS_Book_Types
  imports OMS_Book_Props
begin

text \<open>
  The resting orders of a book as one set: their identifiers are distinct, their number is what
  the index counts, and every operation keeps every number of the book in its machine type.
\<close>

section \<open>Resting orders\<close>

abbreviation resting :: "Book \<Rightarrow> Order set" where
  "resting b \<equiv> set (queue b Buy) \<union> set (queue b Sell)"

lemma distinct_map_concat:
  "distinct l \<Longrightarrow> (\<And>p. p \<in> set l \<Longrightarrow> distinct (map f (g p))) \<Longrightarrow>
   (\<And>p q. p \<in> set l \<Longrightarrow> q \<in> set l \<Longrightarrow> p \<noteq> q \<Longrightarrow> f ` set (g p) \<inter> f ` set (g q) = {}) \<Longrightarrow> distinct (map f (concat (map g l)))"
  by (induction l) fastforce+

lemma queue_distinct:
  assumes wf: "wf_book b" and s: "s \<in> {Buy, Sell}"
  shows "distinct (map o_SeqID (queue b s))"
  unfolding queue_def
proof (rule distinct_map_concat)
  show "distinct (ladder b s)" using wf by (auto intro: sorted_better_distinct wf_ladder_sorted [OF _ s] simp: wf_book_def)
  have lv: "\<exists>lvl e. (p, lvl) \<in> set (levels b) \<and> (e, y) \<in> set (pl_orders lvl)" if "y \<in> set (level_orders b p)" for p y
  proof (cases "map_of (levels b) p")
    case (Some lvl)
    then show ?thesis using that wf_level_at(2) [OF wf Some] by (auto simp: level_orders_def intro!: exI [of _ lvl])
  qed (use that in \<open>simp add: level_orders_def\<close>)
  fix p
  assume "p \<in> set (ladder b s)"
  from wf_level_exists [OF wf s this] obtain lvl where l: "map_of (levels b) p = Some lvl" .
  have "inj_on (\<lambda>(e, x). o_SeqID x) (set (pl_orders lvl))"
    using wf_element_unique [OF wf wf_level_at(2) [OF wf l] _ wf_level_at(2) [OF wf l]] by (auto simp: inj_on_def)
  moreover have "distinct (pl_orders lvl)" using wf_level_at(1) [OF wf l] by (auto simp: wf_level_def distinct_map)
  ultimately have "distinct (map (\<lambda>(e, x). o_SeqID x) (pl_orders lvl))" by (simp add: distinct_map)
  then show "distinct (map o_SeqID (level_orders b p))" by (simp add: level_orders_def l comp_def case_prod_unfold)
  fix q
  assume "q \<in> set (ladder b s)" "p \<noteq> q"
  then show "o_SeqID ` set (level_orders b p) \<inter> o_SeqID ` set (level_orders b q) = {}"
    using lv wf_element_unique [OF wf] by blast
qed

lemma opposite_Buy_Sell [simp]: "opposite Buy = Sell" "opposite Sell = Buy"
  by (simp_all add: opposite_def)

lemma resting_side: "s \<in> {Buy, Sell} \<Longrightarrow> resting b = set (queue b s) \<union> set (queue b (opposite s))"
  by (auto simp: opposite_def)

lemma queue_ids_disjoint:
  assumes wf: "wf_book b"
  shows "o_SeqID ` set (queue b Buy) \<inter> o_SeqID ` set (queue b Sell) = {}"
proof (rule ccontr)
  assume "\<not> ?thesis"
  then obtain x y where "x \<in> set (queue b Buy)" "y \<in> set (queue b Sell)" "o_SeqID x = o_SeqID y" by auto
  moreover from this queue_id_unique [OF wf, of x y] have "x = y" by blast
  ultimately show False using queue_wf_resting [OF wf, of Buy x] queue_wf_resting [OF wf, of Sell x] by (simp add: wf_resting_def)
qed

text \<open>The size of the index is the number of resting orders.\<close>

lemma RestingCount_queues:
  assumes wf: "wf_book b"
  shows "RestingCount b = length (queue b Buy) + length (queue b Sell)"
proof -
  have d: "distinct (map o_SeqID (queue b Buy @ queue b Sell))"
    using queue_distinct [OF wf, of Buy] queue_distinct [OF wf, of Sell] queue_ids_disjoint [OF wf] by simp
  have "distinct (map fst (index b))" using wf by (simp add: wf_book_def wf_index_def)
  then have "length (index b) = card (fst ` set (index b))" by (metis distinct_card length_map list.set_map)
  also have "\<dots> = card (set (map o_SeqID (queue b Buy @ queue b Sell)))" by (simp add: index_ids [OF wf] image_Un)
  also have "\<dots> = length (queue b Buy) + length (queue b Sell)" using distinct_card [OF d] by simp
  finally show ?thesis by (simp add: RestingCount_def)
qed

section \<open>Types\<close>

definition typed_order :: "Order \<Rightarrow> bool" where
  "typed_order x \<longleftrightarrow> is_i64 (o_SeqID x) \<and> is_i64 (o_Price x) \<and> is_i64 (o_Quantity x)"

definition typed_trade :: "Trade \<Rightarrow> bool" where
  "typed_trade t \<longleftrightarrow> is_i64 (t_SeqID t) \<and> is_i64 (t_Price t) \<and> is_i64 (t_MakerSeqID t) \<and> is_i64 (t_TakerSeqID t) \<and>
     is_i64 (t_Quantity t) \<and> 0 < t_Quantity t \<and> t_TakerSide t \<in> {Buy, Sell}"

definition typed_book :: "Book \<Rightarrow> bool" where
  "typed_book b \<longleftrightarrow> wf_book b \<and> is_i64 (nextTradeID b) \<and> is_i64 (maxOrderID b) \<and> (\<forall>y \<in> resting b. typed_order y)"

lemma typed_order_shrink: "typed_order x \<Longrightarrow> 0 \<le> q \<Longrightarrow> q \<le> o_Quantity x \<Longrightarrow> typed_order (x\<lparr>o_Quantity := q\<rparr>)"
  by (auto simp: typed_order_def intro: is_i64_nonneg_le)

lemma set_insert_side: "y \<in> set (spec_insert s x ys) \<Longrightarrow> y = x \<or> y \<in> set ys"
  by (auto simp: spec_insert_def dest: set_takeWhileD set_dropWhileD)

lemma spec_match_typed:
  "spec_match now s tid x ms = (ts, ids, x', ms', tid') \<Longrightarrow> s \<in> {Buy, Sell} \<Longrightarrow> is_i64 tid \<Longrightarrow> typed_order x \<Longrightarrow>
   (\<And>m. m \<in> set ms \<Longrightarrow> typed_order m \<and> 0 < o_Quantity m) \<Longrightarrow>
   is_i64 tid' \<and> typed_order x' \<and> (\<forall>m \<in> set ms'. typed_order m) \<and> (\<forall>t \<in> set ts. typed_trade t) \<and> (\<forall>i \<in> set ids. is_i64 i)"
proof (induction rule: spec_match_induct)
  case (stop tid x ms)
  then show ?case by simp
next
  case (self tid x m ms ts ids x' ms' tid')
  have "is_i64 (o_SeqID m)" using self.prems(4) by (simp add: typed_order_def)
  with self show ?case by simp
next
  case (partial tid x m ms)
  have "typed_order m" using partial.prems(4) by simp
  moreover from this have "typed_order (m\<lparr>o_Quantity := o_Quantity m - o_Quantity x\<rparr>)" "typed_order (x\<lparr>o_Quantity := 0\<rparr>)"
    using partial.hyps partial.prems(3) by (auto intro!: typed_order_shrink)
  ultimately show ?case using partial by (simp add: typed_trade_def mk_trade_def typed_order_def)
next
  case (full tid x m ms ts ids x' ms' tid')
  have m: "typed_order m" "0 < o_Quantity m" using full.prems(4) by simp_all
  have "typed_order (x\<lparr>o_Quantity := o_Quantity x - o_Quantity m\<rparr>)"
    using full.hyps(4) full.prems(3) m(2) by (auto intro!: typed_order_shrink)
  moreover have "typed_trade (mk_trade now (add64 tid 1) s x m (o_Price m) (o_Quantity m))"
    using m full.prems(1,3) by (simp add: typed_trade_def mk_trade_def typed_order_def)
  ultimately show ?case using full.IH full.prems(1,4) by simp
qed

lemma SubmitOrder_typed:
  assumes t: "typed_book b" "typed_order x" and so: "SubmitOrder now b x = Some (b', r, e)" and fr: "o_SeqID x \<notin> fst ` set (index b)"
  shows "typed_book b' \<and> (\<forall>t \<in> set (mr_Trades r). typed_trade t) \<and> is_i64 (mr_RestingQuantity r) \<and> (\<forall>i \<in> set (mr_SelfPrevented r). is_i64 i)"
proof (cases e)
  case (Some err)
  then have "b' = b" "r = zero_MatchResult" using so by (auto simp: SubmitOrder_def Let_def split: if_splits bind_splits)
  with t(1) show ?thesis by (simp add: zero_MatchResult_def is_i64_def)
next
  case None
  let ?s = "o_Side x"
  have wf: "wf_book b" and f: "fresh_order b x" using t fr by (simp_all add: typed_book_def typed_order_def fresh_order_def)
  from SubmitOrder_accepted [OF wf f so [unfolded None]] obtain x' where s: "?s \<in> {Buy, Sell}" and wf': "wf_book b'"
    and sm: "spec_match now ?s (nextTradeID b) x (queue b (opposite ?s)) = (mr_Trades r, mr_SelfPrevented r, x', queue b' (opposite ?s), nextTradeID b')"
    and rq: "mr_RestingQuantity r = (if o_Type x = Limit \<and> 0 < o_Quantity x' then o_Quantity x' else 0)"
    and own: "queue b' ?s = (if o_Type x = Limit \<and> 0 < o_Quantity x' then spec_insert ?s x' (queue b ?s) else queue b ?s)"
    and mx: "maxOrderID b' = max (maxOrderID b) (o_SeqID x)" by metis
  have rs: "resting b = set (queue b ?s) \<union> set (queue b (opposite ?s))" "resting b' = set (queue b' ?s) \<union> set (queue b' (opposite ?s))"
    by (rule resting_side [OF s])+
  have ty: "\<And>y. y \<in> set (queue b ?s) \<Longrightarrow> typed_order y" "\<And>m. m \<in> set (queue b (opposite ?s)) \<Longrightarrow> typed_order m \<and> 0 < o_Quantity m" "is_i64 (nextTradeID b)" "is_i64 (maxOrderID b)"
    using t(1) queue_positive [OF wf opposite_side [OF s]] unfolding typed_book_def rs by auto
  note M = spec_match_typed [OF sm s ty(3) t(2) ty(2)]
  have "\<forall>y \<in> resting b'. typed_order y" unfolding rs(2) own using M ty(1) by (auto dest!: set_insert_side)
  moreover have "is_i64 (maxOrderID b')" using ty(4) t(2) unfolding mx by (simp add: typed_order_def max_def)
  moreover have "is_i64 (mr_RestingQuantity r)" unfolding rq using M by (simp add: typed_order_def is_i64_def)
  ultimately show ?thesis using M wf' by (simp add: typed_book_def)
qed

lemma CancelOwned_typed:
  assumes t: "typed_book b" and co: "CancelOwned b i who = Some (b', e)"
  shows "typed_book b'"
proof -
  have wf: "wf_book b" using t by (simp add: typed_book_def)
  from CancelOwned_refines [OF wf, of i who] co have wf': "wf_book b'" and sp: "(abs_book b', e) = spec_cancel (abs_book b) i who" by auto
  have "resting b' \<subseteq> resting b" "nextTradeID b' = nextTradeID b" "maxOrderID b' = maxOrderID b"
    using sp by (auto simp: spec_cancel_def abs_book_def split: option.splits if_splits)
  with t wf' show ?thesis by (auto simp: typed_book_def)
qed

text \<open>C32: The book's operations are total and well typed. On a well-formed book whose numbers are
  all 64-bit integers, submitting any order with 64-bit fields and a new identifier and cancelling any order
  return (no index is out of range, no list element is missing and no price level is absent), and
  leave such a book again; each trade has 64-bit fields, a positive
  quantity and a side, and so have the resting quantity and the cancelled identifiers.\<close>

theorem book_operations_well_typed:
  assumes "typed_book b" "typed_order x" "o_SeqID x \<notin> fst ` set (index b)"
  shows "(\<exists>b' r e. SubmitOrder now b x = Some (b', r, e) \<and> typed_book b' \<and> (\<forall>t \<in> set (mr_Trades r). typed_trade t) \<and>
      is_i64 (mr_RestingQuantity r) \<and> (\<forall>i \<in> set (mr_SelfPrevented r). is_i64 i)) \<and>
    (\<exists>b' e. CancelOwned b i who = Some (b', e) \<and> typed_book b')"
proof
  have wf: "wf_book b" and q: "is_i64 (o_Quantity x)" using assms by (simp_all add: typed_book_def typed_order_def)
  obtain b' r e where "SubmitOrder now b x = Some (b', r, e)" using SubmitOrder_refines [OF wf q assms(3), of now] by blast
  with SubmitOrder_typed [OF assms(1,2) this assms(3)]
  show "\<exists>b' r e. SubmitOrder now b x = Some (b', r, e) \<and> typed_book b' \<and> (\<forall>t \<in> set (mr_Trades r). typed_trade t) \<and>
      is_i64 (mr_RestingQuantity r) \<and> (\<forall>i \<in> set (mr_SelfPrevented r). is_i64 i)" by blast
  obtain b' e where "CancelOwned b i who = Some (b', e)" using CancelOwned_refines [OF wf, of i who] by blast
  with CancelOwned_typed [OF assms(1) this] show "\<exists>b' e. CancelOwned b i who = Some (b', e) \<and> typed_book b'" by blast
qed

lemma demo_book_typed: "typed_book demo_book"
  using demo_book_wf by (simp add: typed_book_def) code_simp

theorem book_operations_well_typed_witness:
  "\<exists>b' r e. SubmitOrder demo_clock demo_book demo_taker = Some (b', r, e) \<and> typed_book b' \<and> length (mr_Trades r) = 2 \<and>
     (\<forall>t \<in> set (mr_Trades r). typed_trade t)"
proof -
  obtain b' r where s: "SubmitOrder demo_clock demo_book demo_taker = Some (b', r, None)" "length (mr_Trades r) = 2"
    by (rule demo_accepted)
  have t: "typed_order demo_taker" by code_simp
  have f: "o_SeqID demo_taker \<notin> fst ` set (index demo_book)" using demo_taker_fresh by (simp add: fresh_order_def)
  show ?thesis using book_operations_well_typed [OF demo_book_typed t f, of demo_clock] s by auto
qed

end
