(* ===== verification/OMS_Funds.thy ===== *)
theory OMS_Funds
  imports OMS_System OMS_Book_Types
begin

text \<open>
  The order book and the account store together: the reservations of a symbol are exactly those
  of its unfilled orders, and with them no trade can overdraw an account. MARKET BUY orders,
  which the pre-trade check cannot bound, are left out throughout.
\<close>

section \<open>Reservations of a set of orders\<close>

definition tracks :: "string \<Rightarrow> Order set \<Rightarrow> Accounts \<Rightarrow> bool" where
  "tracks symb X a \<longleftrightarrow> inj_on o_SeqID X \<and>
     (\<forall>x \<in> X. map_of (holds a) (symb, o_SeqID x) = (if 0 < o_Quantity x then Some (restored_hold symb x) else None)) \<and>
     (\<forall>i. i \<notin> o_SeqID ` X \<longrightarrow> map_of (holds a) (symb, i) = None)"

text \<open>An order whose cost the check can bound.\<close>

definition bounded_order :: "string \<Rightarrow> Order \<Rightarrow> bool" where
  "bounded_order symb x \<longleftrightarrow> o_Symbol x = symb \<and> 0 \<le> o_Price x \<and> is_i64 (o_Price x) \<and> is_i64 (o_Quantity x) \<and>
     (o_Side x = Buy \<and> o_Type x = Limit \<or> o_Side x = Sell)"

text \<open>A change for one symbol: other reservations stay, and nothing is created or lost.\<close>

definition conserves :: "string \<Rightarrow> Accounts \<Rightarrow> Accounts \<Rightarrow> bool" where
  "conserves symb a a' \<longleftrightarrow> (\<forall>k. fst k \<noteq> symb \<longrightarrow> map_of (holds a') k = map_of (holds a) k) \<and>
     total_cash a' = total_cash a \<and> (\<forall>y. total_shares y a' = total_shares y a)"

lemma conserves_refl [simp]: "conserves symb a a"
  by (simp add: conserves_def)

lemma conserves_trans: "conserves symb a b \<Longrightarrow> conserves symb b c \<Longrightarrow> conserves symb a c"
  by (simp add: conserves_def)

lemma solvent_totals:
  assumes "solvent a"
  shows "is_i64 (total_cash a)" "is_i64 (total_shares y a)"
proof -
  have "0 \<le> total_cash a" "0 \<le> total_shares y a"
    unfolding total_cash_def total_shares_def using solvent_entries [OF assms] by (auto intro!: msum_nonneg)
  moreover have "total_cash a \<le> max_i64" "total_shares y a \<le> max_i64" using assms by (simp_all add: solvent_def)
  ultimately show "is_i64 (total_cash a)" "is_i64 (total_shares y a)" by (simp_all add: is_i64_def max_i64_def)
qed

lemma solvent_reserved:
  assumes "solvent a"
  shows "ReservedCash a who = held_cash a who" "ReservedPosition a who symb = held_shares a who symb"
proof -
  have w: "wf_accounts a" "held_cash a who \<le> gget0 (cash a) who" "held_shares a who symb \<le> gget2 (positions a) who symb"
    using assms by (auto simp: solvent_def)
  note b = solvent_bounds(1,2) [OF assms, of who] held_nonneg [OF w(1), of who]
  have "is_i64 (held_cash a who)" "is_i64 (held_shares a who symb)"
    using b(1,3) b(2,4) [of symb] w(2,3) by (auto simp: is_i64_def max_i64_def)
  then show "ReservedCash a who = held_cash a who" "ReservedPosition a who symb = held_shares a who symb"
    using wf_accountsD(3,4) [OF w(1)] by (simp_all add: ReservedCash_def ReservedPosition_def)
qed

lemma totals_exact:
  assumes "solvent a" "solvent a'" "i64 (total_cash a') = i64 (total_cash a)" "\<And>y. i64 (total_shares y a') = i64 (total_shares y a)"
  shows "total_cash a' = total_cash a" "total_shares y a' = total_shares y a"
  using assms(3) assms(4) [of y] solvent_totals [OF assms(1)] solvent_totals [OF assms(2)] by simp_all

lemma tracks_elsewhere: "conserves symb a a' \<Longrightarrow> y \<noteq> symb \<Longrightarrow> tracks y X a' = tracks y X a"
  by (simp add: tracks_def conserves_def)

lemma tracks_update:
  assumes t: "tracks symb X a" and x: "x \<in> X" "o_SeqID x' = o_SeqID x"
    and h: "map_of (holds a') = (map_of (holds a))((symb, o_SeqID x) := (if 0 < o_Quantity x' then Some (restored_hold symb x') else None))"
  shows "tracks symb (insert x' (X - {x})) a'"
proof -
  have inj: "inj_on o_SeqID X" using t by (simp add: tracks_def)
  have ne: "o_SeqID y \<noteq> o_SeqID x" if "y \<in> X - {x}" for y using inj x(1) that by (auto dest: inj_onD)
  have "inj_on o_SeqID (insert x' (X - {x}))" using inj ne x by (auto simp: inj_on_def)
  moreover have "o_SeqID ` insert x' (X - {x}) = o_SeqID ` X" using x by (auto simp: image_iff)
  ultimately show ?thesis using t x(2) ne unfolding tracks_def h by auto
qed

lemma tracks_forget:
  assumes "tracks symb X a" "x \<in> X" "\<not> 0 < o_Quantity x"
  shows "tracks symb (X - {x}) a"
proof -
  have "map_of (holds a) (symb, i) = None" if "i \<notin> o_SeqID ` (X - {x})" for i
    using assms that unfolding tracks_def by (cases "i = o_SeqID x") auto
  with assms show ?thesis by (auto simp: tracks_def inj_on_def)
qed

section \<open>The contract of the store\<close>

text \<open>
  What the sequencer relies on when it reserves for the orders of a batch and releases what the
  book did not keep: each call changes the reservation of one order and nothing an account owns.
\<close>

locale reservation_store =
  fixes reserve :: "Order \<Rightarrow> 's \<Rightarrow> 's \<times> Err option"
    and free :: "holdKey \<Rightarrow> 's \<Rightarrow> 's"
    and sound :: "'s \<Rightarrow> bool"
    and held :: "'s \<Rightarrow> holdKey \<Rightarrow> hold option"
    and wealth :: "'s \<Rightarrow> 'w"
  assumes reserve_law: "sound a \<Longrightarrow> bounded_order symb x \<Longrightarrow> is_i64 (o_SeqID x) \<Longrightarrow> reserve x a = (a', None) \<Longrightarrow>
      sound a' \<and> held a' = (held a)((symb, o_SeqID x) \<mapsto> restored_hold symb x) \<and> wealth a' = wealth a \<and>
      held a (symb, o_SeqID x) = None \<and> 0 < o_Quantity x"
    and reserve_refused: "reserve x a = (a', Some e) \<Longrightarrow> a' = a"
    and free_law: "sound a \<Longrightarrow> sound (free k a) \<and> held (free k a) = (held a)(k := None) \<and> wealth (free k a) = wealth a"
begin

lemma free_all:
  "sound a \<Longrightarrow> sound (fold free ks a) \<and> held (fold free ks a) = (\<lambda>k. if k \<in> set ks then None else held a k) \<and> wealth (fold free ks a) = wealth a"
proof (induction ks arbitrary: a)
  case (Cons k ks)
  have f: "sound (free k a)" "held (free k a) = (held a)(k := None)" "wealth (free k a) = wealth a" using free_law [OF Cons.prems] by simp_all
  from Cons.IH [OF f(1)] f(2,3) show ?case by (auto simp: fun_eq_iff)
qed simp

text \<open>Releasing takes a reservation back.\<close>

lemma free_reserved:
  assumes "sound a" "bounded_order symb x" "is_i64 (o_SeqID x)" "reserve x a = (a', None)"
  shows "held (free (symb, o_SeqID x) a') = held a" "wealth (free (symb, o_SeqID x) a') = wealth a"
  using reserve_law [OF assms] free_law [of a' "(symb, o_SeqID x)"] by (auto simp: fun_upd_idem)

end

definition wealth_of :: "Accounts \<Rightarrow> int \<times> (string \<Rightarrow> int)" where
  "wealth_of a = (total_cash a, \<lambda>y. total_shares y a)"

lemma wealth_cong: "cash a' = cash a \<Longrightarrow> positions a' = positions a \<Longrightarrow> wealth_of a' = wealth_of a"
  using total_cong [of a' a] by (simp add: wealth_of_def)

interpretation store: reservation_store Reserve releaseLocked solvent "\<lambda>a. map_of (holds a)" wealth_of
proof unfold_locales
  fix a a' :: Accounts and x :: Order and symb
  assume s: "solvent a" and x: "bounded_order symb x" "is_i64 (o_SeqID x)" and r: "Reserve x a = (a', None)"
  have w: "wf_accounts a" and i: "i64_order x" using s x by (simp_all add: solvent_def i64_order_def bounded_order_def)
  note R = Reserve_ok [OF w i r]
  have e: "o_Symbol x = symb" "asked_hold x = restored_hold symb x" using x(1) by (auto simp: bounded_order_def asked_hold_def restored_hold_def)
  have "0 < o_Quantity x" using R(7) by (simp add: wf_hold_def e(2) restored_hold_def hold_for_def)
  then show "solvent a' \<and> map_of (holds a') = (map_of (holds a))((symb, o_SeqID x) \<mapsto> restored_hold symb x) \<and> wealth_of a' = wealth_of a \<and>
      map_of (holds a) (symb, o_SeqID x) = None \<and> 0 < o_Quantity x"
    using Reserve_solvent [OF s i r] R(2,4) wealth_cong [OF R(5,6)] by (simp add: e)
next
  fix a :: Accounts and k
  assume s: "solvent a"
  have w: "wf_accounts a" using s by (simp add: solvent_def)
  have "map_of (holds (releaseLocked k a)) = (map_of (holds a))(k := None)"
    using releaseLocked_spec [OF w, of k] by (cases "map_of (holds a) k") (simp_all add: fun_upd_idem shrunk_to_def)
  then show "solvent (releaseLocked k a) \<and> map_of (holds (releaseLocked k a)) = (map_of (holds a))(k := None) \<and> wealth_of (releaseLocked k a) = wealth_of a"
    using releaseLocked_solvent [OF s] releaseLocked_balances [OF w, of k] wealth_cong by blast
qed (rule Reserve_rejected)

lemma conserves_wealth:
  "(\<And>k. fst k \<noteq> symb \<Longrightarrow> map_of (holds a') k = map_of (holds a) k) \<Longrightarrow> wealth_of a' = wealth_of a \<Longrightarrow> conserves symb a a'"
  by (simp add: conserves_def wealth_of_def fun_eq_iff)

lemma tracks_reserve:
  assumes s: "solvent a" and t: "tracks symb X a" and x: "bounded_order symb x" "is_i64 (o_SeqID x)" "o_SeqID x \<notin> o_SeqID ` X"
    and r: "Reserve x a = (a', None)"
  shows "tracks symb (insert x X) a'" "solvent a'" "conserves symb a a'" "0 < o_Quantity x"
proof -
  have R: "solvent a'" "map_of (holds a') = (map_of (holds a))((symb, o_SeqID x) \<mapsto> restored_hold symb x)" "wealth_of a' = wealth_of a" "0 < o_Quantity x"
    using store.reserve_law [OF s x(1,2) r] by simp_all
  then show "solvent a'" "0 < o_Quantity x" by simp_all
  have new: "o_SeqID y \<noteq> o_SeqID x" if "y \<in> X" for y using x(3) that by (metis image_eqI)
  have "inj_on o_SeqID (insert x X)" using t x(3) unfolding tracks_def inj_on_insert by blast
  then show "tracks symb (insert x X) a'" using t new R(4) unfolding tracks_def R(2) by simp
  show "conserves symb a a'" by (rule conserves_wealth) (use R(2,3) in auto)
qed

text \<open>Releasing the orders of a list, whatever else is reserved.\<close>

lemma release_many:
  assumes "solvent a" "tracks symb (set ps \<union> R) a" "o_SeqID ` R \<inter> o_SeqID ` set ps = {}"
  defines "a' \<equiv> fold releaseLocked (map (Pair symb) (map o_SeqID ps)) a"
  shows "solvent a'" "tracks symb R a'" "conserves symb a a'"
proof -
  have F: "solvent a'" "wealth_of a' = wealth_of a"
    "map_of (holds a') = (\<lambda>k. if k \<in> set (map (Pair symb) (map o_SeqID ps)) then None else map_of (holds a) k)"
    using store.free_all [OF assms(1)] unfolding a'_def by blast+
  show "solvent a'" by (rule F(1))
  show "conserves symb a a'" by (rule conserves_wealth) (use F(2,3) in auto)
  have h: "map_of (holds a') (symb, i) = (if i \<in> o_SeqID ` set ps then None else map_of (holds a) (symb, i))" for i
    unfolding F(3) by auto
  have T: "inj_on o_SeqID (set ps \<union> R)" "\<And>x. x \<in> R \<Longrightarrow> map_of (holds a) (symb, o_SeqID x) = (if 0 < o_Quantity x then Some (restored_hold symb x) else None)"
    "\<And>i. i \<notin> o_SeqID ` (set ps \<union> R) \<Longrightarrow> map_of (holds a) (symb, i) = None" using assms(2) by (simp_all add: tracks_def)
  have "inj_on o_SeqID R" using T(1) by (rule inj_on_subset) simp
  moreover have "o_SeqID x \<notin> o_SeqID ` set ps" if "x \<in> R" for x using assms(3) that by blast
  moreover have "i \<notin> o_SeqID ` set ps \<Longrightarrow> i \<notin> o_SeqID ` R \<Longrightarrow> map_of (holds a) (symb, i) = None" for i using T(3) [of i] by (simp add: image_Un)
  ultimately show "tracks symb R a'" using T(2) unfolding tracks_def h by simp
qed

lemma tracks_release:
  assumes s: "solvent a" and t: "tracks symb X a" and x: "x \<in> X"
  shows "tracks symb (X - {x}) (releaseLocked (symb, o_SeqID x) a)" "solvent (releaseLocked (symb, o_SeqID x) a)"
    "conserves symb a (releaseLocked (symb, o_SeqID x) a)"
proof -
  have X: "set [x] \<union> (X - {x}) = X" using x by auto
  have "o_SeqID ` (X - {x}) \<inter> o_SeqID ` set [x] = {}" using t x unfolding tracks_def by (auto dest: inj_onD)
  from release_many [OF s _ this] t X
  show "tracks symb (X - {x}) (releaseLocked (symb, o_SeqID x) a)" "solvent (releaseLocked (symb, o_SeqID x) a)"
    "conserves symb a (releaseLocked (symb, o_SeqID x) a)" by simp_all
qed

section \<open>One trade\<close>

lemma tracks_trade:
  fixes now :: "SeqID \<Rightarrow> Time" and tid :: SeqID
  assumes s: "solvent a" and t: "tracks symb X a" and x: "x \<in> X" "m \<in> X" "o_SeqID x \<noteq> o_SeqID m"
    and q: "0 < q" "q \<le> o_Quantity x" "q \<le> o_Quantity m" and o: "bounded_order symb x" "bounded_order symb m"
    and sd: "o_Side m = opposite (o_Side x)" "o_Type m = Limit" "acceptable (o_Side x) x (o_Price m)"
  defines "tr \<equiv> mk_trade now tid (o_Side x) x m (o_Price m) q"
  shows "solvent (complete_trade symb tr a)" "conserves symb a (complete_trade symb tr a)"
    "tracks symb (insert (x\<lparr>o_Quantity := o_Quantity x - q\<rparr>) (insert (m\<lparr>o_Quantity := o_Quantity m - q\<rparr>) (X - {x, m}))) (complete_trade symb tr a)"
proof -
  have tr: "t_MakerSeqID tr = o_SeqID m" "t_TakerSeqID tr = o_SeqID x" "t_Quantity tr = q" "t_Price tr = o_Price m" "t_TakerSide tr = o_Side x"
    "t_Symbol tr = symb" using o(1) by (simp_all add: tr_def mk_trade_def bounded_order_def)
  let ?hm = "restored_hold symb m" and ?hx = "restored_hold symb x"
  have h: "map_of (holds a) (symb, o_SeqID m) = Some ?hm" "map_of (holds a) (symb, o_SeqID x) = Some ?hx"
    using t x q unfolding tracks_def by auto
  have c: "covers symb tr (if o_Side x = Buy then ?hx else ?hm) (if o_Side x = Buy then ?hm else ?hx)"
    using o sd q by (auto simp: covers_def tr bounded_order_def restored_hold_def hold_for_def Buyer_def Seller_def tr_def mk_trade_def acceptable_def
        better_def split: if_splits)
  show s': "solvent (complete_trade symb tr a)"
    by (rule complete_trade_solvent [OF s, where hm = ?hm and ht = ?hx]) (use h c x(3) in \<open>simp_all add: tr\<close>)
  have w: "wf_accounts a" using s by (simp add: solvent_def)
  have hc: "map_of (holds a) (symb, if o_Side x = Buy then o_SeqID x else o_SeqID m) = Some (if o_Side x = Buy then ?hx else ?hm)"
    "map_of (holds a) (symb, if o_Side x = Buy then o_SeqID m else o_SeqID x) = Some (if o_Side x = Buy then ?hm else ?hx)" using h by simp_all
  have n: "notional (t_Price tr) (t_Quantity tr) = Inr (t_Price tr * t_Quantity tr)" by (rule covers_value(1) [OF s c hc]) simp
  have hq: "h_qty ?hm = o_Quantity m" "h_qty ?hx = o_Quantity x" by (simp_all add: restored_hold_def hold_for_def)
  obtain a2 where sh: "shrunk_to (symb, o_SeqID m) ?hm q (move_value tr (t_Price tr * t_Quantity tr) a) a2"
    "shrunk_to (symb, o_SeqID x) ?hx q a2 (complete_trade symb tr a)"
    using complete_trade_holds(1) [OF w n, of symb ?hm ?hx] h q x(3) unfolding tr hq by auto
  have left: "(if q = h_qty (restored_hold symb y) then None else Some ((restored_hold symb y)\<lparr>h_qty := h_qty (restored_hold symb y) - q\<rparr>)) =
      (if 0 < o_Quantity y - q then Some (restored_hold symb (y\<lparr>o_Quantity := o_Quantity y - q\<rparr>)) else None)" if "q \<le> o_Quantity y" for y
    using that by (auto simp: restored_hold_def hold_for_def)
  have m2: "map_of (holds a2) = (map_of (holds a))((symb, o_SeqID m) := (if 0 < o_Quantity m - q
      then Some (restored_hold symb (m\<lparr>o_Quantity := o_Quantity m - q\<rparr>)) else None))"
    using sh(1) unfolding shrunk_to_def left [OF q(3)] by simp
  have x2: "map_of (holds (complete_trade symb tr a)) = (map_of (holds a2))((symb, o_SeqID x) := (if 0 < o_Quantity x - q
      then Some (restored_hold symb (x\<lparr>o_Quantity := o_Quantity x - q\<rparr>)) else None))"
    using sh(2) unfolding shrunk_to_def left [OF q(2)] by simp
  show "conserves symb a (complete_trade symb tr a)"
    using totals_exact [OF s s'] complete_trade_totals [OF w, of symb tr] by (auto simp: conserves_def m2 x2)
  let ?m = "m\<lparr>o_Quantity := o_Quantity m - q\<rparr>" and ?x = "x\<lparr>o_Quantity := o_Quantity x - q\<rparr>"
  have 1: "tracks symb (insert ?m (X - {m})) a2" by (rule tracks_update [OF t x(2)]) (simp_all add: m2)
  have 2: "tracks symb (insert ?x (insert ?m (X - {m}) - {x})) (complete_trade symb tr a)"
    by (rule tracks_update [OF 1]) (use x in \<open>auto simp: x2\<close>)
  have "insert ?m (X - {m}) - {x} = insert ?m (X - {x, m})" using x(3) by auto
  with 2 show "tracks symb (insert ?x (insert ?m (X - {x, m}))) (complete_trade symb tr a)" by simp
qed

section \<open>A whole match\<close>

lemma bounded_order_shrink: "bounded_order symb y \<Longrightarrow> 0 \<le> q \<Longrightarrow> q \<le> o_Quantity y \<Longrightarrow> bounded_order symb (y\<lparr>o_Quantity := q\<rparr>)"
  by (auto simp: bounded_order_def intro: is_i64_nonneg_le)

lemma remove_by_id: "o_SeqID y \<notin> o_SeqID ` S \<Longrightarrow> insert y S - {y} = S"
  by auto

text \<open>
  The makers of a match and the orders beside it. A self-prevented maker leaves the book with its
  reservation still in place: the caller releases those by identifier.
\<close>

definition matchable :: "string \<Rightarrow> OrderSide \<Rightarrow> Order \<Rightarrow> Order list \<Rightarrow> Order set \<Rightarrow> bool" where
  "matchable symb s x ms R \<longleftrightarrow> s \<in> {Buy, Sell} \<and> o_Side x = s \<and> bounded_order symb x \<and>
     (\<forall>m \<in> set ms. bounded_order symb m \<and> o_Type m = Limit \<and> o_Side m = opposite s \<and> 0 < o_Quantity m) \<and>
     distinct (map o_SeqID (x # ms)) \<and> o_SeqID ` R \<inter> o_SeqID ` set (x # ms) = {}"

lemma matchable_Cons:
  assumes "matchable symb s x (m # ms) R"
  shows "matchable symb s x ms (insert m R)" "matchable symb s x ms R"
    "o_SeqID x \<notin> o_SeqID ` (set ms \<union> R)" "o_SeqID m \<notin> o_SeqID ` (set ms \<union> R)" "o_SeqID x \<noteq> o_SeqID m"
    "bounded_order symb m" "o_Type m = Limit" "o_Side m = opposite s" "0 < o_Quantity m" "bounded_order symb x" "o_Side x = s"
  using assms by (auto simp: matchable_def image_Un)

lemma matchable_shrink: "matchable symb s x ms R \<Longrightarrow> 0 \<le> q \<Longrightarrow> q \<le> o_Quantity x \<Longrightarrow> matchable symb s (x\<lparr>o_Quantity := q\<rparr>) ms R"
  by (simp add: matchable_def bounded_order_shrink)

lemma match_fill:
  fixes now :: "SeqID \<Rightarrow> Time" and tid :: SeqID
  assumes s: "solvent a" and t: "tracks symb (insert x (insert m (set ms \<union> R))) a" and m: "matchable symb s x (m # ms) R"
    and q: "0 < q" "q \<le> o_Quantity x" "q \<le> o_Quantity m" and acc: "acceptable s x (o_Price m)"
  defines "a' \<equiv> complete_trade symb (mk_trade now tid s x m (o_Price m) q) a"
  shows "solvent a'" "conserves symb a a'"
    "tracks symb (insert (x\<lparr>o_Quantity := o_Quantity x - q\<rparr>) (insert (m\<lparr>o_Quantity := o_Quantity m - q\<rparr>) (set ms \<union> R))) a'"
proof -
  note M = matchable_Cons [OF m]
  let ?X = "insert x (insert m (set ms \<union> R))"
  have X: "x \<in> ?X" "m \<in> ?X" by simp_all
  have sd: "o_Side m = opposite (o_Side x)" "acceptable (o_Side x) x (o_Price m)" using M acc by simp_all
  note T = tracks_trade [OF s t X M(5) q M(10) M(6) sd(1) M(7) sd(2), of now tid, unfolded M(11)]
  show "solvent a'" "conserves symb a a'" using T by (simp_all add: a'_def)
  have "?X - {x, m} = set ms \<union> R" using M(3,4) by auto
  then show "tracks symb (insert (x\<lparr>o_Quantity := o_Quantity x - q\<rparr>) (insert (m\<lparr>o_Quantity := o_Quantity m - q\<rparr>) (set ms \<union> R))) a'"
    using T(3) by (simp add: a'_def)
qed

lemma match_fill_whole:
  fixes now :: "SeqID \<Rightarrow> Time" and tid :: SeqID
  assumes s: "solvent a" and t: "tracks symb (insert x (insert m (set ms \<union> R))) a" and m: "matchable symb s x (m # ms) R"
    and q: "o_Quantity m \<le> o_Quantity x" and acc: "acceptable s x (o_Price m)"
  defines "a' \<equiv> complete_trade symb (mk_trade now tid s x m (o_Price m) (o_Quantity m)) a"
  shows "tracks symb (insert (x\<lparr>o_Quantity := o_Quantity x - o_Quantity m\<rparr>) (set ms \<union> R)) a'"
proof -
  note M = matchable_Cons [OF m]
  let ?x = "x\<lparr>o_Quantity := o_Quantity x - o_Quantity m\<rparr>" and ?m = "m\<lparr>o_Quantity := 0\<rparr>"
  have "tracks symb (insert ?x (insert ?m (set ms \<union> R))) a'"
    using match_fill(3) [OF s t m M(9) q order.refl acc, of now tid] by (simp add: a'_def)
  then have "tracks symb (insert ?m (insert ?x (set ms \<union> R))) a'" by (simp add: insert_commute)
  from tracks_forget [OF this, of ?m] have "tracks symb (insert ?m (insert ?x (set ms \<union> R)) - {?m}) a'" by simp
  then show ?thesis using M(4,5) by (subst (asm) remove_by_id) auto
qed

text \<open>What the trades of a match leave: the reservations of the taker's rest, the makers left and those prevented.\<close>

definition funds_after ::
  "string \<Rightarrow> Accounts \<Rightarrow> Order \<Rightarrow> Order list \<Rightarrow> Order list \<Rightarrow> Order set \<Rightarrow> Accounts \<Rightarrow> bool" where
  "funds_after symb a x' ms' ps R a' \<longleftrightarrow> solvent a' \<and> conserves symb a a' \<and> tracks symb (insert x' (set ms' \<union> set ps \<union> R)) a' \<and>
     distinct (map o_SeqID (x' # ms' @ ps)) \<and> o_SeqID ` R \<inter> o_SeqID ` set (x' # ms' @ ps) = {} \<and>
     bounded_order symb x' \<and> (\<forall>m \<in> set ms'. bounded_order symb m)"

lemma funds_after_step: "funds_after symb a1 x' ms' ps R a' \<Longrightarrow> conserves symb a a1 \<Longrightarrow> funds_after symb a x' ms' ps R a'"
  by (auto simp: funds_after_def elim: conserves_trans)

lemma funds_after_prevent:
  "funds_after symb a x' ms' ps (insert m R) a' \<Longrightarrow> o_SeqID m \<notin> o_SeqID ` R \<Longrightarrow> funds_after symb a x' ms' (m # ps) R a'"
  by (auto simp: funds_after_def insert_commute)

lemma spec_match_funds:
  assumes "spec_match now s tid x ms = (ts, ids, x', ms', tid')"
    and "solvent a" "tracks symb (insert x (set ms \<union> R)) a" "matchable symb s x ms R"
  shows "\<exists>ps. map o_SeqID ps = ids \<and> funds_after symb a x' ms' ps R (fold (complete_trade symb) ts a)"
  using assms
proof (induction arbitrary: a R rule: spec_match_induct)
  case (stop tid x ms)
  have "funds_after symb a x ms [] R a"
    unfolding funds_after_def using stop.prems by (auto simp: matchable_def)
  then show ?case by (intro exI [of _ "[]"]) simp
next
  case (self tid x m ms ts ids x' ms' tid')
  note M = matchable_Cons [OF self.prems(3)]
  have "tracks symb (insert x (set ms \<union> insert m R)) a" using self.prems(2) by (simp add: insert_commute)
  from self.IH [OF self.prems(1) this M(1)] obtain ps
    where ps: "map o_SeqID ps = ids" "funds_after symb a x' ms' ps (insert m R) (fold (complete_trade symb) ts a)" by blast
  have "funds_after symb a x' ms' (m # ps) R (fold (complete_trade symb) ts a)"
    by (rule funds_after_prevent [OF ps(2)]) (use M(4) in auto)
  then show ?case using ps(1) by (intro exI [of _ "m # ps"]) simp
next
  case (partial tid x m ms)
  note M = matchable_Cons [OF partial.prems(3)]
  have t: "tracks symb (insert x (insert m (set ms \<union> R))) a" using partial.prems(2) by simp
  have q: "o_Quantity x \<le> o_Quantity m" using partial.hyps by simp
  note F = match_fill [OF partial.prems(1) t partial.prems(3) partial.hyps(1) order.refl q partial.hyps(2), of now "add64 tid 1"]
  have b: "bounded_order symb (x\<lparr>o_Quantity := 0\<rparr>)" "bounded_order symb (m\<lparr>o_Quantity := o_Quantity m - o_Quantity x\<rparr>)"
    using M(6,10) partial.hyps by (simp_all add: bounded_order_shrink)
  have "funds_after symb a (x\<lparr>o_Quantity := 0\<rparr>) (m\<lparr>o_Quantity := o_Quantity m - o_Quantity x\<rparr> # ms) [] R
      (complete_trade symb (mk_trade now (add64 tid 1) s x m (o_Price m) (o_Quantity x)) a)"
    unfolding funds_after_def using F b partial.prems(3) by (auto simp: matchable_def)
  then show ?case by (intro exI [of _ "[]"]) simp
next
  case (full tid x m ms ts ids x' ms' tid')
  note M = matchable_Cons [OF full.prems(3)]
  have t: "tracks symb (insert x (insert m (set ms \<union> R))) a" using full.prems(2) by simp
  note F = match_fill [OF full.prems(1) t full.prems(3) M(9) full.hyps(4) order.refl full.hyps(2), of now "add64 tid 1"]
  note W = match_fill_whole [OF full.prems(1) t full.prems(3) full.hyps(4) full.hyps(2), of now "add64 tid 1"]
  have "matchable symb s (x\<lparr>o_Quantity := o_Quantity x - o_Quantity m\<rparr>) ms R"
    by (rule matchable_shrink [OF M(2)]) (use full.hyps(4) M(9) in simp_all)
  from full.IH [OF F(1) W this] obtain ps where ps: "map o_SeqID ps = ids"
    "funds_after symb (complete_trade symb (mk_trade now (add64 tid 1) s x m (o_Price m) (o_Quantity m)) a) x' ms' ps R
      (fold (complete_trade symb) ts (complete_trade symb (mk_trade now (add64 tid 1) s x m (o_Price m) (o_Quantity m)) a))" by blast
  from funds_after_step [OF ps(2) F(2)] show ?case using ps(1) by (intro exI [of _ ps]) simp
qed

section \<open>A book whose resting orders are reserved\<close>

lemma disjoint_below: "A \<subseteq> insert i B \<Longrightarrow> i \<notin> P \<Longrightarrow> P \<inter> B = {} \<Longrightarrow> P \<inter> A = {}"
  by blast

lemma image_chain: "f ` A \<subseteq> f ` (B \<union> P) \<Longrightarrow> f ` B \<subseteq> f ` (C \<union> Q) \<Longrightarrow> f ` A \<subseteq> f ` (C \<union> (Q \<union> P))"
  by blast

text \<open>
  The orders with a reservation are those that rest and those, of the batch being committed, that
  have been reserved but not yet submitted to the book.
\<close>

definition funded :: "string \<Rightarrow> Book \<Rightarrow> Order list \<Rightarrow> Accounts \<Rightarrow> bool" where
  "funded symb b pend a \<longleftrightarrow> wf_book b \<and> solvent a \<and> tracks symb (resting b \<union> set pend) a \<and>
     (\<forall>y \<in> resting b \<union> set pend. bounded_order symb y) \<and>
     distinct (map o_SeqID pend) \<and> o_SeqID ` set pend \<inter> o_SeqID ` resting b = {}"

lemma funded_matchable:
  assumes f: "funded symb b (x # pend) a" and s: "o_Side x \<in> {Buy, Sell}"
  shows "matchable symb (o_Side x) x (queue b (opposite (o_Side x))) (set (queue b (o_Side x)) \<union> set pend)"
    "tracks symb (insert x (set (queue b (opposite (o_Side x))) \<union> (set (queue b (o_Side x)) \<union> set pend))) a"
proof -
  have wf: "wf_book b" using f by (simp add: funded_def)
  have op: "opposite (o_Side x) \<in> {Buy, Sell}" using s by auto
  have dis: "o_SeqID ` set (queue b (o_Side x)) \<inter> o_SeqID ` set (queue b (opposite (o_Side x))) = {}"
    using queue_ids_disjoint [OF wf] s by (cases "o_Side x") (simp_all add: Int_commute)
  have r: "resting b = set (queue b (o_Side x)) \<union> set (queue b (opposite (o_Side x)))" by (rule resting_side [OF s])
  have m: "bounded_order symb m \<and> o_Type m = Limit \<and> o_Side m = opposite (o_Side x) \<and> 0 < o_Quantity m"
    if "m \<in> set (queue b (opposite (o_Side x)))" for m
    using queue_wf_resting [OF wf op that] f that unfolding funded_def r by (simp add: wf_resting_def)
  have F: "bounded_order symb x" "distinct (map o_SeqID (x # pend))" "o_SeqID ` set (x # pend) \<inter> o_SeqID ` resting b = {}"
    "tracks symb (resting b \<union> set (x # pend)) a" using f unfolding funded_def by simp_all
  show "matchable symb (o_Side x) x (queue b (opposite (o_Side x))) (set (queue b (o_Side x)) \<union> set pend)"
    unfolding matchable_def using s m F(1,2) F(3) [unfolded r] dis queue_distinct [OF wf op] by auto
  show "tracks symb (insert x (set (queue b (opposite (o_Side x))) \<union> (set (queue b (o_Side x)) \<union> set pend))) a"
    using F(4) unfolding r by (simp add: Un_ac)
qed

lemma Complete_funds:
  assumes sm: "spec_match now s tid x ms = (ts, ids, x', ms', tid')"
    and a: "solvent a" "tracks symb (insert x (set ms \<union> R)) a" "matchable symb s x ms R"
    and rq: "rest = (if o_Type x' = Limit \<and> 0 < o_Quantity x' then o_Quantity x' else 0)"
  defines "a' \<equiv> Complete symb (o_SeqID x) ts rest ids a"
  shows "solvent a'" "conserves symb a a'"
    "tracks symb (if 0 < rest then insert x' (set ms' \<union> R) else set ms' \<union> R) a'"
    "bounded_order symb x'" "\<forall>m \<in> set ms'. bounded_order symb m"
proof -
  obtain ps where ps: "map o_SeqID ps = ids" "funds_after symb a x' ms' ps R (fold (complete_trade symb) ts a)"
    using spec_match_funds [OF sm a] by blast
  let ?a1 = "fold (complete_trade symb) ts a" and ?Q = "insert x' (set ms' \<union> R)"
  let ?a2 = "fold (\<lambda>i. releaseLocked (symb, i)) (map o_SeqID ps) ?a1"
  have F: "solvent ?a1" "conserves symb a ?a1" "tracks symb (insert x' (set ms' \<union> set ps \<union> R)) ?a1"
    "distinct (map o_SeqID (x' # ms' @ ps))" "o_SeqID ` R \<inter> o_SeqID ` set (x' # ms' @ ps) = {}"
    using ps(2) unfolding funds_after_def by simp_all
  show "bounded_order symb x'" "\<forall>m \<in> set ms'. bounded_order symb m" using ps(2) unfolding funds_after_def by simp_all
  have t: "tracks symb (set ps \<union> ?Q) ?a1" using F(3) by (simp add: Un_ac)
  have "o_SeqID ` ?Q \<inter> o_SeqID ` set ps = {}" using F(4,5) by (auto simp: image_Un)
  from release_many [OF F(1) t this] have R: "solvent ?a2" "tracks symb ?Q ?a2" "conserves symb ?a1 ?a2"
    by (simp_all add: fold_map comp_def)
  have i: "o_SeqID x' = o_SeqID x" by (subst spec_match_taker [OF sm, symmetric]) simp
  have c: "a' = (if rest \<le> 0 then releaseLocked (symb, o_SeqID x') ?a2 else ?a2)"
    unfolding a'_def Complete_def Let_def ps(1) [symmetric] i ..
  note L = tracks_release [OF R(1,2), of x', simplified]
  have Q: "?Q - {x'} = set ms' \<union> R" by (rule remove_by_id) (use F(4,5) in \<open>auto simp: image_Un\<close>)
  then have L1: "tracks symb (set ms' \<union> R) (releaseLocked (symb, o_SeqID x') ?a2)" using L(1) by simp
  show "solvent a'" "conserves symb a a'" using R L(2,3) F(2) unfolding c by (auto elim: conserves_trans)
  show "tracks symb (if 0 < rest then insert x' (set ms' \<union> R) else set ms' \<union> R) a'" unfolding c using R(2) L1 by simp
qed

text \<open>Submitting the next pending order, and settling or releasing its reservation.\<close>

lemma submit_funds:
  assumes f: "funded symb b (x # pend) a" and so: "SubmitOrder now b x = Some (b', mr, e)" and k: "sane_order x"
  defines "a' \<equiv> Complete symb (o_SeqID x) (mr_Trades mr) (mr_RestingQuantity mr) (mr_SelfPrevented mr) a"
  shows "e = None" "funded symb b' pend a'" "conserves symb a a'" "o_SeqID ` resting b' \<subseteq> insert (o_SeqID x) (o_SeqID ` resting b)"
proof -
  let ?s = "o_Side x"
  have s: "?s \<in> {Buy, Sell}" using k by (cases ?s) (simp_all add: sane_order_def)
  have wf: "wf_book b" and F: "bounded_order symb x" "distinct (map o_SeqID (x # pend))" "o_SeqID ` set (x # pend) \<inter> o_SeqID ` resting b = {}"
    using f unfolding funded_def by simp_all
  have fr: "o_SeqID x \<notin> fst ` set (index b)" using F(3) unfolding index_ids [OF wf] by auto
  have q: "is_i64 (o_Quantity x)" using k by (simp add: sane_order_def)
  from SubmitOrder_refines [OF wf q fr, of now] so have wf': "wf_book b'" and sp: "(abs_book b', mr, e) = spec_submit now (abs_book b) x" by auto
  obtain ts ids x' ms' tid' where sm: "spec_match now ?s (nextTradeID b) x (queue b (opposite ?s)) = (ts, ids, x', ms', tid')"
    by (metis prod_cases5)
  note M = funded_matchable [OF f s]
  have sol: "solvent a" using f by (simp add: funded_def)
  let ?rest = "if o_Type x' = Limit \<and> 0 < o_Quantity x' then o_Quantity x' else 0"
  note C = Complete_funds [OF sm sol M(2,1) refl]
  have mr: "e = None" "mr_Trades mr = ts" "mr_SelfPrevented mr = ids" "mr_RestingQuantity mr = ?rest"
    and own: "queue b' ?s = (if 0 < ?rest then spec_insert ?s x' (queue b ?s) else queue b ?s)" and opp: "queue b' (opposite ?s) = ms'"
    using sp sm k s by (auto simp: spec_submit_def abs_book_def sane_order_def Let_def)
  have a': "a' = Complete symb (o_SeqID x) ts ?rest ids a" unfolding a'_def mr ..
  show "e = None" "conserves symb a a'" using mr(1) C(2) unfolding a' by simp_all
  have r': "resting b' = (if 0 < ?rest then insert x' (set ms' \<union> set (queue b ?s)) else set ms' \<union> set (queue b ?s))"
    unfolding resting_side [OF s] own opp by (auto simp: set_spec_insert)
  have t: "tracks symb (resting b' \<union> set pend) a'" 
  proof -
    have "resting b' \<union> set pend = (if 0 < ?rest then insert x' (set ms' \<union> (set (queue b ?s) \<union> set pend)) else set ms' \<union> (set (queue b ?s) \<union> set pend))"
      unfolding r' by (cases "0 < ?rest") (simp_all only: if_True if_False Un_assoc Un_insert_left simp_thms)
    then show ?thesis using C(3) unfolding a' by simp
  qed
  have "\<forall>y \<in> set (queue b ?s) \<union> set pend. bounded_order symb y" using f unfolding funded_def resting_side [OF s] by auto
  then have bd: "\<forall>y \<in> resting b' \<union> set pend. bounded_order symb y" unfolding r' using C(4,5) by auto
  have i: "o_SeqID x' = o_SeqID x" by (subst spec_match_taker [OF sm, symmetric]) simp
  show "o_SeqID ` resting b' \<subseteq> insert (o_SeqID x) (o_SeqID ` resting b)"
  proof -
    have "o_SeqID ` resting b' \<subseteq> insert (o_SeqID x) (o_SeqID ` set ms' \<union> o_SeqID ` set (queue b ?s))" unfolding r' using i by auto
    then show ?thesis using spec_match_ids [OF sm] unfolding resting_side [OF s] image_Un by blast
  qed
  then have "o_SeqID ` set pend \<inter> o_SeqID ` resting b' = {}" by (rule disjoint_below) (use F(2,3) in auto)
  then show "funded symb b' pend a'" using wf' C(1) t bd F(2) unfolding funded_def a' by simp
qed

lemma cancel_funds:
  assumes f: "funded symb b pend a" and co: "CancelOwned b i who = Some (b', e)"
  defines "a' \<equiv> if e = None then Release symb i a else a"
  shows "funded symb b' pend a'" "conserves symb a a'" "o_SeqID ` resting b' \<subseteq> o_SeqID ` resting b"
proof -
  have wf: "wf_book b" and F: "solvent a" "tracks symb (resting b \<union> set pend) a" "\<forall>y \<in> resting b \<union> set pend. bounded_order symb y"
    "distinct (map o_SeqID pend)" "o_SeqID ` set pend \<inter> o_SeqID ` resting b = {}"
    using f unfolding funded_def by simp_all
  from CancelOwned_refines [OF wf, of i who] co have wf': "wf_book b'" and sp: "(abs_book b', e) = spec_cancel (abs_book b) i who" by auto
  have "funded symb b' pend a' \<and> conserves symb a a' \<and> o_SeqID ` resting b' \<subseteq> o_SeqID ` resting b"
  proof (cases e)
    case (Some err)
    then have "abs_book b' = abs_book b" using sp by (auto simp: spec_cancel_def split: option.splits if_splits)
    then have "resting b' = resting b" by (simp add: abs_book_def)
    with Some f wf' show ?thesis by (simp add: funded_def a'_def)
  next
    case None
    obtain y where y: "List.find (\<lambda>y. o_SeqID y = i) (queue b Buy @ queue b Sell) = Some y"
      and q: "queue b' Buy = filter (\<lambda>y. o_SeqID y \<noteq> i) (queue b Buy)" "queue b' Sell = filter (\<lambda>y. o_SeqID y \<noteq> i) (queue b Sell)"
      using sp None by (auto simp: spec_cancel_def abs_book_def split: option.splits if_splits)
    from y have yi: "y \<in> resting b" "o_SeqID y = i" unfolding find_Some_iff by (metis nth_mem set_append)+
    have a': "a' = releaseLocked (symb, o_SeqID y) a" using None yi(2) by (simp add: a'_def Release_def)
    have yx: "y \<in> resting b \<union> set pend" using yi(1) by blast
    note T = tracks_release [OF F(1,2) yx]
    have r': "resting b' = resting b - {y}" 
    proof -
      have "o_SeqID z \<noteq> i \<longleftrightarrow> z \<noteq> y" if "z \<in> resting b" for z using queue_id_unique [OF wf that yi(1)] yi(2) by auto
      then show ?thesis unfolding q set_filter by blast
    qed
    have "resting b \<union> set pend - {y} = resting b' \<union> set pend" using r' F(5) yi(1) by auto
    with T(1) have "tracks symb (resting b' \<union> set pend) a'" by (simp only: a')
    moreover have "o_SeqID ` set pend \<inter> o_SeqID ` resting b' = {}" using F(5) r' by auto
    ultimately show ?thesis using T(2,3) yi(1) F(3,4) wf' r' unfolding funded_def a' by auto
  qed
  then show "funded symb b' pend a'" "conserves symb a a'" "o_SeqID ` resting b' \<subseteq> o_SeqID ` resting b" by simp_all
qed

end
