(* ===== verification/OMS_Trading.thy ===== *)
theory OMS_Trading
  imports OMS_Funds
begin

text \<open>
  Trading on the shared account store: the batches of every symbol, in any order and on disks that
  work or fail, keep each symbol's reservations equal to its resting orders, leave no account
  overdrawn and create or lose nothing.
\<close>

section \<open>Committing a batch\<close>

text \<open>The orders of a batch that passed the check.\<close>

definition pending :: "request list \<Rightarrow> Order list" where
  "pending rs = map rq_order (filter (\<lambda>r. rq_kind r = reqSubmit \<and> rq_preErr r = None) rs)"

lemma pending_simps [simp]:
  "pending [] = []"
  "pending (r # rs) = (if rq_kind r = reqSubmit \<and> rq_preErr r = None then [rq_order r] else []) @ pending rs"
  by (simp_all add: pending_def)

lemma serve_funds:
  assumes f: "funded symb (s_book s) (pending (r # rs)) (v_accounts v)" and s: "s_accounts s" "s_symbol s = symb" "s_walErr s = None"
    and r: "rq_kind r = reqSubmit \<longrightarrow> sane_order (rq_order r) \<and> rq_orderID r = o_SeqID (rq_order r)"
    and sv: "serve ck i r s v = Some (res, s', v')"
  shows "funded symb (s_book s') (pending rs) (v_accounts v')" "conserves symb (v_accounts v) (v_accounts v')"
    "o_SeqID ` resting (s_book s') \<subseteq> o_SeqID ` (resting (s_book s) \<union> set (pending [r]))"
proof -
  consider (idle) "skipped r" | (cancel) "\<not> skipped r" "rq_kind r = reqCancel" | (submit) "\<not> skipped r" "rq_kind r = reqSubmit"
    by (cases "rq_kind r") (auto simp: skipped_def)
  then have "funded symb (s_book s') (pending rs) (v_accounts v') \<and> conserves symb (v_accounts v) (v_accounts v') \<and>
    o_SeqID ` resting (s_book s') \<subseteq> o_SeqID ` (resting (s_book s) \<union> set (pending [r]))"
  proof cases
    case idle
    then have "s' = s" "v' = v" "pending (r # rs) = pending rs" using sv s by (auto simp: serve_def skipped_def Let_def split: if_splits bind_splits)
    with f show ?thesis by simp
  next
    case cancel
    then obtain b e where c: "CancelOwned (s_book s) (rq_cancelID r) (rq_cancelBy r) = Some (b, e)" "s_book s' = b"
      "v_accounts v' = (if e = None then Release symb (rq_cancelID r) (v_accounts v) else v_accounts v)"
      using sv s by (auto simp: serve_def serve_cancel_def skipped_def Let_def split: bind_splits)
    from cancel f have "funded symb (s_book s) (pending rs) (v_accounts v)" by simp
    from cancel_funds [OF this c(1)] show ?thesis unfolding c(2,3) by (auto simp: image_Un)
  next
    case submit
    then have p: "rq_preErr r = None" by (simp add: skipped_def)
    with submit obtain b mr e where c: "SubmitOrder (ck_trade ck) (s_book s) (rq_order r) = Some (b, mr, e)" "s_book s' = b"
      "v_accounts v' = (if e \<noteq> None then release s r (v_accounts v) else Complete symb (rq_orderID r) (mr_Trades mr) (mr_RestingQuantity mr)
          (mr_SelfPrevented mr) (v_accounts v))"
      using sv s by (auto simp: serve_def serve_submit_def Let_def split: bind_splits)
    from f p submit(2) have "funded symb (s_book s) (rq_order r # pending rs) (v_accounts v)" by simp
    from submit_funds [OF this c(1)] r submit(2) p show ?thesis unfolding c(2,3) by (simp add: image_Un)
  qed
  then show "funded symb (s_book s') (pending rs) (v_accounts v')" "conserves symb (v_accounts v) (v_accounts v')"
    "o_SeqID ` resting (s_book s') \<subseteq> o_SeqID ` (resting (s_book s) \<union> set (pending [r]))" by simp_all
qed

lemma serve_all_funds:
  assumes "funded symb (s_book s) (pending rs) (v_accounts v)" "s_accounts s" "s_symbol s = symb" "s_walErr s = None"
    "\<And>r. r \<in> set rs \<Longrightarrow> rq_kind r = reqSubmit \<longrightarrow> sane_order (rq_order r) \<and> rq_orderID r = o_SeqID (rq_order r)"
    "serve_all ck i rs s v = Some (ress, s', v')"
  shows "funded symb (s_book s') [] (v_accounts v') \<and> conserves symb (v_accounts v) (v_accounts v') \<and>
    o_SeqID ` resting (s_book s') \<subseteq> o_SeqID ` (resting (s_book s) \<union> set (pending rs))"
  using assms
proof (induction rs arbitrary: i s v ress)
  case Nil
  then show ?case by simp
next
  case (Cons r rs)
  from Cons.prems(6) obtain res s1 v1 ress1 where 1: "serve ck i r s v = Some (res, s1, v1)"
    "serve_all ck (Suc i) rs s1 v1 = Some (ress1, s', v')" by (auto split: bind_splits)
  note F = serve_funds [OF Cons.prems(1-4) _ 1(1)]
  have s1: "s_accounts s1" "s_symbol s1 = symb" "s_walErr s1 = None"
    using Cons.prems(2-4) by (subst serve_state [OF 1(1)]; simp)+
  have r: "rq_kind r = reqSubmit \<longrightarrow> sane_order (rq_order r) \<and> rq_orderID r = o_SeqID (rq_order r)" using Cons.prems(5) by simp
  have IH: "funded symb (s_book s') [] (v_accounts v') \<and> conserves symb (v_accounts v1) (v_accounts v') \<and>
      o_SeqID ` resting (s_book s') \<subseteq> o_SeqID ` (resting (s_book s1) \<union> set (pending rs))"
    by (rule Cons.IH [OF F(1) [OF r] s1 _ 1(2)]) (use Cons.prems(5) in simp)
  have pe: "set (pending (r # rs)) = set (pending [r]) \<union> set (pending rs)" by simp
  have "o_SeqID ` resting (s_book s') \<subseteq> o_SeqID ` (resting (s_book s) \<union> set (pending (r # rs)))"
    unfolding pe using IH F(3) [OF r] by (intro image_chain) simp_all
  with IH F(2) [OF r] show ?case by (auto elim: conserves_trans)
qed

lemma reserve_all_funds:
  assumes "solvent a" "tracks symb X a"
    "\<And>r. r \<in> set rs \<Longrightarrow> rq_preErr r = None \<and> (rq_kind r = reqSubmit \<longrightarrow> bounded_order symb (rq_order r) \<and> is_i64 (o_SeqID (rq_order r)))"
    "distinct (submit_ids rs)" "set (submit_ids rs) \<inter> o_SeqID ` X = {}" "reserve_all rs a = (rs', a')"
  shows "solvent a' \<and> tracks symb (X \<union> set (pending rs')) a' \<and> conserves symb a a' \<and>
    (\<forall>y \<in> set (pending rs'). bounded_order symb y)"
  using assms
proof (induction rs arbitrary: a X rs')
  case Nil
  then show ?case by simp
next
  case (Cons r rs)
  obtain r1 a1 where 1: "reserve_one r a = (r1, a1)" by fastforce
  obtain rs1 where 2: "reserve_all rs a1 = (rs1, a')" "rs' = r1 # rs1" using Cons.prems(6) 1 by (auto split: prod.splits)
  have r: "rq_preErr r = None" "rq_kind r = reqSubmit \<Longrightarrow> bounded_order symb (rq_order r) \<and> is_i64 (o_SeqID (rq_order r))"
    using Cons.prems(3) by auto
  have step: "solvent a1 \<and> tracks symb (X \<union> set (pending [r1])) a1 \<and> conserves symb a a1 \<and> (\<forall>y \<in> set (pending [r1]). bounded_order symb y)"
  proof (cases "rq_kind r = reqSubmit")
    case True
    obtain a2 e where R: "Reserve (rq_order r) a = (a2, e)" by fastforce
    show ?thesis
    proof (cases e)
      case None
      have n: "o_SeqID (rq_order r) \<notin> o_SeqID ` X" using Cons.prems(5) True by auto
      from tracks_reserve [OF Cons.prems(1,2) _ _ n R [unfolded None]] r(2) [OF True]
      show ?thesis using 1 True R None r(1) by (auto simp: reserve_one_def)
    next
      case (Some err)
      with Reserve_rejected [OF R [unfolded Some]] 1 True R Cons.prems(1,2) show ?thesis by (auto simp: reserve_one_def)
    qed
  qed (use 1 Cons.prems(1,2) in \<open>auto simp: reserve_one_def\<close>)
  have ids: "o_SeqID ` set (pending [r1]) \<subseteq> set (submit_ids [r])"
    using reserve_one_frame [of r a] 1 by (auto simp: reserve_one_def split: if_splits prod.splits option.splits)
  have "solvent a' \<and> tracks symb (X \<union> set (pending [r1]) \<union> set (pending rs1)) a' \<and> conserves symb a1 a' \<and>
      (\<forall>y \<in> set (pending rs1). bounded_order symb y)"
  proof (rule Cons.IH [OF _ _ _ _ _ 2(1)])
    show "set (submit_ids rs) \<inter> o_SeqID ` (X \<union> set (pending [r1])) = {}"
      using Cons.prems(4,5) ids by (auto simp: image_Un)
  qed (use step Cons.prems(3,4) in auto)
  with step show ?case unfolding 2(2) by (auto simp: Un_assoc elim: conserves_trans)
qed

lemma pending_ids: "set (map o_SeqID (pending rs)) \<subseteq> set (submit_ids rs)" "distinct (submit_ids rs) \<Longrightarrow> distinct (map o_SeqID (pending rs))"
proof -
  show 1: "set (map o_SeqID (pending rs)) \<subseteq> set (submit_ids rs)" for rs by (auto simp: pending_def submit_ids_def)
  show "distinct (submit_ids rs) \<Longrightarrow> distinct (map o_SeqID (pending rs))"
  proof (induction rs)
    case (Cons r rs)
    then show ?case using 1 [of rs] by (auto split: if_splits)
  qed simp
qed

text \<open>An order whose cost the pre-trade check can bound, as it comes in.\<close>

definition bounded_request :: "request \<Rightarrow> bool" where
  "bounded_request r \<longleftrightarrow> rq_kind r = reqSubmit \<longrightarrow> 0 \<le> o_Price (rq_order r) \<and> is_i64 (o_Price (rq_order r)) \<and>
     (o_Side (rq_order r) = Buy \<and> o_Type (rq_order r) = Limit \<or> o_Side (rq_order r) = Sell)"

lemma assign_ids_bounded:
  assumes "\<And>r. r \<in> set rs \<Longrightarrow> incoming r \<and> bounded_request r" "s_symbol s = symb" "symb \<noteq> []" "r' \<in> set (fst (assign_ids rs s))"
  shows "rq_preErr r' = None \<and> (rq_kind r' = reqSubmit \<longrightarrow> bounded_order symb (rq_order r') \<and> is_i64 (o_SeqID (rq_order r')))"
  using assms
proof (induction rs arbitrary: s)
  case (Cons r rs)
  then consider "r' = fst (assign_id r s)" | "r' \<in> set (fst (assign_ids rs (snd (assign_id r s))))"
    by (auto simp: case_prod_beta Let_def)
  then show ?case
  proof cases
    case 1
    have i: "incoming r" "bounded_request r" using Cons.prems(1) by auto
    have "bounded_order symb (rq_order r') \<and> is_i64 (o_SeqID (rq_order r'))" if "rq_kind r' = reqSubmit"
      using 1 that i Cons.prems(2,3)
      by (auto simp: assign_id_def incoming_def bounded_request_def bounded_order_def sane_order_def Let_def split: if_splits)
    with 1 i show ?thesis by (auto simp: incoming_def)
  next
    case 2
    have "s_symbol (snd (assign_id r s)) = symb" by (subst assign_id_state) (simp add: Cons.prems(2))
    from Cons.IH [OF _ this Cons.prems(3) 2] Cons.prems(1) show ?thesis by simp
  qed
qed simp

lemma log_phase_same:
  assumes "log_phase js ts b s d = Some (b', s', d')"
  shows "map (\<lambda>r. r\<lparr>rq_seq := 0\<rparr>) b' = map (\<lambda>r. r\<lparr>rq_seq := 0\<rparr>) b"
proof -
  have "map (\<lambda>r. r\<lparr>rq_seq := 0\<rparr>) rs' = map (\<lambda>r. r\<lparr>rq_seq := 0\<rparr>) rs"
    if "log_requests js ts rs seq w d = Some (rs', seq', w', d', e)" for rs seq w d rs' seq' w' d' e
    using that
  proof (induction rs arbitrary: seq w d rs')
    case (Cons r rs)
    then show ?case by (fastforce simp: Let_def split: if_splits bind_splits option.splits)
  qed simp
  with assms show ?thesis by (auto simp: log_phase_def logBatch_def split: option.splits bind_splits)
qed

lemma pending_unnumbered: "pending (map (\<lambda>r. r\<lparr>rq_seq := 0\<rparr>) rs) = pending rs"
  by (induction rs) simp_all

lemma log_phase_pending: "log_phase js ts b s d = Some (b', s', d') \<Longrightarrow> pending b' = pending b"
  using log_phase_same pending_unnumbered by metis

lemma logged_sane:
  assumes lp: "log_phase js ts b s d = Some (b', s', d')" and r: "r \<in> set b'" "rq_kind r = reqSubmit"
    and sane: "\<And>r. r \<in> set b \<Longrightarrow> rq_kind r = reqSubmit \<Longrightarrow> sane_order (rq_order r)" and k: "keyed symb b'"
  shows "sane_order (rq_order r) \<and> rq_orderID r = o_SeqID (rq_order r)"
proof
  have "r\<lparr>rq_seq := 0\<rparr> \<in> set (map (\<lambda>r. r\<lparr>rq_seq := 0\<rparr>) b)" using r(1) log_phase_same [OF lp] by (metis image_eqI list.set_map)
  then obtain r2 where r2: "r2 \<in> set b" "r\<lparr>rq_seq := 0\<rparr> = r2\<lparr>rq_seq := 0\<rparr>" by auto
  have "rq_kind r2 = rq_kind r" "rq_order r2 = rq_order r"
    using arg_cong [OF r2(2), of rq_kind] arg_cong [OF r2(2), of rq_order] by simp_all
  with sane [OF r2(1)] r(2) show "sane_order (rq_order r)" by simp
qed (use k r in \<open>auto simp: keyed_def order_key_def\<close>)

lemma accepted_pending: "keyed symb rs \<Longrightarrow> accepted rs = map (Pair symb) (map o_SeqID (pending rs))"
  by (induction rs) (auto simp: accepted_def keyed_def order_key_def)

text \<open>Identifiers still to be handed out are above those of the book.\<close>

definition ids_below :: "int \<Rightarrow> Book \<Rightarrow> bool" where
  "ids_below n b \<longleftrightarrow> 0 \<le> n \<and> (\<forall>y \<in> resting b. o_SeqID y \<le> n)"

text \<open>The first two phases of a commit: identifiers, then reservations.\<close>

lemma prepare_funds:
  assumes s: "s_symbol s = symb" "symb \<noteq> []" and f: "funded symb (s_book s) [] a"
    and n: "ids_below (s_nextOrderID s) (s_book s)" "s_nextOrderID s + int (length batch) \<le> max_i64"
    and b: "\<And>r. r \<in> set batch \<Longrightarrow> incoming r \<and> bounded_request r"
    and r: "reserve_all (fst (assign_ids batch s)) a = (b2, a2)"
  shows "funded symb (s_book s) (pending b2) a2" "conserves symb a a2"
    "set (map o_SeqID (pending b2)) \<subseteq> {s_nextOrderID s + 1..s_nextOrderID (snd (assign_ids batch s))}"
    "s_nextOrderID s \<le> s_nextOrderID (snd (assign_ids batch s))"
proof -
  let ?b1 = "fst (assign_ids batch s)" and ?R = "resting (s_book s)"
  have A: "submit_ids ?b1 = [s_nextOrderID s + 1..s_nextOrderID (snd (assign_ids batch s))]"
    "s_nextOrderID s \<le> s_nextOrderID (snd (assign_ids batch s))"
    using assign_ids_fresh [of batch s] b n by (simp_all add: ids_below_def)
  have ids: "set (submit_ids ?b1) \<inter> o_SeqID ` ?R = {}" using A n(1) by (force simp: ids_below_def)
  have F0: "solvent a" "tracks symb ?R a" using f by (simp_all add: funded_def)
  have R: "solvent a2 \<and> tracks symb (?R \<union> set (pending b2)) a2 \<and> conserves symb a a2 \<and> (\<forall>y \<in> set (pending b2). bounded_order symb y)"
    by (rule reserve_all_funds [OF F0 _ _ ids r]) (use assign_ids_bounded [OF b s] A in auto)
  have "submit_ids b2 = submit_ids ?b1" using reserve_all_frame(3) [of ?b1 a] r by simp
  then show p: "set (map o_SeqID (pending b2)) \<subseteq> {s_nextOrderID s + 1..s_nextOrderID (snd (assign_ids batch s))}"
    and d: "s_nextOrderID s \<le> s_nextOrderID (snd (assign_ids batch s))"
    using pending_ids(1) [of b2] A by simp_all
  have "distinct (map o_SeqID (pending b2))" using pending_ids(2) [of b2] A \<open>submit_ids b2 = submit_ids ?b1\<close> by simp
  moreover have "o_SeqID ` set (pending b2) \<inter> o_SeqID ` ?R = {}" using p n(1) by (force simp: ids_below_def)
  ultimately show "funded symb (s_book s) (pending b2) a2" using f R by (auto simp: funded_def)
  show "conserves symb a a2" using R by simp
qed

text \<open>Dropping the reservations of a whole batch.\<close>

lemma drop_pending_funds:
  assumes f: "funded symb b pend a"
  defines "a' \<equiv> fold releaseLocked (map (Pair symb) (map o_SeqID pend)) a"
  shows "funded symb b [] a'" "conserves symb a a'"
proof -
  have F: "solvent a" "tracks symb (set pend \<union> resting b) a" "o_SeqID ` resting b \<inter> o_SeqID ` set pend = {}"
    using f by (simp_all add: funded_def Un_commute Int_commute)
  from release_many [OF F] show "funded symb b [] a'" "conserves symb a a'" unfolding a'_def using f by (simp_all add: funded_def)
qed

text \<open>
  A commit, on a disk that works or not: when the log fails, the reservations of the batch go back.
\<close>

lemma commit_funds:
  assumes c: "commit js ck batch s v = Some (ress, s', v')" and s: "s_accounts s" "s_symbol s = symb" "symb \<noteq> []"
    and f: "funded symb (s_book s) [] (v_accounts v)" and n: "ids_below (s_nextOrderID s) (s_book s)" "s_nextOrderID s + int (length batch) \<le> max_i64"
    and b: "\<And>r. r \<in> set batch \<Longrightarrow> incoming r \<and> bounded_request r"
  shows "funded symb (s_book s') [] (v_accounts v')" "conserves symb (v_accounts v) (v_accounts v')"
    "ids_below (s_nextOrderID s') (s_book s')" "s_accounts s'" "s_symbol s' = symb"
proof -
  let ?b2 = "fst (reserve_all (fst (assign_ids batch s)) (v_accounts v))" and ?n = "s_nextOrderID (snd (assign_ids batch s))"
  obtain s2 a2 b3 s3 d3 s4 where
    s2: "s2 = (snd (assign_ids batch s))\<lparr>s_commits := add64 (s_commits s) 1, s_batched := add64 (s_batched s) (i64 (int (length batch)))\<rparr>"
    and a2: "a2 = (if s_accounts s then snd (reserve_all (fst (assign_ids batch s)) (v_accounts v)) else v_accounts v)"
    and lp: "log_phase js (ck_pickedUp ck) (prepared s batch (v_accounts v)) s2 (v_disk v) = Some (b3, s3, d3)"
    and sa: "serve_all ck 0 b3 s3 (v\<lparr>v_accounts := a2, v_disk := d3\<rparr>) = Some (ress, s4, v')"
    and s': "s' = s4\<lparr>s_resting := i64 (int (RestingCount (s_book s4))), s_lastPos := s_seq s4\<rparr>"
    and fr: "s_book s2 = s_book s" "s_symbol s2 = s_symbol s" "s_accounts s2 = s_accounts s"
    by (rule commit_cases [OF c])
  have p: "prepared s batch (v_accounts v) = ?b2" "reserve_all (fst (assign_ids batch s)) (v_accounts v) = (?b2, a2)"
    using s(1) a2 by (simp_all add: prepared_def)
  note P = prepare_funds [OF s(2,3) f n b p(2)]
  have k: "keyed symb b3" using log_phase_accepted [OF lp] keyed_reserve_all [OF keyed_assign_ids [of s batch]] s(2,3) p(1) by simp
  have b3: "pending b3 = pending ?b2" using log_phase_pending [OF lp] p(1) by simp
  have s3: "s_book s3 = s_book s" "s_accounts s3" "s_symbol s3 = symb" using log_phase_frame(1-3) [OF lp] fr s by simp_all
  have f3: "funded symb (s_book s3) (pending b3) (v_accounts (v\<lparr>v_accounts := a2, v_disk := d3\<rparr>))" using P(1) s3(1) b3 by simp
  have G: "funded symb (s_book s') [] (v_accounts v') \<and> conserves symb a2 (v_accounts v') \<and>
    o_SeqID ` resting (s_book s') \<subseteq> o_SeqID ` (resting (s_book s) \<union> set (pending ?b2))"
  proof (cases "s_walErr s3")
    case None
    have "sane_order (rq_order r) \<and> rq_orderID r = o_SeqID (rq_order r)" if r: "r \<in> set b3" "rq_kind r = reqSubmit" for r
      by (rule logged_sane [OF lp r _ k]) (use prepared_ids(3) [of batch s _ "v_accounts v"] b n in \<open>auto simp: ids_below_def\<close>)
    with serve_all_funds [OF f3 s3(2,3) None _ sa] show ?thesis using s3(1) b3 by (simp add: s')
  next
    case (Some err)
    then have e: "s_walErr s3 \<noteq> None" by simp
    have "v_accounts v' = fold releaseLocked (map (Pair symb) (map o_SeqID (pending ?b2))) a2"
      using serve_all_refused_accounts [OF sa e s3(2)] k s3(3) accepted_pending [OF k] b3 by simp
    with drop_pending_funds [OF P(1)] serve_all_refused [OF sa e] s3(1) show ?thesis by (auto simp: s')
  qed
  then show "funded symb (s_book s') [] (v_accounts v')" "conserves symb (v_accounts v) (v_accounts v')"
    using P(2) by (blast intro: conserves_trans)+
  have s4: "s4 = s3\<lparr>s_book := s_book s4\<rparr>" by (rule serve_all_state [OF sa])
  have "s_nextOrderID s3 = ?n" using lp by (auto simp: log_phase_def s2 split: option.splits bind_splits)
  then have nx: "s_nextOrderID s' = ?n" unfolding s' by (subst s4) simp
  have G3: "o_SeqID ` resting (s_book s') \<subseteq> o_SeqID ` resting (s_book s) \<union> set (map o_SeqID (pending ?b2))" using G by (simp add: image_Un)
  have "o_SeqID y \<le> ?n" if "y \<in> resting (s_book s')" for y
    using subsetD [OF G3 imageI [OF that]] P(3,4) n(1) by (force simp: ids_below_def)
  then show "ids_below (s_nextOrderID s') (s_book s')" using nx P(4) n(1) by (simp add: ids_below_def)
  show "s_accounts s'" "s_symbol s' = symb" unfolding s' by (subst s4; simp add: s3)+
qed

section \<open>All symbols on one store\<close>

text \<open>
  The reservations of every open symbol are those of its resting orders, and a symbol that has not
  been opened has neither reservations nor files.
\<close>

definition backed :: "Registry \<Rightarrow> System \<Rightarrow> bool" where
  "backed r sys \<longleftrightarrow> reg_accounts r \<and> solvent (sys_accounts sys) \<and> (\<forall>symb. case map_of (reg_seqs r) symb of
     None \<Rightarrow> map_of (sys_dirs sys) symb = None \<and> tracks symb {} (sys_accounts sys)
   | Some s \<Rightarrow> s_accounts s \<and> s_symbol s = symb \<and> symb \<noteq> [] \<and> funded symb (s_book s) [] (sys_accounts sys) \<and>
       ids_below (s_nextOrderID s) (s_book s))"

lemma backed_open:
  assumes "backed r sys" "map_of (reg_seqs r) symb = Some s"
  shows "s_accounts s" "s_symbol s = symb" "symb \<noteq> []" "funded symb (s_book s) [] (sys_accounts sys)" "ids_below (s_nextOrderID s) (s_book s)"
  using assms by (auto simp: backed_def dest!: spec [of _ symb])

lemma backed_closed:
  assumes "backed r sys" "map_of (reg_seqs r) symb = None"
  shows "map_of (sys_dirs sys) symb = None" "tracks symb {} (sys_accounts sys)"
  using assms by (auto simp: backed_def dest!: spec [of _ symb])

lemma funded_elsewhere: "conserves symb a a' \<Longrightarrow> solvent a' \<Longrightarrow> y \<noteq> symb \<Longrightarrow> funded y b [] a \<Longrightarrow> funded y b [] a'"
  by (simp add: funded_def tracks_elsewhere)

text \<open>A change of one symbol's sequencer and of the store that its batch accounts for.\<close>

lemma backed_update:
  assumes b: "backed r sys" and r: "reg_accounts r'" "\<And>y. map_of (reg_seqs r') y = (if y = symb then Some s' else map_of (reg_seqs r) y)"
    and d: "\<And>y. y \<noteq> symb \<Longrightarrow> map_of (sys_dirs sys') y = map_of (sys_dirs sys) y"
    and c: "conserves symb (sys_accounts sys) (sys_accounts sys')"
    and s: "s_accounts s'" "s_symbol s' = symb" "symb \<noteq> []" "funded symb (s_book s') [] (sys_accounts sys')" "ids_below (s_nextOrderID s') (s_book s')"
  shows "backed r' sys'"
proof -
  have sol: "solvent (sys_accounts sys')" using s(4) by (simp add: funded_def)
  have "case map_of (reg_seqs r') y of None \<Rightarrow> map_of (sys_dirs sys') y = None \<and> tracks y {} (sys_accounts sys')
     | Some s \<Rightarrow> s_accounts s \<and> s_symbol s = y \<and> y \<noteq> [] \<and> funded y (s_book s) [] (sys_accounts sys') \<and> ids_below (s_nextOrderID s) (s_book s)" for y
  proof (cases "y = symb")
    case False
    then show ?thesis
      using backed_open [OF b, of y] backed_closed [OF b, of y] d [OF False] funded_elsewhere [OF c sol False] tracks_elsewhere [OF c False]
      by (auto simp: r(2) split: option.split)
  qed (use s r(2) in simp)
  then show ?thesis using r(1) sol unfolding backed_def by blast
qed

lemma commit_symbol_backed:
  assumes b: "backed r sys" and c: "commit_symbol js ck symb batch r sys = Some (ress, r', sys')"
    and q: "\<And>r. r \<in> set batch \<Longrightarrow> incoming r \<and> bounded_request r"
    and n: "\<And>s. map_of (reg_seqs r) symb = Some s \<Longrightarrow> s_nextOrderID s + int (length batch) \<le> max_i64"
  shows "backed r' sys'" "conserves symb (sys_accounts sys) (sys_accounts sys')"
proof -
  obtain s s' v' where s: "map_of (reg_seqs r) symb = Some s" and cm: "commit js ck batch s (venue_of sys symb) = Some (ress, s', v')"
    and r': "r' = r\<lparr>reg_seqs := gput symb s' (reg_seqs r)\<rparr>" and sys': "sys' = with_venue symb v' sys"
    using c by (auto simp: commit_symbol_def split: bind_splits)
  note S = backed_open [OF b s]
  have f: "funded symb (s_book s) [] (v_accounts (venue_of sys symb))" using S(4) by (simp add: venue_of_def)
  note F = commit_funds [OF cm S(1-3) f S(5) n [OF s] q]
  have a': "sys_accounts sys' = v_accounts v'" "\<And>y. y \<noteq> symb \<Longrightarrow> map_of (sys_dirs sys') y = map_of (sys_dirs sys) y"
    by (auto simp: sys' with_venue_def update_dir_def)
  show k: "conserves symb (sys_accounts sys) (sys_accounts sys')" using F(2) a'(1) by (simp add: venue_of_def)
  show "backed r' sys'"
    by (rule backed_update [OF b, of r' symb s' sys']) (use b F S(3) a' k r' in \<open>simp_all add: backed_def\<close>)
qed

lemma fresh_symbol:
  assumes n: "newSequencer js now symb r sys = Some (sys', res)" and b: "backed r sys" "map_of (reg_seqs r) symb = None"
  shows "sys_accounts sys' = sys_accounts sys" "\<And>y. y \<noteq> symb \<Longrightarrow> map_of (sys_dirs sys') y = map_of (sys_dirs sys) y"
    "\<And>e. res = Inl e \<Longrightarrow> sys_dirs sys' = sys_dirs sys"
    "\<And>s. res = Inr s \<Longrightarrow> s_accounts s \<and> s_symbol s = symb \<and> s_book s = NewBook \<and> s_nextOrderID s = 0"
proof -
  let ?d = "dir_of sys symb"
  have acc: "reg_accounts r" using b(1) by (simp add: backed_def)
  have e: "files ?d = []" "map_of (sys_dirs sys) symb = None" using backed_closed [OF b] by (simp_all add: dir_of_def)
  have rs: "RestingOrders NewBook = []" by (simp add: RestingOrders_def NewBook_def)
  have rec: "Recover js now ?d NewBook 0 = Some (NewBook, 0, None)" using e(1) by (simp add: Recover_def segmentPaths_def)
  have at: "registry_attach symb r q y = (attach symb True (if reg_OnTrades r then Some symb else None) q, y)"
    if "s_book q = NewBook" for q y using that acc rs by (simp add: registry_attach_def attach_def Let_def)
  have new: "s_book (NewSequencer NewBook) = NewBook" "s_nextOrderID (NewSequencer NewBook) = 0"
    "\<And>w. s_book (NewSequencerWithWAL NewBook (Some w)) = NewBook" "\<And>w. s_nextOrderID (NewSequencerWithWAL NewBook (Some w)) = 0"
    by (simp_all add: NewSequencer_def NewSequencerWithWAL_def MaxOrderID_def NewBook_def)
  obtain d' ow where ow: "OpenWriter js ?d = (d', ow)" by fastforce
  have ok: "sys_root_ok sys \<Longrightarrow> \<exists>w. ow = Inr w"
  proof -
    assume "sys_root_ok sys"
    then have h: "write_ok ?d" "sync_ok ?d" using e(2) by (simp_all add: dir_of_def)
    from empty_start [OF e(1) h] ow show "\<exists>w. ow = Inr w" by (metis prod.inject)
  qed
  have "sys_accounts sys' = sys_accounts sys \<and> (\<forall>y. y \<noteq> symb \<longrightarrow> map_of (sys_dirs sys') y = map_of (sys_dirs sys) y) \<and>
    (case res of Inl e \<Rightarrow> sys_dirs sys' = sys_dirs sys | Inr s \<Rightarrow> s_accounts s \<and> s_symbol s = symb \<and> s_book s = NewBook \<and> s_nextOrderID s = 0)"
  proof (cases "reg_walDir r")
    case False
    with n new at [of "NewSequencer NewBook"] show ?thesis by (auto simp: newSequencer_def attach_def)
  next
    case True
    with n new rec ow ok e(2) at show ?thesis by (cases ow) (auto simp: newSequencer_def attach_def put_dir_def)
  qed
  then show "sys_accounts sys' = sys_accounts sys" "\<And>y. y \<noteq> symb \<Longrightarrow> map_of (sys_dirs sys') y = map_of (sys_dirs sys) y"
    "\<And>e. res = Inl e \<Longrightarrow> sys_dirs sys' = sys_dirs sys"
    "\<And>s. res = Inr s \<Longrightarrow> s_accounts s \<and> s_symbol s = symb \<and> s_book s = NewBook \<and> s_nextOrderID s = 0" by auto
qed

lemma Get_backed:
  assumes b: "backed r sys" and g: "Get js now symb r sys = Some (r', sys', e)"
  shows "backed r' sys'" "sys_accounts sys' = sys_accounts sys"
    "\<And>s. map_of (reg_seqs r') symb = Some s \<Longrightarrow> map_of (reg_seqs r) symb = Some s \<or> s_nextOrderID s = 0"
proof -
  consider (same) "r' = r" "sys' = sys"
    | (new) res where "newSequencer js now symb r sys = Some (sys', res)" "map_of (reg_seqs r) symb = None" "validSymbol symb"
        "r' = (case res of Inl _ \<Rightarrow> r | Inr s \<Rightarrow> r\<lparr>reg_seqs := gput symb s (reg_seqs r)\<rparr>)"
    using g by (auto simp: Get_def get_locked_def split: if_splits bind_splits sum.splits)
  then have "backed r' sys' \<and> sys_accounts sys' = sys_accounts sys \<and>
    (\<forall>s. map_of (reg_seqs r') symb = Some s \<longrightarrow> map_of (reg_seqs r) symb = Some s \<or> s_nextOrderID s = 0)"
  proof cases
    case same
    with b show ?thesis by simp
  next
    case new
    note N = fresh_symbol [OF new(1) b new(2)]
    show ?thesis
    proof (cases res)
      case (Inl e)
      have "backed r sys'" using b unfolding backed_def N(1) N(3) [OF Inl] by simp
      then show ?thesis using new(2,4) N(1) Inl by simp
    next
      case (Inr s)
      have S: "s_accounts s" "s_symbol s = symb" "s_book s = NewBook" "s_nextOrderID s = 0" using N(4) [OF Inr] by simp_all
      have "resting NewBook = {}" by (simp add: queue_def NewBook_def ladder_def)
      then have F: "funded symb NewBook [] (sys_accounts sys')" "ids_below 0 NewBook"
        using backed_closed(2) [OF b new(2)] b N(1) by (simp_all add: funded_def ids_below_def backed_def)
      have "symb \<noteq> []" using new(3) by (auto simp: validSymbol_def)
      then have "backed r' sys'"
        by (intro backed_update [OF b, of r' symb s sys']) (use b F S N(1,2) Inr new(4) in \<open>simp_all add: backed_def\<close>)
      then show ?thesis using N(1) S(4) Inr new(4) by simp
    qed
  qed
  then show "backed r' sys'" "sys_accounts sys' = sys_accounts sys"
    "\<And>s. map_of (reg_seqs r') symb = Some s \<Longrightarrow> map_of (reg_seqs r) symb = Some s \<or> s_nextOrderID s = 0" by blast+
qed

section \<open>Calls\<close>

text \<open>
  What the other requests of the batch a call falls into must be: they too come off the network
  with a bounded cost, and the identifiers are not used up.
\<close>

definition orderly :: "Env \<Rightarrow> string \<Rightarrow> Node \<Rightarrow> bool" where
  "orderly env symb nd \<longleftrightarrow> (case ev_schedule env of
     Batched before after gone ck \<Rightarrow> (\<forall>r \<in> set (before @ after). incoming r \<and> bounded_request r) \<and>
       int (length (before @ after)) + 1 \<le> max_i64 \<and>
       (\<forall>s. map_of (reg_seqs (nd_reg nd)) symb = Some s \<longrightarrow> s_nextOrderID s + int (length (before @ after)) + 1 \<le> max_i64)
   | _ \<Rightarrow> True)"

definition node_backed :: "Accounts \<Rightarrow> Node \<Rightarrow> bool" where
  "node_backed a0 nd \<longleftrightarrow> backed (nd_reg nd) (nd_sys nd) \<and> total_cash (sys_accounts (nd_sys nd)) = total_cash a0 \<and>
     (\<forall>y. total_shares y (sys_accounts (nd_sys nd)) = total_shares y a0)"

lemma node_backed_reply: "node_backed a0 nd \<Longrightarrow> nd_reg nd' = nd_reg nd \<Longrightarrow> nd_sys nd' = nd_sys nd \<Longrightarrow> node_backed a0 nd'"
  by (simp add: node_backed_def)

lemma lookup_backed:
  assumes "node_backed a0 nd" "Get js now symb (nd_reg nd) (nd_sys nd) = Some (r, sys, e)"
  shows "node_backed a0 (nd\<lparr>nd_reg := r, nd_sys := sys\<rparr>)"
  using assms Get_backed [of "nd_reg nd" "nd_sys nd" js now symb r sys e] by (simp add: node_backed_def)

lemma sent_backed:
  assumes b: "node_backed a0 nd" and g: "Get js now symb (nd_reg nd) (nd_sys nd) = Some (r, sys, None)"
    and o: "orderly env symb nd" and rq: "incoming rq" "bounded_request rq"
    and s: "send js (ev_schedule env) symb rq (nd\<lparr>nd_reg := r, nd_sys := sys\<rparr>) = Some (h, nd2)"
  shows "node_backed a0 nd2"
proof (cases "ev_schedule env")
  case (Batched before after gone ck)
  let ?batch = "before @ rq # after"
  note l = lookup_backed [OF b g]
  have bk: "backed (nd_reg nd) (nd_sys nd)" "backed r sys" using b l by (simp_all add: node_backed_def)
  obtain ress r' sys' where c: "commit_symbol js ck symb ?batch r sys = Some (ress, r', sys')" "nd_reg nd2 = r'" "nd_sys nd2 = sys'"
    using s Batched by (auto simp: send_def split: bind_splits)
  have "s_nextOrderID q + int (length ?batch) \<le> max_i64" if "map_of (reg_seqs r) symb = Some q" for q
    using Get_backed(3) [OF bk(1) g that] o Batched by (auto simp: orderly_def)
  moreover have "incoming q \<and> bounded_request q" if "q \<in> set ?batch" for q using o Batched rq that by (auto simp: orderly_def)
  ultimately have C: "backed r' sys'" "conserves symb (sys_accounts sys) (sys_accounts sys')"
    by (auto intro!: commit_symbol_backed [OF bk(2) c(1)])
  then show ?thesis using l c(2,3) by (simp add: node_backed_def conserves_def)
qed (use s lookup_backed [OF b g] in \<open>simp_all add: send_def\<close>)

text \<open>A MARKET BUY is the one order whose cost is not known before it trades.\<close>

definition unbounded_order :: "pb_PlaceOrderRequest \<Rightarrow> bool" where
  "unbounded_order req \<longleftrightarrow> po_Type req = ORDER_TYPE_MARKET \<and> po_Side req = SIDE_BUY"

lemma valid_bounded: "valid_request req \<Longrightarrow> \<not> unbounded_order req \<Longrightarrow> bounded_request (submit_request (requested req))"
  by (auto simp: valid_request_def unbounded_order_def bounded_request_def submit_request_def requested_def is_i64_def)

lemma PlaceOrder_backed:
  assumes b: "node_backed a0 nd" and o: "orderly env (po_Symbol req) nd" "\<not> unbounded_order req" and p: "PlaceOrder env req nd = Some (out, nd')"
  shows "node_backed a0 nd'"
proof (cases "valid_request req")
  case False
  then show ?thesis using p by (auto simp: PlaceOrder_def orderFromRequest_iff intro: node_backed_reply [OF b])
next
  case True
  then have v: "orderFromRequest req = Inr (requested req)" by (simp add: orderFromRequest_iff)
  obtain r sys e where g: "Get (ev_json env) (ev_now env) (po_Symbol req) (nd_reg nd) (nd_sys nd) = Some (r, sys, e)"
    using p v by (auto simp: PlaceOrder_def split: bind_splits)
  show ?thesis
  proof (cases e)
    case (Some err)
    with p v g show ?thesis by (auto simp: PlaceOrder_def intro: node_backed_reply [OF lookup_backed [OF b g]])
  next
    case None
    let ?nd = "nd\<lparr>nd_reg := r, nd_sys := sys\<rparr>"
    obtain h nd2 where s: "send (ev_json env) (ev_schedule env) (po_Symbol req) (submit_request (requested req)) ?nd = Some (h, nd2)"
      using p v g None by (auto simp: PlaceOrder_def Let_def split: bind_splits)
    have "node_backed a0 nd2" by (rule sent_backed [OF b g [unfolded None] o(1) valid_incoming [OF True] valid_bounded [OF True o(2)] s])
    moreover have "nd_reg nd' = nd_reg nd2 \<and> nd_sys nd' = nd_sys nd2"
      using p v g None s place_settle_frame by (fastforce simp: PlaceOrder_def Let_def split: prod.splits option.splits)
    ultimately show ?thesis using node_backed_reply by blast
  qed
qed

lemma CancelOrder_backed:
  assumes b: "node_backed a0 nd" and o: "orderly env (pc_Symbol req) nd" and p: "CancelOrder env req nd = Some (out, nd')"
  shows "node_backed a0 nd'"
proof -
  let ?rq = "cancel_request (pc_OrderId req) (pc_AccountId req)"
  have rq: "incoming ?rq" "bounded_request ?rq" by (simp_all add: incoming_def bounded_request_def cancel_request_def zero_request_def)
  consider (invalid) "nd' = nd"
    | (refused) r sys err where "Get (ev_json env) (ev_now env) (pc_Symbol req) (nd_reg nd) (nd_sys nd) = Some (r, sys, Some err)"
        "nd' = nd\<lparr>nd_reg := r, nd_sys := sys\<rparr>"
    | (sent) r sys h nd2 where "Get (ev_json env) (ev_now env) (pc_Symbol req) (nd_reg nd) (nd_sys nd) = Some (r, sys, None)"
        "send (ev_json env) (ev_schedule env) (pc_Symbol req) ?rq (nd\<lparr>nd_reg := r, nd_sys := sys\<rparr>) = Some (h, nd2)"
        "nd_reg nd' = nd_reg nd2" "nd_sys nd' = nd_sys nd2"
    using p by (fastforce simp: CancelOrder_def validateAccountID_iff Let_def split: option.splits if_splits bind_splits prod.splits)
  then show ?thesis
    by cases (use b o rq in \<open>auto intro: lookup_backed node_backed_reply [OF sent_backed]\<close>)
qed

lemma GetBookSnapshot_backed:
  assumes b: "node_backed a0 nd" and o: "orderly env symb nd" and p: "GetBookSnapshot env symb nd = Some (out, nd')"
  shows "node_backed a0 nd'"
proof -
  have rq: "incoming snapshot_request" "bounded_request snapshot_request"
    by (simp_all add: incoming_def bounded_request_def snapshot_request_def zero_request_def)
  consider (invalid) "nd' = nd"
    | (refused) r sys err where "Get (ev_json env) (ev_now env) symb (nd_reg nd) (nd_sys nd) = Some (r, sys, Some err)"
        "nd' = nd\<lparr>nd_reg := r, nd_sys := sys\<rparr>"
    | (sent) r sys h nd2 where "Get (ev_json env) (ev_now env) symb (nd_reg nd) (nd_sys nd) = Some (r, sys, None)"
        "send (ev_json env) (ev_schedule env) symb snapshot_request (nd\<lparr>nd_reg := r, nd_sys := sys\<rparr>) = Some (h, nd2)" "nd' = nd2"
    using p by (fastforce simp: GetBookSnapshot_def Let_def split: option.splits bind_splits prod.splits)
  then show ?thesis
    by cases (use b o rq in \<open>auto intro: lookup_backed sent_backed\<close>)
qed

section \<open>Runs\<close>

text \<open>
  Every state of a node that started with nothing on disk, by the calls of its clients in any order,
  as long as no MARKET BUY is among them. The files of an open symbol may change or fail at any time.
\<close>

inductive trading :: "Accounts \<Rightarrow> Node \<Rightarrow> bool" for a0 where
  start: "reg_accounts (nd_reg nd) \<Longrightarrow> reg_seqs (nd_reg nd) = [] \<Longrightarrow> sys_dirs (nd_sys nd) = [] \<Longrightarrow> sys_accounts (nd_sys nd) = a0 \<Longrightarrow>
    trading a0 nd"
| place: "trading a0 nd \<Longrightarrow> orderly env (po_Symbol req) nd \<Longrightarrow> \<not> unbounded_order req \<Longrightarrow> PlaceOrder env req nd = Some (out, nd') \<Longrightarrow>
    trading a0 nd'"
| cancel: "trading a0 nd \<Longrightarrow> orderly env (pc_Symbol creq) nd \<Longrightarrow> CancelOrder env creq nd = Some (cout, nd') \<Longrightarrow> trading a0 nd'"
| snapshot: "trading a0 nd \<Longrightarrow> orderly env symb nd \<Longrightarrow> GetBookSnapshot env symb nd = Some (sout, nd') \<Longrightarrow> trading a0 nd'"
| stream: "trading a0 nd \<Longrightarrow> stream_open env symb nd = Some (tout, nd') \<Longrightarrow> trading a0 nd'"
| turn: "trading a0 nd \<Longrightarrow> stream_turn sends symb i nd = Some (ts, broke, nd') \<Longrightarrow> trading a0 nd'"
| hang_up: "trading a0 nd \<Longrightarrow> trading a0 (stream_close symb i nd)"
| disk: "trading a0 nd \<Longrightarrow> map_of (sys_dirs (nd_sys nd)) symb = Some d \<Longrightarrow>
    trading a0 (nd\<lparr>nd_sys := (nd_sys nd)\<lparr>sys_dirs := gput symb d' (sys_dirs (nd_sys nd))\<rparr>\<rparr>)"

lemma start_backed:
  assumes "reg_accounts r" "reg_seqs r = []" "sys_dirs sys = []" "sys_accounts sys = a0" "solvent a0" "holds a0 = []"
  shows "backed r sys"
  using assms by (simp add: backed_def tracks_def)

lemma disk_backed:
  assumes b: "backed r sys" and d: "map_of (sys_dirs sys) symb = Some d"
  shows "backed r (sys\<lparr>sys_dirs := gput symb d' (sys_dirs sys)\<rparr>)"
proof -
  obtain s where s: "map_of (reg_seqs r) symb = Some s" using backed_closed(1) [OF b, of symb] d by force
  note S = backed_open [OF b s]
  show ?thesis
    by (rule backed_update [OF b, of r symb s]) (use b s S in \<open>simp_all add: backed_def\<close>)
qed

lemma trading_backed:
  assumes "trading a0 nd" and a: "solvent a0" "holds a0 = []"
  shows "node_backed a0 nd"
  using assms(1)
proof induction
  case (start nd)
  with start_backed [OF start(1-4) a] show ?case by (simp add: node_backed_def)
next
  case (place nd env req out nd')
  then show ?case by (auto intro: PlaceOrder_backed)
next
  case (cancel nd env creq cout nd')
  then show ?case by (auto intro: CancelOrder_backed)
next
  case (snapshot nd env symb sout nd')
  then show ?case by (auto intro: GetBookSnapshot_backed)
next
  case (stream nd env symb tout nd')
  show ?case
  proof (cases "validateSymbol symb")
    case None
    then obtain r sys e where g: "Get (ev_json env) (ev_now env) symb (nd_reg nd) (nd_sys nd) = Some (r, sys, e)" "nd_reg nd' = r" "nd_sys nd' = sys"
      using stream.hyps(2) by (auto simp: stream_open_def Let_def split: prod.splits bind_splits option.splits)
    show ?thesis by (rule node_backed_reply [OF lookup_backed [OF stream.IH g(1)]]) (simp_all add: g)
  qed (use stream in \<open>auto simp: stream_open_def\<close>)
next
  case (turn nd sends symb i ts broke nd')
  from turn.hyps(2) show ?case
    by (auto simp: stream_turn_def Let_def split: prod.splits option.splits intro: node_backed_reply [OF turn.IH])
next
  case (hang_up nd symb i)
  show ?case by (rule node_backed_reply [OF hang_up.IH]) (simp_all add: stream_close_def Let_def split: prod.splits)
next
  case (disk nd symb d d')
  then show ?case using disk_backed [of "nd_reg nd" "nd_sys nd" symb d d'] by (simp add: node_backed_def)
qed

end
