(* ===== verification/OMS_Trading_Props.thy ===== *)
theory OMS_Trading_Props
  imports OMS_Trading
begin

text \<open>
  What the composition of book, sequencers and account store promises to the owner of an account,
  evaluated on a small market of one buyer and one seller.
\<close>

section \<open>A small market\<close>

definition market_start :: Node where
  "market_start = \<lparr>nd_server = fst (NewServer False (NewRegistry False True)), nd_reg = NewRegistry False True,
     nd_sys = \<lparr>sys_accounts = demo_accounts, sys_dirs = [], sys_root_ok = True, sys_feed = []\<rparr>, nd_journal = []\<rparr>"

definition market_sell :: pb_PlaceOrderRequest where
  "market_sell = \<lparr>po_Symbol = ''NABIL'', po_AccountId = ''sita'', po_Side = SIDE_SELL, po_Type = ORDER_TYPE_LIMIT, po_Price = 10, po_Quantity = 30\<rparr>"

definition market_buy :: pb_PlaceOrderRequest where
  "market_buy = \<lparr>po_Symbol = ''NABIL'', po_AccountId = ''ram'', po_Side = SIDE_BUY, po_Type = ORDER_TYPE_LIMIT, po_Price = 12, po_Quantity = 20\<rparr>"

definition after_call :: "((code + pb_PlaceOrderResponse) \<times> Node) option \<Rightarrow> Node \<Rightarrow> Node" where
  "after_call res nd = (case res of None \<Rightarrow> nd | Some (_, nd') \<Rightarrow> nd')"

definition market_rest :: Node where
  "market_rest = after_call (PlaceOrder demo_env market_sell market_start) market_start"

definition market_traded :: Node where
  "market_traded = after_call (PlaceOrder demo_env market_buy market_rest) market_rest"

lemma market_calls:
  "PlaceOrder demo_env market_sell market_start \<noteq> None" "PlaceOrder demo_env market_buy market_rest \<noteq> None"
  by code_simp+

lemma demo_orderly: "map_of (reg_seqs (nd_reg nd)) symb = Some s \<Longrightarrow> s_nextOrderID s < 100 \<Longrightarrow> orderly demo_env symb nd"
  "map_of (reg_seqs (nd_reg nd)) symb = None \<Longrightarrow> orderly demo_env symb nd"
  by (simp_all add: orderly_def demo_env_def max_i64_def)

lemma market_trading: "trading demo_accounts market_traded"
proof -
  have 0: "trading demo_accounts market_start" by (rule trading.start) (simp_all add: market_start_def NewRegistry_def)
  have o0: "orderly demo_env (po_Symbol market_sell) market_start" by (rule demo_orderly(2)) code_simp
  obtain out1 where c1: "PlaceOrder demo_env market_sell market_start = Some (out1, market_rest)"
    using market_calls(1) by (auto simp: market_rest_def after_call_def)
  have 1: "trading demo_accounts market_rest" by (rule trading.place [OF 0 o0 _ c1]) code_simp
  have "map_option s_nextOrderID (map_of (reg_seqs (nd_reg market_rest)) (po_Symbol market_buy)) = Some 1" by code_simp
  then obtain s where s: "map_of (reg_seqs (nd_reg market_rest)) (po_Symbol market_buy) = Some s" "s_nextOrderID s = 1" by auto
  have o1: "orderly demo_env (po_Symbol market_buy) market_rest" by (rule demo_orderly(1) [OF s(1)]) (simp add: s(2))
  obtain out2 where c2: "PlaceOrder demo_env market_buy market_rest = Some (out2, market_traded)"
    using market_calls(2) by (auto simp: market_traded_def after_call_def)
  show ?thesis by (rule trading.place [OF 1 o1 _ c2]) code_simp
qed

section \<open>Solvency\<close>

text \<open>C3: No account is ever overdrawn. Start a node whose account store holds any balances that are
  not negative and fit the integers, with no reservations. Then, whatever limit orders, market sells, cancels, snapshots and
  trade streams its clients send, for whatever symbols, however the sequencers batch them, and whether the disks work
  or not: what is reserved of an account's cash and shares is never negative and never more than
  the account owns, and no cash and no share is created or lost.\<close>

theorem no_account_overdraws:
  assumes t: "trading a0 nd" and a: "solvent a0" "holds a0 = []"
  shows "let acc = sys_accounts (nd_sys nd) in
    0 \<le> ReservedCash acc who \<and> ReservedCash acc who \<le> Cash acc who \<and>
    0 \<le> ReservedPosition acc who symb \<and> ReservedPosition acc who symb \<le> Position acc who symb \<and>
    total_cash acc = total_cash a0 \<and> total_shares symb acc = total_shares symb a0"
proof -
  note B = trading_backed [OF t a]
  have s: "solvent (sys_accounts (nd_sys nd))" using B by (simp add: node_backed_def backed_def)
  then have w: "wf_accounts (sys_accounts (nd_sys nd))" by (simp add: solvent_def)
  show ?thesis
    using B s held_nonneg [OF w, of who]
    by (simp add: Let_def node_backed_def solvent_reserved [OF s]) (simp add: solvent_def Cash_def Position_def)
qed

theorem no_account_overdraws_witness:
  "(let acc = sys_accounts (nd_sys market_traded) in
     Cash acc ''ram'' = 800 \<and> Position acc ''ram'' ''NABIL'' = 20 \<and> ReservedCash acc ''ram'' = 0 \<and>
     Cash acc ''sita'' = 210 \<and> Position acc ''sita'' ''NABIL'' = 20 \<and> ReservedPosition acc ''sita'' ''NABIL'' = 10) \<and>
   (\<forall>who. ReservedCash (sys_accounts (nd_sys market_traded)) who \<le> Cash (sys_accounts (nd_sys market_traded)) who) \<and>
   total_cash (sys_accounts (nd_sys market_traded)) = 1010"
proof -
  have h: "holds demo_accounts = []" "total_cash demo_accounts = 1010" by code_simp+
  have "let acc = sys_accounts (nd_sys market_traded) in
     Cash acc ''ram'' = 800 \<and> Position acc ''ram'' ''NABIL'' = 20 \<and> ReservedCash acc ''ram'' = 0 \<and>
     Cash acc ''sita'' = 210 \<and> Position acc ''sita'' ''NABIL'' = 20 \<and> ReservedPosition acc ''sita'' ''NABIL'' = 10" by code_simp
  then show ?thesis using no_account_overdraws [OF market_trading demo_accounts_solvent h(1)] h(2) by (simp add: Let_def)
qed

text \<open>
  The restriction is needed, as the documentation of \<open>Reserve\<close> says: a MARKET BUY is checked for a positive
  balance only, and one of 30 shares offered at 100 leaves its buyer of 1000 owing 2000.
\<close>

definition dear_sell :: pb_PlaceOrderRequest where
  "dear_sell = market_sell\<lparr>po_Price := 100\<rparr>"

definition any_price_buy :: pb_PlaceOrderRequest where
  "any_price_buy = market_buy\<lparr>po_Type := ORDER_TYPE_MARKET, po_Price := 0, po_Quantity := 30\<rparr>"

lemma market_buy_can_overdraw:
  "(let nd = after_call (PlaceOrder demo_env dear_sell market_start) market_start
    in Cash (sys_accounts (nd_sys (after_call (PlaceOrder demo_env any_price_buy nd) nd))) ''ram'') = - 2000"
  by code_simp

section \<open>Reservations\<close>

text \<open>C8: A reservation exists exactly for each resting order. On the same runs, the store holds a
  reservation under a symbol and an order's identifier exactly when the symbol is open and the order rests in
  its book, and it is for the order's account, side, price and unfilled quantity: nothing is left
  reserved after a fill, a cancel, a self-match or a failed log, and nothing rests unreserved.\<close>

theorem reservations_are_the_resting_orders:
  assumes t: "trading a0 nd" and a: "solvent a0" "holds a0 = []"
  shows "map_of (holds (sys_accounts (nd_sys nd))) (symb, i) = Some h \<longleftrightarrow>
    (\<exists>s x. map_of (reg_seqs (nd_reg nd)) symb = Some s \<and> x \<in> set (queue (s_book s) Buy @ queue (s_book s) Sell) \<and>
       i = o_SeqID x \<and> h = hold_for symb (o_Side x) (o_Price x) x)"
proof -
  have B: "backed (nd_reg nd) (nd_sys nd)" using trading_backed [OF t a] by (simp add: node_backed_def)
  show ?thesis
  proof (cases "map_of (reg_seqs (nd_reg nd)) symb")
    case None
    then show ?thesis using backed_closed(2) [OF B None] by (simp add: tracks_def)
  next
    case (Some s)
    have F: "wf_book (s_book s)" "tracks symb (resting (s_book s)) (sys_accounts (nd_sys nd))"
      using backed_open(4) [OF B Some] by (simp_all add: funded_def)
    have side: "restored_hold symb x = hold_for symb (o_Side x) (o_Price x) x \<and> 0 < o_Quantity x" if "x \<in> resting (s_book s)" for x
      using that queue_wf_resting [OF F(1), of Buy x] queue_wf_resting [OF F(1), of Sell x]
      by (auto simp: wf_resting_def restored_hold_def)
    have "map_of (holds (sys_accounts (nd_sys nd))) (symb, i) = Some h \<longleftrightarrow> (\<exists>x \<in> resting (s_book s). i = o_SeqID x \<and> h = restored_hold symb x)"
      using F(2) side unfolding tracks_def by (cases "i \<in> o_SeqID ` resting (s_book s)") (force dest: inj_onD)+
    then show ?thesis using Some side by auto
  qed
qed

theorem reservations_are_the_resting_orders_witness:
  "map_of (holds (sys_accounts (nd_sys market_traded))) (''NABIL'', 1) =
     Some \<lparr>h_account = ''sita'', h_symbol = ''NABIL'', h_side = Sell, h_price = 10, h_qty = 10\<rparr> \<and>
   map_of (holds (sys_accounts (nd_sys market_traded))) (''NABIL'', 2) = None \<and>
   (\<exists>s x. map_of (reg_seqs (nd_reg market_traded)) ''NABIL'' = Some s \<and> x \<in> set (queue (s_book s) Buy @ queue (s_book s) Sell) \<and>
      o_SeqID x = 1 \<and> o_Placer x = ''sita'' \<and> o_Quantity x = 10)"
proof -
  have h: "holds demo_accounts = []" by code_simp
  have m: "map_of (holds (sys_accounts (nd_sys market_traded))) (''NABIL'', 1) =
      Some \<lparr>h_account = ''sita'', h_symbol = ''NABIL'', h_side = Sell, h_price = 10, h_qty = 10\<rparr>"
    "map_of (holds (sys_accounts (nd_sys market_traded))) (''NABIL'', 2) = None" by code_simp+
  from reservations_are_the_resting_orders [OF market_trading demo_accounts_solvent h, of "''NABIL''" 1] m(1)
  obtain s x where x: "map_of (reg_seqs (nd_reg market_traded)) ''NABIL'' = Some s" "x \<in> set (queue (s_book s) Buy @ queue (s_book s) Sell)"
    "1 = o_SeqID x" "\<lparr>h_account = ''sita'', h_symbol = ''NABIL'', h_side = Sell, h_price = 10, h_qty = 10\<rparr> = hold_for ''NABIL'' (o_Side x) (o_Price x) x"
    by blast
  from x(4) have "o_Placer x = ''sita''" "o_Quantity x = 10" by (simp_all add: hold_for_def)
  with x(1-3) m show ?thesis by (intro conjI exI [of _ s] exI [of _ x]) simp_all
qed

end
