(* ===== verification/OMS_Follower.thy ===== *)
theory OMS_Follower
  imports OMS_Replica_Props
begin

text \<open>
  The follower process: the loop of \<open>Run\<close> in \<open>replica.go\<close>, which lists the primary's symbols at every tick and
  starts one stream per symbol, and the command of \<open>cmd/follower/main.go\<close> around it. The answers of the
  primary and the moments the context ends are arguments; each stream is \<open>followSymbol\<close>.
\<close>

section \<open>The loop of Run\<close>

text \<open>
  One turn: the answer to \<open>ListSymbols\<close>, whether the context was over when the answer was looked at,
  and whether it ended before the next tick.
\<close>

record run_turn =
  rt_listing :: "code + string list"
  rt_gone :: bool
  rt_done :: bool

definition discover :: "run_turn \<Rightarrow> code option \<times> string list" where
  "discover t = (case rt_listing t of Inl err \<Rightarrow> (Some err, []) | Inr symbols \<Rightarrow> (None, symbols))"

text \<open>The symbols that have a stream, in the order started, and whether the loop has been left.\<close>

fun Run :: "run_turn list \<Rightarrow> string list \<Rightarrow> string list \<times> bool" where
  "Run [] running = (running, False)"
| "Run (t # ts) running =
     (let (err, symbols) = discover t
      in if err \<noteq> None \<and> rt_gone t then (running, True)
         else let (running', _) = start_new running symbols
              in if rt_done t then (running', True) else Run ts running')"

lemma start_new_spec:
  assumes "distinct running"
  shows "distinct (fst (start_new running symbols)) \<and> fst (start_new running symbols) = running @ snd (start_new running symbols) \<and>
    set symbols \<subseteq> set (fst (start_new running symbols))"
  using assms
proof (induction symbols arbitrary: running)
  case (Cons symbol symbols)
  show ?case
  proof (cases "List.member running symbol")
    case True
    with Cons.IH [OF Cons.prems] have "symbol \<in> set (fst (start_new running symbols))" by (metis Un_iff True List.member_iff set_append)
    moreover have e: "start_new running (symbol # symbols) = start_new running symbols" using True by simp
    ultimately show ?thesis unfolding e using Cons.IH [OF Cons.prems] by (metis insert_subset list.simps(15))
  next
    case False
    then have "distinct (running @ [symbol])" using Cons.prems by simp
    note I = Cons.IH [OF this]
    have "symbol \<in> set (fst (start_new (running @ [symbol]) symbols))" using I by (metis Un_iff list.set_intros(1) set_append)
    moreover have e: "fst (start_new running (symbol # symbols)) = fst (start_new (running @ [symbol]) symbols)"
      "snd (start_new running (symbol # symbols)) = symbol # snd (start_new (running @ [symbol]) symbols)"
      using False by (simp_all add: case_prod_beta)
    ultimately show ?thesis unfolding e using I by (metis append.assoc append_Cons append_Nil insert_subset list.simps(15))
  qed
qed simp

text \<open>No symbol ever has two streams, a stream is never dropped, and a failed listing costs nothing.\<close>

lemma Run_streams:
  assumes "distinct running"
  shows "distinct (fst (Run ts running)) \<and> (\<exists>more. fst (Run ts running) = running @ more)"
  using assms
proof (induction ts arbitrary: running)
  case (Cons t ts)
  note S = start_new_spec [OF Cons.prems, of "snd (discover t)"]
  have d: "distinct (fst (start_new running (snd (discover t))))" using S by blast
  obtain more where "fst (Run ts (fst (start_new running (snd (discover t))))) = running @ snd (start_new running (snd (discover t))) @ more"
    "distinct (fst (Run ts (fst (start_new running (snd (discover t))))))"
    using Cons.IH [OF d] S by (metis append_assoc)
  then show ?case using S Cons.prems d by (simp only: Run.simps case_prod_beta Let_def split: if_split) force
qed simp

text \<open>A symbol the primary lists while the follower runs gets its stream.\<close>

lemma Run_follows_listed:
  assumes "distinct running" "\<forall>t \<in> set (us @ [t]). \<not> rt_gone t" "\<forall>t \<in> set us. \<not> rt_done t" "rt_listing t = Inr symbols"
  shows "set symbols \<subseteq> set (fst (Run (us @ t # vs) running))"
  using assms
proof (induction us arbitrary: running)
  case Nil
  note S = start_new_spec [OF Nil.prems(1), of symbols]
  obtain more where "fst (Run vs (fst (start_new running symbols))) = fst (start_new running symbols) @ more"
    using Run_streams [of "fst (start_new running symbols)" vs] S by blast
  with S Nil.prems show ?case by (auto simp: discover_def case_prod_beta Let_def)
next
  case (Cons u us)
  have "distinct (fst (start_new running (snd (discover u))))" using start_new_spec [OF Cons.prems(1)] by blast
  with Cons show ?case by (simp add: case_prod_beta Let_def)
qed

section \<open>The command\<close>

datatype follower_exit = WalRequired | DialFailed | RunFailed code | FollowerStopped

text \<open>
  \<open>run\<close> of the command: \<open>dial\<close> says whether the client could be created, \<open>res\<close> what \<open>Run\<close> returned and
  \<open>gone\<close> whether the context was over then.
\<close>

definition follower_run :: "string \<Rightarrow> bool \<Rightarrow> code option \<Rightarrow> bool \<Rightarrow> follower_exit" where
  "follower_run dir dial res gone =
     (if dir = [] then WalRequired
      else if \<not> dial then DialFailed
      else (case res of Some err \<Rightarrow> if \<not> gone then RunFailed err else FollowerStopped | None \<Rightarrow> FollowerStopped))"

text \<open>One tick of \<open>logStatus\<close>: position and depth of every symbol.\<close>

definition logStatus :: "Replica \<Rightarrow> (string \<times> int \<times> nat) list" where
  "logStatus rep = map (\<lambda>symbol. (symbol, Replica_Position rep symbol, Replica_RestingCount rep symbol)) (Replica_Symbols rep)"

end
