(* ===== verification/OMS_Bench.thy ===== *)
theory OMS_Bench
  imports OMS_System OMS_Book_Types
begin

text \<open>
  The benchmark of \<open>cmd/bench/main.go\<close>: a generator that draws orders around the last trade and
  the loop that submits them to a book for hours. The raw outputs of the random number generator
  and what its timers and signals deliver are arguments; printing is left out.
\<close>

section \<open>Constants\<close>

definition basePrice :: Price where
  "basePrice = 1000"

definition priceSpread :: int where
  "priceSpread = 50"

definition clampRange :: Price where
  "clampRange = 200"

definition maxQty :: int where
  "maxQty = 500"

definition targetDepth :: nat where
  "targetDepth = 2000"

definition maxHeapMB :: int where
  "maxHeapMB = 1024"

lemmas bench_constants = basePrice_def priceSpread_def clampRange_def maxQty_def targetDepth_def maxHeapMB_def

section \<open>Generating orders\<close>

text \<open>\<open>rand.Intn\<close> of a generator whose next raw output is \<open>raw\<close>: it panics unless the bound is positive.\<close>

definition Intn :: "int \<Rightarrow> nat \<Rightarrow> int option" where
  "Intn n raw = (if n \<le> 0 then None else Some (int raw mod n))"

definition clamp :: "Price \<Rightarrow> Price" where
  "clamp p =
     (if p > basePrice + clampRange then basePrice + clampRange
      else if p < basePrice - clampRange then basePrice - clampRange
      else p)"

text \<open>The raw outputs one order uses, in the order of the calls.\<close>

record draws =
  dr_side :: nat
  dr_type :: nat
  dr_price :: nat
  dr_placer :: nat
  dr_quantity :: nat

definition genOrder :: "draws \<Rightarrow> Time \<Rightarrow> Price \<Rightarrow> SeqID \<Rightarrow> Book \<Rightarrow> Order option" where
  "genOrder d now lastPrice seq book = do {
     i \<leftarrow> Intn 2 (dr_side d);
     let side = (if i = 0 then Sell else Buy);
     j \<leftarrow> Intn 20 (dr_type d);
     let orderType = (if j = 0 then Market else Limit);
     k \<leftarrow> Intn (2 * priceSpread + 1) (dr_price d);
     let drawn = add64 lastPrice (k - priceSpread);
     let price = (if RestingCount book > targetDepth then
                    (if side = Buy then (case BestAsk book of Some ask \<Rightarrow> ask | None \<Rightarrow> drawn)
                     else (case BestBid book of Some bid \<Rightarrow> bid | None \<Rightarrow> drawn))
                  else drawn);
     m \<leftarrow> Intn 50 (dr_placer d);
     q \<leftarrow> Intn maxQty (dr_quantity d);
     Some \<lparr>o_SeqID = seq, o_Symbol = ''NABIL'', o_Placer = ''trader-'' @ dec (nat m), o_Type = orderType,
       o_Price = clamp price, o_Quantity = q + 1, o_Side = side, o_TimeStamp = now\<rparr> }"

section \<open>The loop\<close>

record bench =
  bn_book :: Book
  bn_lastPrice :: Price
  bn_seq :: SeqID
  bn_orders :: int
  bn_trades :: int

definition bench_start :: bench where
  "bench_start = \<lparr>bn_book = NewBook, bn_lastPrice = basePrice, bn_seq = 0, bn_orders = 0, bn_trades = 0\<rparr>"

text \<open>What the \<open>select\<close> finds ready: a timer, a signal, the report tick with the heap in bytes, or nothing.\<close>

datatype bench_event = Deadline | Interrupt | Tick int | Turn draws Time "SeqID \<Rightarrow> Time"

datatype bench_end = ReachedTimeLimit | Interrupted | HeapExceeded

definition bench_turn :: "draws \<Rightarrow> Time \<Rightarrow> (SeqID \<Rightarrow> Time) \<Rightarrow> bench \<Rightarrow> bench option" where
  "bench_turn d t now bn = do {
     let seq = add64 (bn_seq bn) 1;
     x \<leftarrow> genOrder d t (bn_lastPrice bn) seq (bn_book bn);
     (b, ts, e) \<leftarrow> Submit now (bn_book bn) x;
     let bn1 = bn\<lparr>bn_book := b, bn_seq := seq\<rparr>;
     Some (if e \<noteq> None then bn1
           else bn1\<lparr>bn_lastPrice := (if ts \<noteq> [] then clamp (t_Price (last ts)) else bn_lastPrice bn),
                    bn_orders := add64 (bn_orders bn) 1,
                    bn_trades := add64 (bn_trades bn) (int (length ts))\<rparr>) }"

fun bench_loop :: "bench_event list \<Rightarrow> bench \<Rightarrow> (bench \<times> bench_end option) option" where
  "bench_loop [] bn = Some (bn, None)"
| "bench_loop (Deadline # es) bn = Some (bn, Some ReachedTimeLimit)"
| "bench_loop (Interrupt # es) bn = Some (bn, Some Interrupted)"
| "bench_loop (Tick heapAlloc # es) bn =
     (if heapAlloc > maxHeapMB * 1000000 then Some (bn, Some HeapExceeded) else bench_loop es bn)"
| "bench_loop (Turn d t now # es) bn = do { bn' \<leftarrow> bench_turn d t now bn; bench_loop es bn' }"

section \<open>The price band\<close>

definition in_band :: "Price \<Rightarrow> bool" where
  "in_band p \<longleftrightarrow> basePrice - clampRange \<le> p \<and> p \<le> basePrice + clampRange"

lemma clamp_band [simp]: "in_band (clamp p)" "in_band p \<Longrightarrow> clamp p = p"
  by (auto simp: clamp_def in_band_def bench_constants)

lemma genOrder_returns: "\<exists>x. genOrder d t lp seq b = Some x"
  by (simp add: genOrder_def Intn_def Let_def bench_constants)

lemma genOrder_spec:
  assumes g: "genOrder d t lp seq b = Some x"
  shows "o_SeqID x = seq" "o_Side x \<in> {Buy, Sell}" "o_Type x \<in> {Limit, Market}" "in_band (o_Price x)" "1 \<le> o_Quantity x" "o_Quantity x \<le> maxQty"
    "targetDepth < RestingCount b \<Longrightarrow> o_Side x = Buy \<Longrightarrow> BestAsk b = Some p \<Longrightarrow> o_Price x = clamp p"
    "targetDepth < RestingCount b \<Longrightarrow> o_Side x = Sell \<Longrightarrow> BestBid b = Some p \<Longrightarrow> o_Price x = clamp p"
proof -
  have m: "0 \<le> int (dr_quantity d) mod 500" "int (dr_quantity d) mod 500 < 500" by simp_all
  show "o_SeqID x = seq" "o_Side x \<in> {Buy, Sell}" "o_Type x \<in> {Limit, Market}" "in_band (o_Price x)"
    using g by (auto simp: genOrder_def Intn_def Let_def bench_constants split: if_splits)
  have "o_Quantity x = int (dr_quantity d) mod 500 + 1" using g by (auto simp: genOrder_def Intn_def Let_def bench_constants)
  then show "1 \<le> o_Quantity x" "o_Quantity x \<le> maxQty" using m by (simp_all add: bench_constants)
  show "targetDepth < RestingCount b \<Longrightarrow> o_Side x = Buy \<Longrightarrow> BestAsk b = Some p \<Longrightarrow> o_Price x = clamp p"
    "targetDepth < RestingCount b \<Longrightarrow> o_Side x = Sell \<Longrightarrow> BestBid b = Some p \<Longrightarrow> o_Price x = clamp p"
    using g by (auto simp: genOrder_def Intn_def Let_def priceSpread_def maxQty_def split: if_splits)
qed

section \<open>What a turn does to the book\<close>

lemma spec_match_sources:
  "spec_match now s tid x ms = (ts, ids, x', ms', tid') \<Longrightarrow> m \<in> set ms' \<Longrightarrow>
   \<exists>m0 \<in> set ms. o_Price m = o_Price m0 \<and> o_SeqID m = o_SeqID m0"
  by (induction rule: spec_match_induct) auto

text \<open>An order that crosses takes a maker off the book unless it is itself used up.\<close>

lemma spec_match_shorter:
  "spec_match now s tid x ms = (ts, ids, x', ms', tid') \<Longrightarrow> length ms' \<le> length ms \<and>
   (0 < o_Quantity x' \<longrightarrow> 0 < o_Quantity x \<longrightarrow> ms \<noteq> [] \<longrightarrow> acceptable s x (o_Price (hd ms)) \<longrightarrow> length ms' < length ms)"
  by (induction rule: spec_match_induct) auto

lemma queue_hd:
  assumes wf: "wf_book b" and s: "s \<in> {Buy, Sell}" and l: "ladder b s = p # ps"
  shows "queue b s \<noteq> []" "o_Price (hd (queue b s)) = p"
proof -
  have ne: "level_orders b p \<noteq> []" by (rule level_orders_nonempty [OF wf s]) (simp add: l)
  then have q: "queue b s \<noteq> []" "hd (queue b s) = hd (level_orders b p)" by (simp_all add: queue_def l)
  then show "queue b s \<noteq> []" "o_Price (hd (queue b s)) = p" using level_orders_price(1) [OF wf hd_in_set [OF ne]] by simp_all
qed

definition bench_inv :: "bench \<Rightarrow> bool" where
  "bench_inv bn \<longleftrightarrow> wf_book (bn_book bn) \<and> in_band (bn_lastPrice bn) \<and> 0 \<le> bn_seq bn \<and> bn_orders bn = bn_seq bn \<and>
     (\<forall>y \<in> resting (bn_book bn). in_band (o_Price y) \<and> o_SeqID y \<le> bn_seq bn)"

lemma bench_start_inv: "bench_inv bench_start"
  by (simp add: bench_inv_def bench_start_def in_band_def bench_constants queue_def NewBook_def ladder_def)
     (simp add: NewBook_def [symmetric])

definition turned :: "bench \<Rightarrow> Book \<Rightarrow> Trade list \<Rightarrow> bench" where
  "turned bn b ts = bn\<lparr>bn_book := b, bn_seq := bn_seq bn + 1,
     bn_lastPrice := (if ts \<noteq> [] then clamp (t_Price (last ts)) else bn_lastPrice bn),
     bn_orders := bn_seq bn + 1, bn_trades := add64 (bn_trades bn) (int (length ts))\<rparr>"

text \<open>One turn, with everything the book says about it.\<close>

lemma bench_turn_cases:
  assumes inv: "bench_inv bn" and n: "bn_seq bn < max_i64"
  obtains x b' x' and r :: MatchResult where "genOrder d t (bn_lastPrice bn) (bn_seq bn + 1) (bn_book bn) = Some x"
    "wf_book b'"
    "spec_match now (o_Side x) (nextTradeID (bn_book bn)) x (queue (bn_book bn) (opposite (o_Side x))) =
       (mr_Trades r, mr_SelfPrevented r, x', queue b' (opposite (o_Side x)), nextTradeID b')"
    "x' = x\<lparr>o_Quantity := o_Quantity x'\<rparr>"
    "queue b' (o_Side x) = (if o_Type x = Limit \<and> 0 < o_Quantity x' then spec_insert (o_Side x) x' (queue (bn_book bn) (o_Side x))
       else queue (bn_book bn) (o_Side x))"
    "bench_turn d t now bn = Some (turned bn b' (mr_Trades r))"
proof -
  let ?b = "bn_book bn"
  have I: "wf_book ?b" "0 \<le> bn_seq bn" "bn_orders bn = bn_seq bn" "\<And>y. y \<in> resting ?b \<Longrightarrow> o_SeqID y \<le> bn_seq bn"
    using inv by (auto simp: bench_inv_def)
  have "is_i64 (bn_seq bn + 1)" using I(2) n by (simp add: is_i64_def max_i64_def)
  then have seq: "add64 (bn_seq bn) 1 = bn_seq bn + 1" by (rule add64_exact)
  obtain x where x: "genOrder d t (bn_lastPrice bn) (bn_seq bn + 1) ?b = Some x" using genOrder_returns by blast
  note G = genOrder_spec [OF x]
  have "o_SeqID x \<notin> fst ` set (index ?b)" unfolding index_ids [OF I(1)] using I(4) G(1) by force
  moreover have q: "is_i64 (o_Quantity x)" using G(5,6) by (simp add: is_i64_def bench_constants)
  ultimately have f: "fresh_order ?b x" by (simp add: fresh_order_def)
  obtain b' r e where so: "SubmitOrder now ?b x = Some (b', r, e)" "(abs_book b', r, e) = spec_submit now (abs_book ?b) x"
    using SubmitOrder_total [OF I(1) f, of now] by blast
  have e: "e = None" using so(2) G(2,3) by (auto simp: spec_submit_def Let_def split: prod.splits)
  from SubmitOrder_accepted [OF I(1) f so(1) [unfolded e]] obtain x' where A: "wf_book b'"
    "spec_match now (o_Side x) (nextTradeID ?b) x (queue ?b (opposite (o_Side x))) =
       (mr_Trades r, mr_SelfPrevented r, x', queue b' (opposite (o_Side x)), nextTradeID b')"
    "x' = x\<lparr>o_Quantity := o_Quantity x'\<rparr>"
    "queue b' (o_Side x) = (if o_Type x = Limit \<and> 0 < o_Quantity x' then spec_insert (o_Side x) x' (queue ?b (o_Side x)) else queue ?b (o_Side x))"
    by metis
  have bt: "bench_turn d t now bn = Some (turned bn b' (mr_Trades r))"
    unfolding bench_turn_def Let_def seq using x so(1) e seq I(3) by (simp add: Submit_def turned_def)
  show thesis by (rule that [OF x A bt])
qed

lemma bench_turn_inv:
  assumes inv: "bench_inv bn" and n: "bn_seq bn < max_i64"
  shows "\<exists>bn'. bench_turn d t now bn = Some bn' \<and> bench_inv bn' \<and> bn_seq bn' = bn_seq bn + 1"
proof -
  obtain x b' x' and r :: MatchResult where G: "genOrder d t (bn_lastPrice bn) (bn_seq bn + 1) (bn_book bn) = Some x" and wf': "wf_book b'"
    and sm: "spec_match now (o_Side x) (nextTradeID (bn_book bn)) x (queue (bn_book bn) (opposite (o_Side x))) =
       (mr_Trades r, mr_SelfPrevented r, x', queue b' (opposite (o_Side x)), nextTradeID b')"
    and x': "x' = x\<lparr>o_Quantity := o_Quantity x'\<rparr>"
    and own: "queue b' (o_Side x) = (if o_Type x = Limit \<and> 0 < o_Quantity x' then spec_insert (o_Side x) x' (queue (bn_book bn) (o_Side x))
       else queue (bn_book bn) (o_Side x))"
    and bt: "bench_turn d t now bn = Some (turned bn b' (mr_Trades r))"
    by (rule bench_turn_cases [OF inv n, where d = d and t = t and now = now])
  note X = genOrder_spec [OF G]
  have I: "in_band (o_Price y) \<and> o_SeqID y \<le> bn_seq bn" if "y \<in> set (queue (bn_book bn) (o_Side x)) \<union> set (queue (bn_book bn) (opposite (o_Side x)))" for y
    using inv that unfolding bench_inv_def resting_side [OF X(2)] by blast
  have xx: "o_Price x' = o_Price x" "o_SeqID x' = o_SeqID x" by (subst x'; simp)+
  have "in_band (o_Price y) \<and> o_SeqID y \<le> bn_seq bn + 1" if y: "y \<in> resting b'" for y
  proof -
    consider "y = x'" | "y \<in> set (queue (bn_book bn) (o_Side x))" | "y \<in> set (queue b' (opposite (o_Side x)))"
      using y unfolding resting_side [OF X(2)] own by (auto dest!: set_insert_side split: if_splits)
    then show ?thesis
    proof cases
      case 3
      then obtain m0 where "m0 \<in> set (queue (bn_book bn) (opposite (o_Side x)))" "o_Price y = o_Price m0" "o_SeqID y = o_SeqID m0"
        using spec_match_sources [OF sm] by blast
      with I [of m0] show ?thesis by simp
    qed (use I [of y] X(1,4) xx in auto)
  qed
  then have "bench_inv (turned bn b' (mr_Trades r))"
    using inv wf' by (simp add: bench_inv_def turned_def)
  then show ?thesis using bt by (simp add: turned_def)
qed

section \<open>The properties\<close>

text \<open>The turns of a list of events, an upper bound of the orders submitted.\<close>

definition turns :: "bench_event list \<Rightarrow> nat" where
  "turns es = length (filter (\<lambda>e. case e of Turn _ _ _ \<Rightarrow> True | _ \<Rightarrow> False) es)"

lemma bench_loop_inv:
  "bench_inv bn \<Longrightarrow> bn_seq bn + int (turns es) \<le> max_i64 \<Longrightarrow>
   \<exists>bn' why. bench_loop es bn = Some (bn', why) \<and> bench_inv bn' \<and> bn_seq bn' \<le> bn_seq bn + int (turns es)"
proof (induction es bn rule: bench_loop.induct)
  case (4 heapAlloc es bn)
  then show ?case by (auto simp: turns_def)
next
  case (5 d t now es bn)
  have "turns (Turn d t now # es) = Suc (turns es)" by (simp add: turns_def)
  with 5 bench_turn_inv [of bn d t now] show ?case by (force simp: algebra_simps)
qed (simp_all add: turns_def)

text \<open>C39: The benchmark runs for as long as it is let, inside its price band. From its start and for any
  random numbers, timer ticks, heap sizes and signals, fewer orders than the sequence counter holds: the
  loop never panics and no submission fails, so that it has counted every order it numbered;
  the last price and the price of every resting order stay within 200 of the base price, and so every
  resting order remains within reach of the prices drawn later.\<close>

theorem bench_stays_in_its_band:
  assumes "int (turns es) \<le> max_i64"
  shows "\<exists>bn why. bench_loop es bench_start = Some (bn, why) \<and> bn_orders bn = bn_seq bn \<and> bn_seq bn \<le> int (turns es) \<and>
    800 \<le> bn_lastPrice bn \<and> bn_lastPrice bn \<le> 1200 \<and>
    (\<forall>y \<in> set (queue (bn_book bn) Buy @ queue (bn_book bn) Sell). 800 \<le> o_Price y \<and> o_Price y \<le> 1200)"
proof -
  have "bn_seq bench_start = 0" by (simp add: bench_start_def)
  then obtain bn why where "bench_loop es bench_start = Some (bn, why)" "bench_inv bn" "bn_seq bn \<le> int (turns es)"
    using bench_loop_inv [OF bench_start_inv, of es] assms by auto
  then show ?thesis by (intro exI [of _ bn] exI [of _ why]) (auto simp: bench_inv_def in_band_def bench_constants)
qed

text \<open>An ask of trader 1 at 1000, a bid of trader 2 at 1000, a report and Ctrl+C.\<close>

definition demo_events :: "bench_event list" where
  "demo_events = [Turn \<lparr>dr_side = 0, dr_type = 1, dr_price = 50, dr_placer = 1, dr_quantity = 9\<rparr> 0 demo_clock,
     Turn \<lparr>dr_side = 1, dr_type = 1, dr_price = 60, dr_placer = 2, dr_quantity = 3\<rparr> 0 demo_clock, Tick 7000000, Interrupt]"

theorem bench_stays_in_its_band_witness:
  "\<exists>bn. bench_loop demo_events bench_start = Some (bn, Some Interrupted) \<and> bn_orders bn = 2 \<and> bn_trades bn = 1 \<and> bn_lastPrice bn = 1000 \<and>
     (\<forall>y \<in> set (queue (bn_book bn) Buy @ queue (bn_book bn) Sell). 800 \<le> o_Price y \<and> o_Price y \<le> 1200)"
proof -
  have t: "int (turns demo_events) \<le> max_i64" by (simp add: turns_def demo_events_def max_i64_def)
  have "case bench_loop demo_events bench_start of None \<Rightarrow> False
    | Some (bn, why) \<Rightarrow> why = Some Interrupted \<and> bn_orders bn = 2 \<and> bn_trades bn = 1 \<and> bn_lastPrice bn = 1000" by code_simp
  with bench_stays_in_its_band [OF t] show ?thesis by (auto split: option.splits prod.splits)
qed

text \<open>Above the target depth the book does not grow. When more than 2000 orders rest and both sides have
  one, the order of the next turn meets the best order of the other side: whatever is drawn, the turn leaves at most
  as many resting orders as before. It need not shrink: a remainder rests in the place of the orders it used up.\<close>

lemma deep_book_does_not_grow:
  assumes inv: "bench_inv bn" and n: "bn_seq bn < max_i64" and deep: "targetDepth < RestingCount (bn_book bn)"
    and both: "BestBid (bn_book bn) \<noteq> None" "BestAsk (bn_book bn) \<noteq> None"
  shows "\<exists>bn'. bench_turn d t now bn = Some bn' \<and> RestingCount (bn_book bn') \<le> RestingCount (bn_book bn)"
proof -
  let ?b = "bn_book bn"
  have wf: "wf_book ?b" using inv by (simp add: bench_inv_def)
  obtain x b' x' and r :: MatchResult where G: "genOrder d t (bn_lastPrice bn) (bn_seq bn + 1) ?b = Some x" and wf': "wf_book b'"
    and sm: "spec_match now (o_Side x) (nextTradeID ?b) x (queue ?b (opposite (o_Side x))) =
       (mr_Trades r, mr_SelfPrevented r, x', queue b' (opposite (o_Side x)), nextTradeID b')"
    and own: "queue b' (o_Side x) = (if o_Type x = Limit \<and> 0 < o_Quantity x' then spec_insert (o_Side x) x' (queue ?b (o_Side x)) else queue ?b (o_Side x))"
    and bt: "bench_turn d t now bn = Some (turned bn b' (mr_Trades r))"
    by (rule bench_turn_cases [OF inv n, where d = d and t = t and now = now])
  note X = genOrder_spec [OF G]
  have op: "opposite (o_Side x) \<in> {Buy, Sell}" by (rule opposite_side [OF X(2)])
  obtain p ps where l: "ladder ?b (opposite (o_Side x)) = p # ps" and best: "o_Price x = clamp p"
    using both X(2) X(7,8) [OF deep] by (cases "o_Side x") (auto simp: BestBid_def BestAsk_def ladder_def split: list.splits)
  note H = queue_hd [OF wf op l]
  have "in_band p" using inv hd_in_set [OF H(1)] H(2) X(2) unfolding bench_inv_def by (cases "o_Side x") force+
  then have "acceptable (o_Side x) x (o_Price (hd (queue ?b (opposite (o_Side x)))))"
    using best H(2) by (simp add: acceptable_def better_def)
  with spec_match_shorter [OF sm] H(1) X(5)
  have "length (queue b' (opposite (o_Side x))) + (if 0 < o_Quantity x' then 1 else 0) \<le> length (queue ?b (opposite (o_Side x)))" by auto
  moreover have "length (spec_insert (o_Side x) x' ys) = length ys + 1" for ys
    by (simp add: spec_insert_def) (metis length_append takeWhile_dropWhile_id)
  then have "length (queue b' (o_Side x)) \<le> length (queue ?b (o_Side x)) + (if 0 < o_Quantity x' then 1 else 0)" unfolding own by auto
  ultimately have "RestingCount b' \<le> RestingCount ?b"
    using X(2) unfolding RestingCount_queues [OF wf] RestingCount_queues [OF wf'] by (cases "o_Side x") auto
  then show ?thesis using bt by (simp add: turned_def)
qed

text \<open>A deep book: one ask at 1100 and any number of bids at 900 below it.\<close>

definition deep :: "nat \<Rightarrow> Book \<Rightarrow> bool" where
  "deep k b \<longleftrightarrow> wf_book b \<and> length (queue b Buy) = k \<and> length (queue b Sell) = 1 \<and>
     (\<forall>y \<in> set (queue b Buy). o_Price y = 900 \<and> o_SeqID y \<le> int k + 1) \<and> (\<forall>y \<in> set (queue b Sell). o_Price y = 1100 \<and> o_SeqID y \<le> 1)"

definition plain_order :: "OrderSide \<Rightarrow> Price \<Rightarrow> SeqID \<Rightarrow> Order" where
  "plain_order s p i = \<lparr>o_SeqID = i, o_Symbol = ''NABIL'', o_Placer = ''trader-1'', o_Type = Limit, o_Price = p, o_Quantity = 1, o_Side = s, o_TimeStamp = 0\<rparr>"

lemma deep_0: "\<exists>b. deep 0 b"
proof -
  have f: "fresh_order NewBook (plain_order Sell 1100 1)" by (simp add: fresh_order_def plain_order_def NewBook_def is_i64_def)
  obtain b r e where so: "SubmitOrder demo_clock NewBook (plain_order Sell 1100 1) = Some (b, r, e)" "wf_book b"
    "(abs_book b, r, e) = spec_submit demo_clock (abs_book NewBook) (plain_order Sell 1100 1)"
    using SubmitOrder_total [OF wf_NewBook f, of demo_clock] by blast
  have "queue NewBook s = []" for s by (simp add: queue_def NewBook_def ladder_def)
  with so(3) have "queue b Buy = []" "queue b Sell = [plain_order Sell 1100 1]"
    by (auto simp: spec_submit_def abs_book_def plain_order_def spec_insert_def Let_def)
  with so(2) show ?thesis by (auto simp: deep_def plain_order_def)
qed

lemma deep_Suc:
  assumes d: "deep k b" and k: "int k + 2 \<le> max_i64"
  shows "\<exists>b'. deep (Suc k) b'"
proof -
  let ?x = "plain_order Buy 900 (int k + 2)"
  have wf: "wf_book b" using d by (simp add: deep_def)
  have "o_SeqID ?x \<notin> fst ` set (index b)" unfolding index_ids [OF wf] using d by (force simp: deep_def plain_order_def)
  then have f: "fresh_order b ?x" by (simp add: fresh_order_def plain_order_def is_i64_def)
  obtain b' r e where so: "wf_book b'" "(abs_book b', r, e) = spec_submit demo_clock (abs_book b) ?x"
    using SubmitOrder_total [OF wf f, of demo_clock] by blast
  obtain m where m: "queue b Sell = [m]" "o_Price m = 1100" "o_SeqID m \<le> 1" using d by (auto simp: deep_def length_Suc_conv)
  then have "spec_match demo_clock Buy (nextTradeID b) ?x (queue b Sell) = ([], [], ?x, [m], nextTradeID b)"
    by (simp add: acceptable_def better_def plain_order_def)
  with so(2) m have "queue b' Buy = spec_insert Buy ?x (queue b Buy)" "queue b' Sell = [m]"
    by (auto simp: spec_submit_def abs_book_def plain_order_def Let_def)
  moreover have "length (spec_insert Buy ?x ys) = Suc (length ys)" for ys
    by (simp add: spec_insert_def) (metis length_append takeWhile_dropWhile_id)
  moreover have "o_Price y = 900 \<and> o_SeqID y \<le> int (Suc k) + 1" if "y \<in> set (spec_insert Buy ?x (queue b Buy))" for y
    using set_insert_side [OF that] d by (auto simp: deep_def plain_order_def)
  ultimately show ?thesis using so(1) d m by (auto simp: deep_def intro!: exI [of _ b'])
qed

lemma deep_exists: "int k + 2 \<le> max_i64 \<Longrightarrow> \<exists>b. deep k b"
proof (induction k)
  case 0
  show ?case by (rule deep_0)
next
  case (Suc k)
  then obtain b where "deep k b" by auto
  from deep_Suc [OF this] Suc.prems show ?case by simp
qed

lemma deep_book_does_not_grow_witness:
  "\<exists>bn bn'. RestingCount (bn_book bn) = 2001 \<and> bench_turn \<lparr>dr_side = 1, dr_type = 1, dr_price = 50, dr_placer = 1, dr_quantity = 9\<rparr> 0 demo_clock bn = Some bn' \<and>
     RestingCount (bn_book bn') \<le> 2001"
proof -
  obtain b where d: "deep 2000 b" using deep_exists [of 2000] by (auto simp: max_i64_def)
  define bn where "bn = \<lparr>bn_book = b, bn_lastPrice = 1000, bn_seq = 2001, bn_orders = 2001, bn_trades = 0\<rparr>"
  have wf: "wf_book b" using d by (simp add: deep_def)
  have inv: "bench_inv bn" using d by (fastforce simp: deep_def bench_inv_def bn_def in_band_def bench_constants)
  have c: "RestingCount (bn_book bn) = 2001" using RestingCount_queues [OF wf] d by (simp add: bn_def deep_def)
  have "bids b \<noteq> []" "asks b \<noteq> []" using d by (auto simp: deep_def queue_def ladder_def)
  then have both: "BestBid (bn_book bn) \<noteq> None" "BestAsk (bn_book bn) \<noteq> None" by (auto simp: bn_def BestBid_def BestAsk_def split: list.splits)
  have s: "bn_seq bn < max_i64" "targetDepth < RestingCount (bn_book bn)" by (simp_all add: c bench_constants) (simp add: bn_def max_i64_def)
  from deep_book_does_not_grow [OF inv s both] c show ?thesis by metis
qed

text \<open>A crossing order that leaves as many orders as it found.\<close>

lemma crossing_need_not_shrink:
  "\<exists>b b' r. RestingCount b = 1 \<and> BestAsk b = Some 1000 \<and>
     SubmitOrder (\<lambda>_. 0) b \<lparr>o_SeqID = 2, o_Symbol = ''NABIL'', o_Placer = ''trader-2'', o_Type = Limit, o_Price = 1000, o_Quantity = 500,
       o_Side = Buy, o_TimeStamp = 0\<rparr> = Some (b', r, None) \<and> RestingCount b' = 1"
proof -
  let ?ask = "\<lparr>o_SeqID = 1, o_Symbol = ''NABIL'', o_Placer = ''trader-1'', o_Type = Limit, o_Price = 1000, o_Quantity = 10, o_Side = Sell, o_TimeStamp = 0\<rparr>"
  let ?bid = "\<lparr>o_SeqID = 2, o_Symbol = ''NABIL'', o_Placer = ''trader-2'', o_Type = Limit, o_Price = 1000, o_Quantity = 500, o_Side = Buy, o_TimeStamp = 0\<rparr>"
  have "case SubmitOrder (\<lambda>_. 0) NewBook ?ask of None \<Rightarrow> False | Some (b, _, _) \<Rightarrow> RestingCount b = 1 \<and> BestAsk b = Some 1000 \<and>
      (case SubmitOrder (\<lambda>_. 0) b ?bid of None \<Rightarrow> False | Some (b', r, e) \<Rightarrow> e = None \<and> RestingCount b' = 1)" by code_simp
  then show ?thesis by (auto split: option.splits prod.splits)
qed

end
