(* ===== verification/OMS_Loadgen.thy ===== *)
theory OMS_Loadgen
  imports OMS_Bench OMS_Trading
begin

text \<open>
  The load generator of \<open>cmd/loadgen/main.go\<close>: the checks on its flags, the requests a worker draws, what the
  worker counts, and the report. The raw outputs of the random number generator, the answers of
  the node and the measured times are arguments; dialling, signals and printing are left out.
\<close>

section \<open>Flags\<close>

record load_config =
  lc_symbolCSV :: string
  lc_accounts :: int
  lc_basePrice :: int
  lc_spread :: int

definition load_defaults :: load_config where
  "load_defaults = \<lparr>lc_symbolCSV = ''NABIL,ADBL,HBL,NRIC'', lc_accounts = 8, lc_basePrice = 500, lc_spread = 5\<rparr>"

definition load_symbols :: "load_config \<Rightarrow> string list" where
  "load_symbols cf = FieldsFunc (\<lambda>c. c = CHR '','') [] (lc_symbolCSV cf)"

datatype load_refusal = NoSymbols | TooFewAccounts

definition load_check :: "load_config \<Rightarrow> load_refusal option" where
  "load_check cf =
     (if length (load_symbols cf) = 0 then Some NoSymbols
      else if lc_accounts cf < 2 then Some TooFewAccounts
      else None)"

section \<open>Workers\<close>

text \<open>The raw outputs one request uses, in the order of the calls.\<close>

record load_draws =
  ld_side :: nat
  ld_symbol :: nat
  ld_account :: nat
  ld_price :: nat
  ld_quantity :: nat

definition load_request :: "load_config \<Rightarrow> load_draws \<Rightarrow> pb_PlaceOrderRequest option" where
  "load_request cf d = do {
     i \<leftarrow> Intn 2 (ld_side d);
     let side = (if i = 0 then SIDE_SELL else SIDE_BUY);
     k \<leftarrow> Intn (int (length (load_symbols cf))) (ld_symbol d);
     a \<leftarrow> Intn (lc_accounts cf) (ld_account d);
     p \<leftarrow> Intn (add64 (mul64 2 (lc_spread cf)) 1) (ld_price d);
     q \<leftarrow> Intn 50 (ld_quantity d);
     Some \<lparr>po_Symbol = load_symbols cf ! nat k, po_AccountId = ''acct-'' @ dec (nat a), po_Side = side, po_Type = ORDER_TYPE_LIMIT,
       po_Price = sub64 (add64 (lc_basePrice cf) p) (lc_spread cf), po_Quantity = 1 + q\<rparr> }"

record workerResult =
  wr_latencies :: "int list"
  wr_trades :: int
  wr_rejected :: int

text \<open>How a call ended: with the run's context over, with an error of the node, or with a response after some time.\<close>

datatype call_end = RunEnded | CallRejected | CallAccepted int pb_PlaceOrderResponse

text \<open>The loop of a worker over the calls it makes until the context is over.\<close>

fun load_worker :: "load_config \<Rightarrow> (load_draws \<times> call_end) list \<Rightarrow> workerResult \<Rightarrow> workerResult option" where
  "load_worker cf [] res = Some res"
| "load_worker cf ((d, c) # calls) res = do {
     _ \<leftarrow> load_request cf d;
     (case c of
        RunEnded \<Rightarrow> Some res
      | CallRejected \<Rightarrow> load_worker cf calls (res\<lparr>wr_rejected := add64 (wr_rejected res) 1\<rparr>)
      | CallAccepted elapsed resp \<Rightarrow> load_worker cf calls
          (res\<lparr>wr_latencies := wr_latencies res @ [elapsed], wr_trades := add64 (wr_trades res) (int (length (pp_Trades resp)))\<rparr>)) }"

section \<open>The report\<close>

text \<open>
  \<open>percentile\<close> of a sorted slice; \<open>rank\<close> is \<open>int(p / 100 * float64(len(sorted)))\<close>, which is not negative
  for the percentages asked for.
\<close>

definition percentile :: "int list \<Rightarrow> nat \<Rightarrow> int" where
  "percentile lats rank =
     (if length lats = 0 then 0
      else let i = (if rank \<ge> length lats then length lats - 1 else rank) in lats ! i)"

record load_report =
  lr_accepted :: nat
  lr_rejected :: int
  lr_trades :: int
  lr_percentiles :: "int list"
  lr_max :: int

definition load_summary :: "(nat \<Rightarrow> nat list) \<Rightarrow> workerResult list \<Rightarrow> load_report option" where
  "load_summary ranks results =
     (let (all, trades, rejected) = fold (\<lambda>r (all, trades, rejected).
            (all @ wr_latencies r, add64 trades (wr_trades r), add64 rejected (wr_rejected r))) results ([], 0, 0);
          lats = sort all
      in if length all = 0 then None
         else Some \<lparr>lr_accepted = length all, lr_rejected = rejected, lr_trades = trades,
                lr_percentiles = map (percentile lats) (ranks (length all)), lr_max = lats ! (length all - 1)\<rparr>)"

section \<open>Requests\<close>

lemma dec_digits: "c \<in> set (dec n) \<Longrightarrow> 48 \<le> (of_char c :: nat) \<and> (of_char c :: nat) \<le> 57"
proof (induction n rule: dec.induct)
  case (1 n)
  have "(of_char (char_of (48 + m) :: char) :: nat) = 48 + m" if "m < 10" for m :: nat using that by simp
  with 1 show ?case by (subst (asm) dec.simps) (auto split: if_splits)
qed

lemma seed_account_valid: "n < 10 ^ 19 \<Longrightarrow> validateAccountID (seed_account n) = Inr (seed_account n)"
proof -
  assume n: "n < 10 ^ 19"
  have l: "length (dec n) \<le> 19" using dec_fixed [OF n] by simp
  have "\<forall>c \<in> set (''acct-'' @ dec n). 32 \<le> (of_char c :: nat) \<and> (of_char c :: nat) \<le> 126"
    using dec_digits [of _ n] by (fastforce simp: of_char_def)
  with l show ?thesis unfolding validateAccountID_iff seed_account_def by simp
qed

definition sound_config :: "load_config \<Rightarrow> bool" where
  "sound_config cf \<longleftrightarrow> load_check cf = None \<and> (\<forall>s \<in> set (load_symbols cf). validSymbol s) \<and> lc_accounts cf \<le> max_i64 \<and>
     0 \<le> lc_spread cf \<and> lc_spread cf < lc_basePrice cf \<and> lc_basePrice cf + lc_spread cf \<le> 2 ^ 40"

lemma load_request_spec:
  assumes c: "sound_config cf"
  shows "\<exists>req k n. load_request cf d = Some req \<and> k < length (load_symbols cf) \<and> po_Symbol req = load_symbols cf ! k \<and>
    int n < lc_accounts cf \<and> po_AccountId req = seed_account n \<and> po_Type req = ORDER_TYPE_LIMIT \<and> po_Side req \<in> {SIDE_BUY, SIDE_SELL} \<and>
    lc_basePrice cf - lc_spread cf \<le> po_Price req \<and> po_Price req \<le> lc_basePrice cf + lc_spread cf \<and> 1 \<le> po_Quantity req \<and> po_Quantity req \<le> 50"
proof -
  let ?L = "int (length (load_symbols cf))" and ?A = "lc_accounts cf" and ?S = "2 * lc_spread cf + 1"
  have pos: "0 < ?L" "0 < ?A" "0 < ?S" and b: "0 \<le> lc_spread cf" "lc_spread cf < lc_basePrice cf" "lc_basePrice cf + lc_spread cf \<le> 2 ^ 40"
    using c by (auto simp: sound_config_def load_check_def split: if_splits)
  have s: "add64 (mul64 2 (lc_spread cf)) 1 = ?S" using b by (simp add: add64_def mul64_def is_i64_def)
  let ?k = "int (ld_symbol d) mod ?L" and ?a = "int (ld_account d) mod ?A" and ?p = "int (ld_price d) mod ?S" and ?q = "int (ld_quantity d) mod 50"
  have m: "0 \<le> ?k" "?k < ?L" "0 \<le> ?a" "?a < ?A" "0 \<le> ?p" "?p < ?S" "0 \<le> ?q" "?q < 50"
    using pos pos_mod_bound [OF pos(3)] by simp_all
  have p: "sub64 (add64 (lc_basePrice cf) ?p) (lc_spread cf) = lc_basePrice cf + ?p - lc_spread cf"
  proof -
    have "is_i64 (lc_basePrice cf + p)" "is_i64 (lc_basePrice cf + p - lc_spread cf)" if "0 \<le> p" "p < ?S" for p
      using that b unfolding is_i64_def by simp_all
    from this [OF m(5,6)] show ?thesis by (simp add: add64_def sub64_def)
  qed
  have "load_request cf d = Some \<lparr>po_Symbol = load_symbols cf ! nat ?k, po_AccountId = seed_account (nat ?a),
      po_Side = (if int (ld_side d) mod 2 = 0 then SIDE_SELL else SIDE_BUY), po_Type = ORDER_TYPE_LIMIT,
      po_Price = lc_basePrice cf + ?p - lc_spread cf, po_Quantity = 1 + ?q\<rparr>"
    using pos by (simp add: load_request_def Intn_def Let_def s p seed_account_def)
  then show ?thesis using m by (intro exI [of _ "nat ?k"] exI [of _ "nat ?a"] exI conjI) (assumption | simp)+
qed

section \<open>Accounts\<close>

lemma seeded_exists:
  assumes "i < n"
  shows "Exists (seedAccounts n syms a) (seed_account i)"
proof -
  have pos: "existsLocked a who \<Longrightarrow> existsLocked (fold (\<lambda>s. SetPosition x s q) ss a) who" for a who x q ss
    by (induction ss arbitrary: a) (auto simp: existsLocked_def SetPosition_def setPositionLocked_def Let_def)
  have dep: "existsLocked (Deposit x q a) x" "existsLocked a who \<Longrightarrow> existsLocked (Deposit x q a) who" for a who x q
    by (auto simp: existsLocked_def Deposit_def)
  define f where "f i a = fold (\<lambda>symbol. SetPosition (seed_account i) symbol seedPosition) (FieldsFunc (\<lambda>c. c = CHR '','') [] syms)
    (Deposit (seed_account i) seedCash a)" for i a
  have keep: "existsLocked a who \<Longrightarrow> existsLocked (fold f js a) who" for a who js
    by (induction js arbitrary: a) (simp_all add: f_def pos dep)
  have made: "i \<in> set js \<Longrightarrow> existsLocked (fold f js a) (seed_account i)" for js
    by (induction js arbitrary: a) (auto intro: keep simp: f_def pos dep)
  have "seedAccounts n syms a = fold f [0..<n] a" by (simp add: seedAccounts_def f_def [abs_def] Let_def)
  with made [of "[0..<n]"] assms show ?thesis by (simp add: Exists_def)
qed

text \<open>C40: The load generator only sends what the node can take. With its flags accepted, valid symbols and a price
  band inside the venue's limits, whatever it draws: building a request does not panic, the request passes the order
  service's validation, its symbol is one the registry takes, it is no MARKET BUY, and its account is one of
  those a node started with at least as many seed accounts has.\<close>

theorem load_requests_pass_validation:
  assumes c: "sound_config cf" and n: "lc_accounts cf \<le> int n"
  shows "\<exists>req. load_request cf d = Some req \<and> orderFromRequest req = Inr (requested req) \<and> validSymbol (po_Symbol req) \<and>
    \<not> unbounded_order req \<and> Exists (seedAccounts n syms a) (po_AccountId req)"
proof -
  obtain req k i where r: "load_request cf d = Some req" "k < length (load_symbols cf)" "po_Symbol req = load_symbols cf ! k"
    "int i < lc_accounts cf" "po_AccountId req = seed_account i" "po_Type req = ORDER_TYPE_LIMIT" "po_Side req \<in> {SIDE_BUY, SIDE_SELL}"
    "lc_basePrice cf - lc_spread cf \<le> po_Price req" "po_Price req \<le> lc_basePrice cf + lc_spread cf" "1 \<le> po_Quantity req" "po_Quantity req \<le> 50"
    using load_request_spec [OF c, of d] by blast
  have sy: "validSymbol (po_Symbol req)" using c r(2,3) by (simp add: sound_config_def)
  then have ne: "po_Symbol req \<noteq> []" by (auto simp: validSymbol_def)
  have "int i < max_i64" using r(4) c by (simp add: sound_config_def)
  then have "i < 10 ^ 19" by (simp add: max_i64_def)
  from seed_account_valid [OF this] have ac: "validateAccountID (po_AccountId req) = Inr (po_AccountId req)" by (simp add: r(5))
  have "valid_request req"
    using ne ac r(6-11) c unfolding valid_request_def validateAccountID_iff by (auto simp: sound_config_def split: if_splits)
  moreover have "i < n" using r(4) n by simp
  ultimately show ?thesis using r(1,5,6) sy seeded_exists by (simp add: orderFromRequest_iff unbounded_order_def)
qed

lemma load_defaults_sound: "sound_config load_defaults"
  by code_simp

theorem load_requests_pass_validation_witness:
  "\<exists>req. load_request load_defaults \<lparr>ld_side = 0, ld_symbol = 6, ld_account = 11, ld_price = 12, ld_quantity = 99\<rparr> = Some req \<and>
     po_Symbol req = ''HBL'' \<and> po_AccountId req = ''acct-3'' \<and> po_Side req = SIDE_SELL \<and> po_Price req = 496 \<and> po_Quantity req = 50 \<and>
     orderFromRequest req = Inr (requested req) \<and> Exists (seedAccounts 8 ''HBL'' NewAccounts) ''acct-3''"
proof -
  let ?d = "\<lparr>ld_side = 0, ld_symbol = 6, ld_account = 11, ld_price = 12, ld_quantity = 99\<rparr>"
  have n: "lc_accounts load_defaults \<le> int 8" by (simp add: load_defaults_def)
  have "case load_request load_defaults ?d of None \<Rightarrow> False | Some req \<Rightarrow> po_Symbol req = ''HBL'' \<and> po_AccountId req = ''acct-3'' \<and>
      po_Side req = SIDE_SELL \<and> po_Price req = 496 \<and> po_Quantity req = 50" by code_simp
  with load_requests_pass_validation [OF load_defaults_sound n, of ?d "''HBL''" NewAccounts] show ?thesis by (auto split: option.splits)
qed

section \<open>Percentiles\<close>

text \<open>A percentile is a latency that was measured, a higher rank gives no lower one, and none is above the maximum.\<close>

lemma percentile_observed: "lats \<noteq> [] \<Longrightarrow> percentile lats rank \<in> set lats"
  by (auto simp: percentile_def Let_def)

lemma percentile_mono: "sorted lats \<Longrightarrow> i \<le> j \<Longrightarrow> percentile lats i \<le> percentile lats j"
  by (auto simp: percentile_def Let_def intro!: sorted_nth_mono)

lemma percentile_last: "lats \<noteq> [] \<Longrightarrow> percentile lats (length lats) = lats ! (length lats - 1)"
  by (simp add: percentile_def)

lemma percentile_max: "sorted lats \<Longrightarrow> lats \<noteq> [] \<Longrightarrow> percentile lats i \<le> lats ! (length lats - 1)"
  by (auto simp: percentile_def Let_def intro!: sorted_nth_mono)

lemma load_summary_spec:
  assumes "load_summary ranks results = Some rep"
  shows "lr_accepted rep = length (concat (map wr_latencies results))"
    "\<forall>p \<in> set (lr_percentiles rep). p \<in> (\<Union>r \<in> set results. set (wr_latencies r)) \<and> p \<le> lr_max rep"
    "lr_max rep \<in> (\<Union>r \<in> set results. set (wr_latencies r))"
proof -
  let ?step = "\<lambda>r (all, trades, rejected). (all @ wr_latencies r, add64 trades (wr_trades r), add64 rejected (wr_rejected r))"
  have all: "fst (fold ?step rs (all, t, j)) = all @ concat (map wr_latencies rs)" for rs all t j
    by (induction rs arbitrary: all t j) simp_all
  let ?all = "concat (map wr_latencies results)"
  obtain t j where f: "fold ?step results ([], 0, 0) = (?all, t, j)" using all [of results "[]" 0 0] by (cases "fold ?step results ([], 0, 0)") auto
  have ne: "?all \<noteq> []" and rep: "rep = \<lparr>lr_accepted = length ?all, lr_rejected = j, lr_trades = t,
      lr_percentiles = map (percentile (sort ?all)) (ranks (length ?all)), lr_max = sort ?all ! (length ?all - 1)\<rparr>"
    using assms unfolding load_summary_def f by (auto simp: Let_def split: if_splits)
  show "lr_accepted rep = length ?all" by (simp add: rep)
  have s: "sort ?all \<noteq> []" "length (sort ?all) = length ?all" "set (sort ?all) = (\<Union>r \<in> set results. set (wr_latencies r))"
    using ne by (auto dest: arg_cong [of "sort ?all" "[]" set])
  have mx: "lr_max rep = percentile (sort ?all) (length (sort ?all))" "lr_max rep = sort ?all ! (length (sort ?all) - 1)"
    using percentile_last [OF s(1)] unfolding s(2) by (simp_all only: rep load_report.select_convs)
  have le: "percentile (sort ?all) i \<le> lr_max rep" for i unfolding mx(2) by (rule percentile_max [OF sorted_sort s(1)])
  show "lr_max rep \<in> (\<Union>r \<in> set results. set (wr_latencies r))" unfolding mx(1) s(3) [symmetric] by (rule percentile_observed [OF s(1)])
  show "\<forall>p \<in> set (lr_percentiles rep). p \<in> (\<Union>r \<in> set results. set (wr_latencies r)) \<and> p \<le> lr_max rep"
    unfolding s(3) [symmetric] using percentile_observed [OF s(1)] le by (auto simp: rep)
qed

text \<open>
  It is not the nearest-rank percentile of its comment, which is the smallest element with at least \<open>p\<close> percent
  of the slice at or below it: the median of two latencies is reported as the larger one.
\<close>

definition nearest_rank :: "int list \<Rightarrow> nat \<Rightarrow> int" where
  "nearest_rank lats p = lats ! ((p * length lats + 99) div 100 - 1)"

lemma percentile_above_nearest_rank: "percentile [1, 2] (50 * 2 div 100) = 2" "nearest_rank [1, 2] 50 = 1"
  by (simp_all add: percentile_def nearest_rank_def)

end
