(* ===== verification/Spec2Isabelle.thy ===== *)
theory Spec2Isabelle
  imports OMS_Prelude OMS_Types OMS_Book OMS_Book_Inv OMS_Match OMS_Book_Props OMS_Accounts OMS_Accounts_Inv OMS_Accounts_Props
    OMS_Bytes OMS_Wal OMS_Wal_Inv OMS_Wal_Log OMS_Wal_Recover OMS_Book_Interface OMS_Wal_Props OMS_Sequencer OMS_Sequencer_Inv
    OMS_Registry OMS_Registry_Inv OMS_Sequencer_Props OMS_Registry_Props OMS_Ledger OMS_Ledger_Props
    OMS_Tail OMS_Tail_Inv OMS_Tail_Props OMS_Tail_Term OMS_Feed OMS_Wire OMS_Replication OMS_Replica OMS_Replica_Inv OMS_Replica_Props
    OMS_Api OMS_Api_Props OMS_Serve OMS_Api_Calls OMS_Metrics OMS_Node OMS_Recovery OMS_System OMS_System_Props
    OMS_Book_Types OMS_Funds OMS_Trading OMS_Trading_Props OMS_Follower OMS_Bench OMS_Loadgen
begin

text \<open>
  \<^bold>\<open>A verified model of the Dhukuti order management system.\<close>

  The program is one trading node and its follower. A client's order enters through the order
  service (\<open>internal/api/server.go\<close>), is routed by the symbol registry (\<open>internal/oms/registry.go\<close>) to
  the symbol's single-writer sequencer (\<open>internal/oms/sequencer.go\<close>), which checks and reserves the
  account's funds (\<open>internal/oms/accounts.go\<close>), appends the batch to the symbol's write-ahead log and
  syncs it (\<open>internal/oms/wal.go\<close>), and only then matches it in the order book (\<open>internal/oms/book.go\<close>),
  publishes the trades (\<open>internal/api/feed.go\<close>) and answers; the handler posts the trades to a
  double-entry journal in Postgres (\<open>internal/ledger/ledger.go\<close>). A follower
  (\<open>internal/replica/replica.go\<close>) reads the log files through the primary's replication service
  (\<open>internal/api/replication.go\<close>, \<open>internal/oms/tail.go\<close>) and keeps a log and a book of its own.

  \<^bold>\<open>Theories and sources.\<close> Theories named \<open>X_Inv\<close> hold the invariants and lemmas of \<open>X\<close>, theories named
  \<open>X_Props\<close> its properties with their evaluations.

  \<^item> \<open>OMS_Prelude\<close>: \<open>int64\<close> arithmetic with wrap-around, Go maps, slices, \<open>sort.Search\<close>. \<open>OMS_Types\<close>:
    \<open>types.go\<close>; the errors of package \<open>oms\<close> are one datatype, without their message texts.

  \<^item> \<open>OMS_Book\<close>: \<open>book.go\<close> and \<open>book_mutex.go\<close>. Levels, ladders and index are the record \<open>Book\<close>; a list
    element's pointer is a number. \<open>OMS_Book_Inv\<close> has the representation invariant, \<open>OMS_Match\<close> the
    specification as two priority lists and the refinement, \<open>OMS_Book_Props\<close> price-time priority,
    conservation, self-trade prevention, no crossing, cancellation. \<open>OMS_Book_Interface\<close> states the
    Go interface \<open>OrderBook\<close> as the locales \<open>order_book\<close> and \<open>owned_book\<close>, proves the laws of replay in
    them and interprets them on the book and on the mutex-guarded book. \<open>OMS_Book_Types\<close> shows that every
    operation returns and keeps every number in its machine type.

  \<^item> \<open>OMS_Accounts\<close>, \<open>_Inv\<close>, \<open>_Props\<close>: \<open>accounts.go\<close>. Reserved amounts are the sums of the holds, an
    accepted reservation never commits more than is owned, releasing undoes reserving,
    completing moves value without creating any.

  \<^item> \<open>OMS_Bytes\<close>, \<open>OMS_Wal\<close>, \<open>OMS_Wal_Inv\<close>, \<open>OMS_Wal_Log\<close>, \<open>OMS_Wal_Recover\<close>, \<open>OMS_Wal_Props\<close>: \<open>wal.go\<close> down to
    bytes, little-endian integers and the CRC. The locale \<open>durable_log\<close> is the contract of
    append and sync, interpreted on the segment writer. Records read back, a torn tail is
    dropped, a changed byte is noticed, a crash keeps what was synced, recovery rebuilds the book.

  \<^item> \<open>OMS_Sequencer\<close>, \<open>_Inv\<close>, \<open>_Props\<close>: \<open>sequencer.go\<close>. A commit is one function on the sequencer and the
    venue around it (account store, directory, feed). The live book is always the replay of the
    log; an acknowledged order is durable; a refused batch changes nothing; a restart resumes.

  \<^item> \<open>OMS_Registry\<close>, \<open>_Inv\<close>, \<open>_Props\<close>: \<open>registry.go\<close>. Symbols are bounded and harmless as paths, recovery
    restores one reservation per resting order.

  \<^item> \<open>OMS_Ledger\<close>, \<open>_Props\<close>: \<open>ledger.go\<close> over the table of \<open>0001_journal.sql\<close>. The locale \<open>settlement\<close> is
    the Go interface \<open>Ledger\<close> of the order service. Settling is atomic and idempotent, the journal
    balances and agrees with the in-memory store.

  \<^item> \<open>OMS_Tail\<close>, \<open>_Inv\<close>, \<open>_Props\<close>, \<open>OMS_Tail_Term\<close>: \<open>tail.go\<close>. Every access reads the directory as it is at that
    moment. Polls over a growing log ship it in order; a poll on any directory returns.

  \<^item> \<open>OMS_Feed\<close>: \<open>feed.go\<close>. \<open>OMS_Wire\<close>: the messages of \<open>oms.proto\<close>, the conversions and status codes.
    \<open>OMS_Replication\<close>: \<open>replication.go\<close>. \<open>OMS_Replica\<close>, \<open>_Inv\<close>, \<open>_Props\<close>: \<open>replica.go\<close>; a follower converges to
    its primary and can be restarted or promoted from its own directory.

  \<^item> \<open>OMS_Api\<close>, \<open>_Props\<close>: \<open>server.go\<close>. A handler meets its sequencer through a \<open>schedule\<close>: whether the
    request is handed over, which requests share its batch, whether the caller stops waiting.
    \<open>OMS_Serve\<close> follows one request through a group commit and \<open>OMS_Api_Calls\<close> derives what a cancel
    and a snapshot are answered from the log.
    \<open>OMS_Metrics\<close>: \<open>metrics.go\<close>, as the calls on the collectors. \<open>OMS_Node\<close>: start-up and shutdown of
    \<open>cmd/server/main.go\<close>. \<open>OMS_Recovery\<close>: an accepted order across a crash and a restart of the node.

  \<^item> \<open>OMS_System\<close>, \<open>_Props\<close>: the node as a state machine (\<open>node_step\<close>) of calls, trade streams, orderly
    restarts and crashes, with the acknowledged orders as its history. In every reachable state each
    symbol's log is intact and holds everything acknowledged, and every handler returns. A step
    assumes that the disk takes what is written; a crash may cut the log at any byte beyond
    what was synced, except while a new segment file is being created.

  \<^item> \<open>OMS_Funds\<close>, \<open>OMS_Trading\<close>, \<open>_Props\<close>: the account store under all the books at once. The locale
    \<open>reservation_store\<close> is what the sequencers rely on of the store, interpreted on it; \<open>OMS_Funds\<close> follows the
    reservations through a match, a submission and a cancel, \<open>OMS_Trading\<close> through the phases of a group commit
    (a failing log included), the lookup of a symbol and the handlers. In every run (\<open>trading\<close>) of a node
    started on empty directories the reservations are exactly those of the resting orders, no account
    has more reserved than it owns, and cash and shares are conserved. MARKET BUY orders are left
    out, which the documentation of \<open>Reserve\<close> excepts (\<open>market_buy_can_overdraw\<close>); restarts are in \<open>OMS_Registry_Props\<close> and \<open>OMS_Node\<close>.

  \<^item> \<open>OMS_Follower\<close>: the loop of \<open>Run\<close> and \<open>cmd/follower/main.go\<close>; no symbol has two streams and every listed one
    gets its stream. \<open>OMS_Bench\<close>: \<open>cmd/bench/main.go\<close>; the loop never fails and stays in its price band, and a
    deep book does not grow. \<open>OMS_Loadgen\<close>: \<open>cmd/loadgen/main.go\<close>; every request it draws passes validation, and
    the percentiles reported were measured.

  \<^bold>\<open>Conventions.\<close> An operation that can panic returns an \<open>option\<close>, and the properties show that it
  returns; an error value is an \<open>Err option\<close> or the left of a sum. Integers are \<open>int\<close> and every
  arithmetic operation of the source is \<open>add64\<close>, \<open>sub64\<close>, \<open>mul64\<close>, \<open>quot64\<close>, which wrap. A time is its
  nanoseconds since 1970; clock readings are arguments. JSON encoding is a parameter (\<open>Json\<close>), with
  the hypothesis that what it writes reads back; so is what the Postgres server answers
  (\<open>Postgres\<close>), and the raw output of a random number generator. A directory is a map from names to bytes with flags that say whether writing and
  syncing succeed; a crash cuts the open segment anywhere beyond its synced part. A method that
  holds its mutex throughout is one step; a goroutine's loop is a function of one turn.

  \<^bold>\<open>Loops.\<close> Recursion is structural or has a measure; no fuel is used. The three loops that may
  wait for ever (\<open>poll_loop\<close>, \<open>Next\<close>, \<open>stream_loop\<close>) are partial functions into \<open>option\<close>;
  \<open>OMS_Tail_Term\<close> shows that a poll returns on every directory.

  \<^bold>\<open>Not modelled.\<close> Tracing, log lines and HTTP endpoints, which change no state; the generated
  protobuf code, gRPC and Prometheus, which are not the program's own; the flags, dialling and
  printing of the commands, and the floating-point rank of a percentile, which is an argument; the
  Go scheduler, whose choices are the batches, schedules, events and connection lists the
  definitions take as arguments.
\<close>

end
